(* ===== verification/Lev_Prelude.thy ===== *)
theory Lev_Prelude
  imports Main "HOL-Library.Word"
begin

text \<open>
  Shared vocabulary of the development: bytes and C integer types, the faults a C function
  called from Lua can end in, and the generic facts about lists, big-endian byte strings and
  the error monad that the component theories use.

  The target is the one the sources are written for: a little-endian LP64 machine, so
  \<open>size_t\<close> and \<open>long\<close> have 64 bits, \<open>int\<close> has 32, and \<open>htons\<close>/\<open>htonl\<close> reverse the bytes.
\<close>

type_synonym byte = "8 word"
type_synonym size_t = "64 word"

named_theorems result_simps "unfolding equations of the error monad"
named_theorems bytes_simps "facts about byte strings and their lengths"

section \<open>Faults and the error monad\<close>

text \<open>
  A C function reached from Lua can end without returning: it raises a Lua error
  (\<open>luaL_error\<close>, \<open>luaL_argerror\<close>: a \<open>longjmp\<close>), it fails an \<open>assert\<close>, or it runs into
  undefined behaviour (a null pointer, an out-of-range conversion, a stack slot that is not
  what the API call needs). \<open>Out_of_fuel\<close> is the bound of a recursive model running out; each
  model that uses fuel comes with a lemma that it does not happen.
\<close>

datatype fault = Lua_error string | Assert_failed | Undefined string | Out_of_fuel

type_synonym 'a res = "fault + 'a"

definition bind_res :: "'a res \<Rightarrow> ('a \<Rightarrow> 'b res) \<Rightarrow> 'b res" where
  "bind_res m f = (case m of Inl e \<Rightarrow> Inl e | Inr x \<Rightarrow> f x)"

lemma bind_res_simps [simp, result_simps]:
  "bind_res (Inl e) f = Inl e" "bind_res (Inr x) f = f x"
  by (simp_all add: bind_res_def)

lemma bind_res_Inr_iff [result_simps]:
  "bind_res m f = Inr y \<longleftrightarrow> (\<exists>x. m = Inr x \<and> f x = Inr y)"
  by (cases m) simp_all

lemma bind_res_Inl_iff: "bind_res m f = Inl e \<longleftrightarrow> m = Inl e \<or> (\<exists>x. m = Inr x \<and> f x = Inl e)"
  by (cases m) simp_all

lemma bind_res_cong [fundef_cong]:
  "m = m' \<Longrightarrow> (\<And>x. m' = Inr x \<Longrightarrow> f x = g x) \<Longrightarrow> bind_res m f = bind_res m' g"
  by (cases m') simp_all

section \<open>Memory objects\<close>

text \<open>
  The bytes of an object are a function from offsets; the object's size is kept by its owner,
  which is where a bound is checked or proved. \<open>mem_write\<close> is \<open>memcpy\<close> into the object,
  \<open>mem_read\<close> the bytes a \<open>memcpy\<close> out of it copies, \<open>mem_set\<close> is \<open>memset\<close>.
\<close>

type_synonym mem = "nat \<Rightarrow> byte"

definition mem_write :: "mem \<Rightarrow> nat \<Rightarrow> byte list \<Rightarrow> mem" where
  "mem_write m at src = (\<lambda>i. if at \<le> i \<and> i < at + length src then src ! (i - at) else m i)"

definition mem_read :: "mem \<Rightarrow> nat \<Rightarrow> nat \<Rightarrow> byte list" where
  "mem_read m off n = map m [off..<off + n]"

definition mem_set :: "mem \<Rightarrow> nat \<Rightarrow> byte \<Rightarrow> nat \<Rightarrow> mem" where
  "mem_set m at v n = (\<lambda>i. if at \<le> i \<and> i < at + n then v else m i)"

lemma length_mem_read [simp, bytes_simps]: "length (mem_read m off n) = n"
  by (simp add: mem_read_def)

lemma nth_mem_read [simp]: "i < n \<Longrightarrow> mem_read m off n ! i = m (off + i)"
  by (simp add: mem_read_def)

lemma mem_read_0 [simp]: "mem_read m off 0 = []"
  by (simp add: mem_read_def)

lemma mem_read_write_same [simp]: "mem_read (mem_write m at src) at (length src) = src"
  by (rule nth_equalityI) (simp_all add: mem_write_def)

lemma mem_read_write_disjoint:
  "off + n \<le> at \<or> at + length src \<le> off \<Longrightarrow> mem_read (mem_write m at src) off n = mem_read m off n"
  by (rule nth_equalityI) (auto simp: mem_write_def)

lemma mem_read_write_prefix [simp]:
  "mem_read (mem_write m (off + n) src) off (n + length src) = mem_read m off n @ src"
  by (rule nth_equalityI) (auto simp: mem_write_def nth_append)

lemma mem_read_write_Nil [simp]: "mem_write m at [] = m"
  by (rule ext) (auto simp: mem_write_def)

lemma mem_write_append:
  "mem_write (mem_write m n p) (n + length p) q = mem_write m n (p @ q)"
  by (rule ext) (auto simp: mem_write_def nth_append)

lemma mem_read_append: "mem_read m off (n + k) = mem_read m off n @ mem_read m (off + n) k"
  by (rule nth_equalityI) (auto simp: nth_append)

lemma take_mem_read [simp]: "take k (mem_read m off n) = mem_read m off (min k n)"
  by (rule nth_equalityI) auto

lemma drop_mem_read [simp]: "drop k (mem_read m off n) = mem_read m (off + k) (n - k)"
  by (rule nth_equalityI) (auto simp: add.assoc)

lemma mem_read_set_same [simp]: "mem_read (mem_set m at v n) at n = replicate n v"
  by (rule nth_equalityI) (simp_all add: mem_set_def)

lemma mem_read_set_disjoint:
  "off + k \<le> at \<or> at + n \<le> off \<Longrightarrow> mem_read (mem_set m at v n) off k = mem_read m off k"
  by (rule nth_equalityI) (auto simp: mem_set_def)

lemma mem_read_cong: "(\<And>i. off \<le> i \<Longrightarrow> i < off + n \<Longrightarrow> m i = m' i) \<Longrightarrow> mem_read m off n = mem_read m' off n"
  by (rule nth_equalityI) simp_all

section \<open>Big-endian integers\<close>

text \<open>
  \<open>be_bytes n x\<close> is what \<open>htons\<close>, \<open>htonl\<close> or \<open>htonll\<close> followed by a \<open>memcpy\<close> of \<open>n\<close> bytes
  writes on a little-endian machine; \<open>be_val\<close> is what \<open>ntohs\<close>, \<open>ntohl\<close> or \<open>ntohll\<close> of the loaded
  bytes computes.
\<close>

fun be_bytes :: "nat \<Rightarrow> nat \<Rightarrow> byte list" where
  "be_bytes 0 x = []"
| "be_bytes (Suc n) x = be_bytes n (x div 256) @ [word_of_nat (x mod 256)]"

definition be_val :: "byte list \<Rightarrow> nat" where
  "be_val bs = foldl (\<lambda>acc b. acc * 256 + unat b) 0 bs"

lemma be_val_Nil [simp]: "be_val [] = 0"
  by (simp add: be_val_def)

lemma be_val_snoc [simp]: "be_val (bs @ [b]) = be_val bs * 256 + unat b"
  by (simp add: be_val_def)

lemma length_be_bytes [simp, bytes_simps]: "length (be_bytes n x) = n"
  by (induction n arbitrary: x) simp_all

lemma unat_byte_of_nat: "unat (word_of_nat x :: byte) = x mod 256"
  by (simp add: unat_of_nat)

lemma be_val_be_bytes: "be_val (be_bytes n x) = x mod 256 ^ n"
proof (induction n arbitrary: x)
  case (Suc n)
  then show ?case
    by (simp add: unat_byte_of_nat mod_mult2_eq [of x 256 "256 ^ n"])
qed simp

lemma be_val_be_bytes_id [simp]: "x < 256 ^ n \<Longrightarrow> be_val (be_bytes n x) = x"
  by (simp add: be_val_be_bytes)

lemma be_val_bound: "be_val bs < 256 ^ length bs"
proof (induction bs rule: rev_induct)
  case (snoc b bs)
  have "unat b < 256"
    using unsigned_less [of b, where ?'a = nat] by simp
  with snoc show ?case by simp
qed simp

lemma be_bytes_be_val: "be_bytes (length bs) (be_val bs) = bs"
proof (induction bs rule: rev_induct)
  case (snoc b bs)
  have "unat b < 256"
    using unsigned_less [of b, where ?'a = nat] by simp
  with snoc show ?case by simp
qed simp

lemma be_bytes_inj: "x < 256 ^ n \<Longrightarrow> y < 256 ^ n \<Longrightarrow> be_bytes n x = be_bytes n y \<Longrightarrow> x = y"
  by (metis be_val_be_bytes_id)

section \<open>Conversions between C integer types\<close>

text \<open>
  The value a C conversion to a signed type of \<open>w\<close> bits gives (two's complement, as every
  compiler for the target defines it).
\<close>

definition to_signed :: "nat \<Rightarrow> int \<Rightarrow> int" where
  "to_signed w k = (k + 2 ^ (w - 1)) mod 2 ^ w - 2 ^ (w - 1)"

lemma to_signed_id: "0 < w \<Longrightarrow> - (2 ^ (w - 1)) \<le> k \<Longrightarrow> k < 2 ^ (w - 1) \<Longrightarrow> to_signed w k = k"
proof -
  assume w: "0 < w" and lo: "- (2 ^ (w - 1)) \<le> k" and hi: "k < 2 ^ (w - 1)"
  have "(2::int) ^ w = 2 * 2 ^ (w - 1)"
    using w by (cases w) simp_all
  with lo hi show ?thesis by (simp add: to_signed_def)
qed

abbreviation to_int :: "int \<Rightarrow> int" where
  "to_int \<equiv> to_signed 32"

lemma to_int_nat [simp]: "n < 2147483648 \<Longrightarrow> to_int (int n) = int n"
  by (rule to_signed_id) simp_all

text \<open>Subtraction of \<open>size_t\<close> values, which wraps.\<close>

definition sz_sub :: "nat \<Rightarrow> nat \<Rightarrow> nat" where
  "sz_sub a b = (if b \<le> a then a - b else a + 2 ^ 64 - b)"

lemma sz_sub_le [simp]: "b \<le> a \<Longrightarrow> sz_sub a b = a - b"
  by (simp add: sz_sub_def)

section \<open>Input that comes in pieces\<close>

text \<open>
  The contract of an operation that consumes a list of items and may be given them in several
  calls: a call with no item does nothing, and two calls do what one call with both pieces does.
  Then every way of cutting the input gives the same result.
\<close>

fun feed_all :: "('s \<Rightarrow> 'i list \<Rightarrow> 's option) \<Rightarrow> 's \<Rightarrow> 'i list list \<Rightarrow> 's option" where
  "feed_all feed s [] = Some s"
| "feed_all feed s (p # ps) = (case feed s p of None \<Rightarrow> None | Some s' \<Rightarrow> feed_all feed s' ps)"

locale chunked =
  fixes ok :: "'s \<Rightarrow> bool"
    and feed :: "'s \<Rightarrow> 'i list \<Rightarrow> 's option"
  assumes feed_Nil: "ok s \<Longrightarrow> feed s [] = Some s"
    and feed_ok: "ok s \<Longrightarrow> feed s p = Some s' \<Longrightarrow> ok s'"
    and feed_append: "ok s \<Longrightarrow> feed s (p @ q) = (case feed s p of None \<Rightarrow> None | Some s' \<Rightarrow> feed s' q)"
begin

lemma feed_all_concat: "ok s \<Longrightarrow> feed_all feed s ps = feed s (concat ps)"
  by (induction ps arbitrary: s) (auto simp: feed_Nil feed_append dest: feed_ok split: option.split)

lemma feed_all_same: "ok s \<Longrightarrow> concat ps = concat qs \<Longrightarrow> feed_all feed s ps = feed_all feed s qs"
  by (simp add: feed_all_concat)

end

end
