(* ===== verification/Lua_Number.thy ===== *)
theory Lua_Number
  imports Lev_Prelude
begin

text \<open>
  \<open>lua_Number\<close> is a C \<open>double\<close>: an IEEE 754 binary64, kept here as its 64-bit pattern, because
  the MessagePack code copies that pattern to the wire. The theory gives the parts of the C
  language and of \<open>math.h\<close> the sources use on it: \<open>isinf\<close>, \<open>isnan\<close>, the test
  \<open>floor(n)==n\<close> with the integer it denotes, the conversion of an integer to \<open>double\<close> (round
  to nearest, ties to even) and the widening of a \<open>float\<close>.
\<close>

type_synonym lua_Number = "64 word"

section \<open>The fields of a binary64\<close>

definition dbl_sign :: "lua_Number \<Rightarrow> bool" where
  "dbl_sign w \<longleftrightarrow> 2 ^ 63 \<le> unat w"

definition dbl_exp :: "lua_Number \<Rightarrow> nat" where
  "dbl_exp w = unat w div 2 ^ 52 mod 2 ^ 11"

definition dbl_frac :: "lua_Number \<Rightarrow> nat" where
  "dbl_frac w = unat w mod 2 ^ 52"

definition dbl_make :: "bool \<Rightarrow> nat \<Rightarrow> nat \<Rightarrow> lua_Number" where
  "dbl_make s e f = word_of_nat ((if s then 2 ^ 63 else 0) + e * 2 ^ 52 + f)"

lemma dbl_decompose: "unat w = (if dbl_sign w then 2 ^ 63 else 0) + dbl_exp w * 2 ^ 52 + dbl_frac w"
proof -
  let ?n = "unat w"
  have "?n < 2 ^ 64"
    using unsigned_less [of w, where ?'a = nat] by simp
  then have hi: "?n div 2 ^ 63 = (if 2 ^ 63 \<le> ?n then 1 else 0)"
    by (auto simp: div_nat_eqI)
  have split: "?n = ?n div 2 ^ 63 * 2 ^ 63 + ?n div 2 ^ 52 mod 2 ^ 11 * 2 ^ 52 + ?n mod 2 ^ 52"
  proof -
    have "?n div 2 ^ 52 = ?n div 2 ^ 52 div 2 ^ 11 * 2 ^ 11 + ?n div 2 ^ 52 mod 2 ^ 11"
      by (simp add: div_mult_mod_eq)
    moreover have "?n div 2 ^ 52 div 2 ^ 11 = ?n div 2 ^ 63"
      by (simp add: div_mult2_eq [symmetric])
    ultimately have "?n div 2 ^ 52 = ?n div 2 ^ 63 * 2 ^ 11 + ?n div 2 ^ 52 mod 2 ^ 11"
      by metis
    then have "?n = (?n div 2 ^ 63 * 2 ^ 11 + ?n div 2 ^ 52 mod 2 ^ 11) * 2 ^ 52 + ?n mod 2 ^ 52"
      by (metis div_mult_mod_eq)
    then show ?thesis by (simp add: algebra_simps)
  qed
  with hi show ?thesis
    by (auto simp: dbl_sign_def dbl_exp_def dbl_frac_def)
qed

lemma dbl_make_fields [simp]: "dbl_make (dbl_sign w) (dbl_exp w) (dbl_frac w) = w"
  unfolding dbl_make_def dbl_decompose [symmetric] by simp

lemma dbl_frac_less: "dbl_frac w < 2 ^ 52"
  by (simp add: dbl_frac_def)

lemma dbl_exp_less: "dbl_exp w < 2 ^ 11"
  by (simp add: dbl_exp_def)

definition isinf :: "lua_Number \<Rightarrow> bool" where
  "isinf w \<longleftrightarrow> dbl_exp w = 2047 \<and> dbl_frac w = 0"

definition isnan :: "lua_Number \<Rightarrow> bool" where
  "isnan w \<longleftrightarrow> dbl_exp w = 2047 \<and> dbl_frac w \<noteq> 0"

text \<open>\<open>n > 0\<close> on a value that is not a NaN.\<close>

definition dbl_pos :: "lua_Number \<Rightarrow> bool" where
  "dbl_pos w \<longleftrightarrow> \<not> dbl_sign w \<and> unat w \<noteq> 0"

section \<open>Integral values\<close>

text \<open>The significand of a finite value \<open>(-1)^s * dbl_mant w * 2^(max (dbl_exp w) 1 - 1075)\<close>.\<close>

definition dbl_mant :: "lua_Number \<Rightarrow> nat" where
  "dbl_mant w = (if dbl_exp w = 0 then dbl_frac w else 2 ^ 52 + dbl_frac w)"

text \<open>
  \<open>dbl_int w = Some k\<close> when the finite \<open>w\<close> satisfies \<open>floor(w) == w\<close>, and \<open>k\<close> is its value.
\<close>

definition dbl_int_abs :: "lua_Number \<Rightarrow> nat option" where
  "dbl_int_abs w =
     (if dbl_exp w = 0 then (if dbl_frac w = 0 then Some 0 else None)
      else if 1075 \<le> dbl_exp w then Some (dbl_mant w * 2 ^ (dbl_exp w - 1075))
      else if dbl_mant w mod 2 ^ (1075 - dbl_exp w) = 0
        then Some (dbl_mant w div 2 ^ (1075 - dbl_exp w))
      else None)"

definition dbl_int :: "lua_Number \<Rightarrow> int option" where
  "dbl_int w =
     (if dbl_exp w = 2047 then None
      else map_option (\<lambda>k. if dbl_sign w then - int k else int k) (dbl_int_abs w))"

text \<open>
  The value of a finite double with its fraction dropped: what a C conversion to an integer type
  starts from. \<open>c_to_int lo hi\<close> is the conversion to a type whose values are \<open>lo..hi\<close>; out of that
  range (and for infinities and NaNs) the C standard leaves it undefined.
\<close>

definition dbl_trunc :: "lua_Number \<Rightarrow> int option" where
  "dbl_trunc w =
     (if dbl_exp w = 2047 then None
      else
        let k = (if dbl_exp w = 0 then 0
                 else if 1075 \<le> dbl_exp w then dbl_mant w * 2 ^ (dbl_exp w - 1075)
                 else dbl_mant w div 2 ^ (1075 - dbl_exp w))
        in Some (if dbl_sign w then - int k else int k))"

definition c_to_int :: "int \<Rightarrow> int \<Rightarrow> lua_Number \<Rightarrow> int res" where
  "c_to_int lo hi w =
     (case dbl_trunc w of
        Some k \<Rightarrow> if lo \<le> k \<and> k \<le> hi then Inr k else Inl (Undefined ''double out of range'')
      | None \<Rightarrow> Inl (Undefined ''double out of range''))"

lemma dbl_int_trunc: "dbl_int w = Some k \<Longrightarrow> dbl_trunc w = Some k"
  by (auto simp: dbl_int_def dbl_int_abs_def dbl_trunc_def Let_def split: if_splits)

lemma c_to_int_dbl_int: "dbl_int w = Some k \<Longrightarrow> lo \<le> k \<Longrightarrow> k \<le> hi \<Longrightarrow> c_to_int lo hi w = Inr k"
  by (simp add: c_to_int_def dbl_int_trunc)

section \<open>Rounding an integer to the nearest double\<close>

fun nbits :: "nat \<Rightarrow> nat" where
  "nbits n = (if n = 0 then 0 else Suc (nbits (n div 2)))"

declare nbits.simps [simp del]

lemma nbits_0 [simp]: "nbits 0 = 0"
  by (simp add: nbits.simps)

lemma nbits_bounds: "n \<noteq> 0 \<Longrightarrow> 2 ^ (nbits n - 1) \<le> n \<and> n < 2 ^ nbits n"
proof (induction n rule: nbits.induct)
  case (1 n)
  show ?case
  proof (cases "n div 2 = 0")
    case True
    with 1 have "n = 1" by presburger
    then show ?thesis by (simp add: nbits.simps [of "Suc 0"])
  next
    case False
    with 1 have IH: "2 ^ (nbits (n div 2) - 1) \<le> n div 2" "n div 2 < 2 ^ nbits (n div 2)"
      by auto
    have "nbits (n div 2) \<noteq> 0"
      using False by (simp add: nbits.simps [of "n div 2"])
    then have p: "(2::nat) ^ nbits (n div 2) = 2 * 2 ^ (nbits (n div 2) - 1)"
      by (cases "nbits (n div 2)") simp_all
    have "nbits n = Suc (nbits (n div 2))"
      using 1 by (simp add: nbits.simps [of n])
    moreover define q where "q = n div 2"
    moreover define c where "c = (2::nat) ^ (nbits (n div 2) - 1)"
    ultimately have "c \<le> q" "q < 2 * c" "2 ^ (nbits n - 1) = 2 * c" "2 ^ nbits n = 4 * c"
      using IH p by simp_all
    moreover have "2 * q \<le> n" "n < 2 * q + 2" by (simp_all add: q_def)
    ultimately show ?thesis by linarith
  qed
qed

lemma nbits_unique: "2 ^ (b - 1) \<le> n \<Longrightarrow> n < 2 ^ b \<Longrightarrow> 0 < b \<Longrightarrow> nbits n = b"
proof (rule ccontr)
  assume lo: "2 ^ (b - 1) \<le> n" and hi: "n < 2 ^ b" and b: "0 < b" and ne: "nbits n \<noteq> b"
  have "(0::nat) < 2 ^ (b - 1)" by simp
  with lo have "n \<noteq> 0" by linarith
  note nb = nbits_bounds [OF this]
  have "nbits n < b \<or> b < nbits n" using ne by auto
  then show False
  proof
    assume "nbits n < b"
    then have "(2::nat) ^ nbits n \<le> 2 ^ (b - 1)"
      by (intro power_increasing) auto
    with nb lo show False by linarith
  next
    assume "b < nbits n"
    then have "(2::nat) ^ b \<le> 2 ^ (nbits n - 1)"
      by (intro power_increasing) auto
    with nb hi show False by linarith
  qed
qed

definition dbl_of_nat_sign :: "bool \<Rightarrow> nat \<Rightarrow> lua_Number" where
  "dbl_of_nat_sign s n =
     (let b = nbits n in
      if n = 0 then 0
      else if b \<le> 53 then dbl_make s (b + 1022) (n * 2 ^ (53 - b) - 2 ^ 52)
      else
        let sh = b - 53; q = n div 2 ^ sh; r = n mod 2 ^ sh;
            up = (2 ^ sh < 2 * r \<or> (2 ^ sh = 2 * r \<and> odd q))
        in dbl_make s (b + 1022) (q + (if up then 1 else 0) - 2 ^ 52))"

definition dbl_of_int :: "int \<Rightarrow> lua_Number" where
  "dbl_of_int k = dbl_of_nat_sign (k < 0) (nat \<bar>k\<bar>)"

text \<open>An integer that is the value of a double converts back to that double.\<close>

lemma dbl_of_nat_sign_int_abs:
  assumes "dbl_int_abs w = Some n" "n \<noteq> 0"
  shows "dbl_of_nat_sign (dbl_sign w) n = w"
proof -
  let ?m = "dbl_mant w" and ?e = "dbl_exp w"
  have e0: "?e \<noteq> 0"
    using assms by (auto simp: dbl_int_abs_def split: if_splits)
  then have m: "?m = 2 ^ 52 + dbl_frac w" by (simp add: dbl_mant_def)
  then have m_lo: "2 ^ 52 \<le> ?m" and m_hi: "?m < 2 ^ 53"
    using dbl_frac_less [of w] by auto
  have frac: "?m - 2 ^ 52 = dbl_frac w" using m by simp
  show ?thesis
  proof (cases "1075 \<le> ?e")
    case True
    define j where "j = ?e - 1075"
    have n: "n = ?m * 2 ^ j"
      using assms True e0 by (auto simp: dbl_int_abs_def j_def)
    have "2 ^ 52 * 2 ^ j \<le> ?m * 2 ^ j" using m_lo by (rule mult_le_mono1)
    moreover have "?m * 2 ^ j < 2 ^ 53 * 2 ^ j" using m_hi by simp
    ultimately have b: "nbits n = 53 + j"
      by (intro nbits_unique) (simp_all add: n power_add)
    have ej: "53 + j + 1022 = ?e" using True by (simp add: j_def)
    show ?thesis
    proof (cases "j = 0")
      case True
      with n b ej frac assms(2) dbl_make_fields [of w] show ?thesis
        by (simp add: dbl_of_nat_sign_def Let_def)
    next
      case False
      then have "\<not> 53 + j \<le> 53" by simp
      with b ej frac assms(2) n show ?thesis
        by (simp add: dbl_of_nat_sign_def Let_def)
    qed
  next
    case False
    define j where "j = 1075 - ?e"
    have md: "?m mod 2 ^ j = 0" and nd: "n = ?m div 2 ^ j"
      using assms False e0 by (auto simp: dbl_int_abs_def j_def split: if_splits)
    have mn: "?m = n * 2 ^ j"
      using md nd by (metis add.right_neutral div_mult_mod_eq)
    have j52: "j \<le> 52"
    proof (rule ccontr)
      assume "\<not> j \<le> 52"
      then have "(2::nat) ^ 53 \<le> 2 ^ j" by (intro power_increasing) auto
      moreover have "2 ^ j \<le> n * 2 ^ j" using assms(2) by simp
      ultimately show False using m_hi mn by linarith
    qed
    have p: "(2::nat) ^ (52 - j) * 2 ^ j = 2 ^ 52" "(2::nat) ^ (53 - j) * 2 ^ j = 2 ^ 53"
      using j52 by (simp_all add: power_add [symmetric])
    have "2 ^ (52 - j) * 2 ^ j \<le> n * 2 ^ j" using m_lo mn p by simp
    then have lo: "2 ^ (52 - j) \<le> n" by simp
    have "n * 2 ^ j < 2 ^ (53 - j) * 2 ^ j" using m_hi mn p by simp
    then have hi: "n < 2 ^ (53 - j)" by simp
    have b: "nbits n = 53 - j"
      using lo hi j52 by (intro nbits_unique) simp_all
    have "53 - j + 1022 = ?e" using j52 False by (simp add: j_def)
    moreover have "53 - (53 - j) = j" using j52 by simp
    ultimately show ?thesis
      using b frac assms(2) mn by (simp add: dbl_of_nat_sign_def Let_def)
  qed
qed

lemma dbl_of_int_dbl_int:
  assumes "dbl_int w = Some k" "k \<noteq> 0"
  shows "dbl_of_int k = w"
proof -
  from assms(1) obtain n where n: "dbl_int_abs w = Some n"
    and k: "k = (if dbl_sign w then - int n else int n)"
    by (auto simp: dbl_int_def split: if_splits)
  with assms(2) have "n \<noteq> 0" "nat \<bar>k\<bar> = n" "k < 0 \<longleftrightarrow> dbl_sign w"
    by (cases "dbl_sign w"; force)+
  with dbl_of_nat_sign_int_abs [OF n] show ?thesis
    by (simp add: dbl_of_int_def)
qed

lemma dbl_of_int_0 [simp]: "dbl_of_int 0 = 0"
  by (simp add: dbl_of_int_def dbl_of_nat_sign_def)

text \<open>The integer 0 is the value of the two zeros only; the negative one has pattern \<open>2 ^ 63\<close>.\<close>

lemma dbl_int_0: "dbl_int w = Some 0 \<Longrightarrow> w = 0 \<or> w = 2 ^ 63"
proof -
  assume a: "dbl_int w = Some 0"
  have "dbl_exp w = 0 \<and> dbl_frac w = 0"
  proof (rule ccontr)
    assume ne: "\<not> (dbl_exp w = 0 \<and> dbl_frac w = 0)"
    from a obtain n where n: "dbl_int_abs w = Some n" and n0: "n = 0"
      by (auto simp: dbl_int_def split: if_splits)
    have e0: "dbl_exp w \<noteq> 0" using n ne by (auto simp: dbl_int_abs_def split: if_splits)
    then have "0 < dbl_mant w" by (simp add: dbl_mant_def)
    with n n0 e0 show False
      by (auto simp: dbl_int_abs_def split: if_splits)
  qed
  then have "unat w = (if dbl_sign w then 2 ^ 63 else 0)"
    using dbl_decompose [of w] by simp
  then have "word_of_nat (unat w) = (word_of_nat (if dbl_sign w then 2 ^ 63 else 0) :: lua_Number)"
    by simp
  then show ?thesis by (simp split: if_splits)
qed

section \<open>Small integers are exact\<close>

lemma dbl_make_sel:
  assumes "e < 2 ^ 11" "f < 2 ^ 52"
  shows "dbl_sign (dbl_make s e f) = s \<and> dbl_exp (dbl_make s e f) = e \<and> dbl_frac (dbl_make s e f) = f"
proof -
  let ?n = "(if s then 2 ^ 63 else 0) + e * 2 ^ 52 + f"
  have ef: "e * 2 ^ 52 + f < 2 ^ 63"
  proof -
    have "e * 2 ^ 52 \<le> (2 ^ 11 - 1) * 2 ^ 52" using assms(1) by (intro mult_le_mono1) simp
    with assms(2) show ?thesis by simp
  qed
  then have "?n < 2 ^ 64" by simp
  then have u: "unat (dbl_make s e f) = ?n"
    unfolding dbl_make_def by (subst unat_of_nat, intro mod_less) simp
  have n: "?n = f + ((if s then 2 ^ 11 else 0) + e) * 2 ^ 52" by simp
  have "?n div 2 ^ 52 = (if s then 2 ^ 11 else 0) + e"
    using assms(2) unfolding n by (subst div_mult_self1) simp_all
  moreover have "?n mod 2 ^ 52 = f"
    using assms(2) unfolding n by (subst mod_mult_self1) simp
  ultimately show ?thesis
    using ef assms(1) unfolding dbl_sign_def dbl_exp_def dbl_frac_def u by simp
qed

lemma dbl_int_of_nat_sign:
  assumes "0 < n" "n < 2 ^ 53"
  shows "dbl_int (dbl_of_nat_sign s n) = Some (if s then - int n else int n)"
proof -
  define b where "b = nbits n"
  note nb = nbits_bounds [of n, folded b_def]
  have b0: "0 < b" using assms(1) unfolding b_def by (subst nbits.simps) simp
  have b53: "b \<le> 53"
  proof (rule ccontr)
    assume "\<not> b \<le> 53"
    then have "(2::nat) ^ 53 \<le> 2 ^ (b - 1)" by (intro power_increasing) auto
    with nb assms show False by simp
  qed
  define m where "m = n * 2 ^ (53 - b)"
  have p: "(2::nat) ^ (b - 1) * 2 ^ (53 - b) = 2 ^ 52" "(2::nat) ^ b * 2 ^ (53 - b) = 2 ^ 53"
    using b0 b53 by (simp_all add: power_add [symmetric])
  have lo: "2 ^ 52 \<le> m"
    using nb assms(1) unfolding m_def p(1) [symmetric] by (intro mult_le_mono1) simp
  have hi: "m < 2 ^ 53"
    using nb assms(1) unfolding m_def p(2) [symmetric] by (intro mult_strict_right_mono) simp_all
  let ?w = "dbl_make s (b + 1022) (m - 2 ^ 52)"
  define w where "w = ?w"
  have w: "dbl_of_nat_sign s n = w"
    unfolding w_def
    using assms(1) b53 by (simp add: dbl_of_nat_sign_def b_def m_def Let_def)
  have sel: "dbl_sign w = s" "dbl_exp w = b + 1022" "dbl_frac w = m - 2 ^ 52"
    unfolding w_def using dbl_make_sel [of "b + 1022" "m - 2 ^ 52" s] b53 hi by auto
  have mant: "dbl_mant w = m" using lo by (simp add: dbl_mant_def sel)
  have e: "1075 - (b + 1022) = 53 - b" by simp
  have "dbl_int_abs w = Some n"
  proof (cases "b = 53")
    case True
    then show ?thesis by (simp add: dbl_int_abs_def sel mant m_def)
  next
    case False
    with b53 show ?thesis by (simp add: dbl_int_abs_def sel mant e) (simp add: m_def)
  qed
  then show ?thesis unfolding w using b53 by (simp add: dbl_int_def sel)
qed

lemma dbl_int_dbl_of_int:
  assumes "\<bar>k\<bar> < 2 ^ 53"
  shows "dbl_int (dbl_of_int k) = Some k"
proof (cases "k = 0")
  case True
  then show ?thesis by (simp add: dbl_int_def dbl_int_abs_def dbl_exp_def dbl_frac_def)
next
  case False
  then have "0 < nat \<bar>k\<bar>" "nat \<bar>k\<bar> < 2 ^ 53" using assms by (simp_all add: nat_less_iff)
  from dbl_int_of_nat_sign [OF this, of "k < 0"] show ?thesis by (simp add: dbl_of_int_def)
qed

lemma dbl_of_int_inj:
  "\<bar>j\<bar> < 2 ^ 53 \<Longrightarrow> \<bar>k\<bar> < 2 ^ 53 \<Longrightarrow> dbl_of_int j = dbl_of_int k \<longleftrightarrow> j = k"
  by (metis dbl_int_dbl_of_int option.inject)

lemma isnan_dbl_of_int: "\<bar>k\<bar> < 2 ^ 53 \<Longrightarrow> \<not> isnan (dbl_of_int k)"
  by (metis dbl_int_dbl_of_int dbl_int_def isnan_def option.distinct(1))

lemma dbl_of_int_not_neg_zero:
  assumes "\<bar>k\<bar> < 2 ^ 53"
  shows "dbl_of_int k \<noteq> 2 ^ 63"
proof
  assume a: "dbl_of_int k = 2 ^ 63"
  have "dbl_int (2 ^ 63 :: lua_Number) = Some 0"
    by (simp add: dbl_int_def dbl_int_abs_def dbl_exp_def dbl_frac_def)
  with dbl_int_dbl_of_int [OF assms] a have "k = 0" by simp
  with a show False by simp
qed

section \<open>Widening a float\<close>

text \<open>
  The value of a C \<open>float\<close> assigned to a \<open>double\<close>: exact, a subnormal float becoming a normal
  double, an infinity staying one and a NaN keeping its payload with the quiet bit set.
\<close>

definition dbl_of_float :: "32 word \<Rightarrow> lua_Number" where
  "dbl_of_float x =
     (let n = unat x; s = (2 ^ 31 \<le> n); e = n div 2 ^ 23 mod 2 ^ 8; f = n mod 2 ^ 23 in
      if e = 255 then
        (if f = 0 then dbl_make s 2047 0
         else dbl_make s 2047 (if f < 2 ^ 22 then f * 2 ^ 29 + 2 ^ 51 else f * 2 ^ 29))
      else if e = 0 then
        (if f = 0 then dbl_make s 0 0
         else dbl_make s (nbits f + 873) (f * 2 ^ (53 - nbits f) - 2 ^ 52))
      else dbl_make s (e + 896) (f * 2 ^ 29))"

lemma dbl_of_float_examples:
  "dbl_of_float 0x3F800000 = 0x3FF0000000000000"  \<comment> \<open>1.0f\<close>
  "dbl_of_float 0xC0490FDB = 0xC00921FB60000000"  \<comment> \<open>-pi\<close>
  "dbl_of_float 0x00000001 = 0x36A0000000000000"  \<comment> \<open>the least subnormal\<close>
  "dbl_of_float 0x7F800000 = 0x7FF0000000000000"
  by (simp_all add: dbl_of_float_def dbl_make_def nbits.simps Let_def)

lemma dbl_of_int_examples:
  "dbl_of_int 1 = 0x3FF0000000000000"
  "dbl_of_int (- 2) = 0xC000000000000000"
  "dbl_of_int 18446744073709551615 = 0x43F0000000000000"
  "dbl_of_int 9007199254740993 = 0x4340000000000000"
  by (simp_all add: dbl_of_int_def dbl_of_nat_sign_def dbl_make_def nbits.simps Let_def)

end
