(* ===== verification/Lev_Slab.thy ===== *)
theory Lev_Slab
  imports Lev_Prelude
begin

text \<open>
  The slab allocator of \<open>src/lev_slab.c\<close>: reference-counted memory blocks of five sizes, each
  size with a free list (a pool) of bounded length. The heap of the process is the part of it
  the allocator manages: a map from addresses to blocks. \<open>malloc\<close> takes the next address that was
  never used and does not fail; the bytes of fresh memory are the parameter \<open>uninit\<close> of the heap.
  The reference counter is a C \<open>int\<close>: \<open>mb_refcount\<close> is its value, and the operations are the code's as
  long as it stays below 2^31. \<open>slab_acquire\<close> at the end of this theory takes a reference with the
  overflow written out; everywhere else the counter is bounded by the number of userdata objects that
  hold a reference, each of which takes more than two bytes of memory.
\<close>

type_synonym addr = nat

datatype slab_class = Mem_1k | Mem_8k | Mem_16k | Mem_64k | Mem_1024k

record MemBlock =
  mb_allocator :: slab_class
  mb_refcount :: int
  mb_size :: nat
  mb_nbytes :: nat
  mb_bytes :: mem

text \<open>
  The pool array is the list of its first \<open>pool_count\<close> entries, the last one (the one
  \<open>getBlock\<close> takes) at the head; \<open>pool_count\<close> is the length of the list.
\<close>

record lev_slab_allocator =
  pool :: "addr list"
  pool_min :: nat

record slab =
  blocks :: "addr \<Rightarrow> MemBlock option"
  brk :: addr
  uninit :: "addr \<Rightarrow> mem"
  allocs :: "slab_class \<Rightarrow> lev_slab_allocator"

definition SLAB_MAXFREELIST :: nat where
  "SLAB_MAXFREELIST = 1024 * 16 * 2"

text \<open>\<open>malloc(sizeof(MemBlock) + blocksize)\<close>. The header is written by \<open>getBlock\<close> before it is read.\<close>

definition malloc_block :: "slab_class \<Rightarrow> nat \<Rightarrow> 'a slab_scheme \<Rightarrow> addr \<times> 'a slab_scheme" where
  "malloc_block c blocksize s =
     (brk s,
      s\<lparr>blocks := (blocks s)(brk s \<mapsto> \<lparr>mb_allocator = c, mb_refcount = 0, mb_size = blocksize,
                                       mb_nbytes = 0, mb_bytes = uninit s (brk s)\<rparr>),
        brk := Suc (brk s)\<rparr>)"

text \<open>Following a \<open>MemBlock *\<close>: the null pointer and a freed block are undefined behaviour.\<close>

definition deref :: "'a slab_scheme \<Rightarrow> addr option \<Rightarrow> MemBlock res" where
  "deref s p = (case p of None \<Rightarrow> Inl (Undefined ''null MemBlock'')
     | Some a \<Rightarrow> (case blocks s a of None \<Rightarrow> Inl (Undefined ''freed MemBlock'') | Some b \<Rightarrow> Inr b))"

definition put_block :: "addr \<Rightarrow> MemBlock \<Rightarrow> 'a slab_scheme \<Rightarrow> 'a slab_scheme" where
  "put_block a b s = s\<lparr>blocks := (blocks s)(a \<mapsto> b)\<rparr>"

text \<open>
  Copying \<open>n\<close> bytes out of a block, and copying bytes into it. Touching a byte past the end of the
  block is undefined behaviour.
\<close>

definition block_read :: "'a slab_scheme \<Rightarrow> addr \<Rightarrow> nat \<Rightarrow> nat \<Rightarrow> byte list res" where
  "block_read s a off n =
     bind_res (deref s (Some a)) (\<lambda>b.
       if off + n \<le> mb_size b then Inr (mem_read (mb_bytes b) off n)
       else Inl (Undefined ''read past the MemBlock''))"

definition block_write :: "addr \<Rightarrow> nat \<Rightarrow> byte list \<Rightarrow> 'a slab_scheme \<Rightarrow> 'a slab_scheme res" where
  "block_write a off src s =
     bind_res (deref s (Some a)) (\<lambda>b.
       if off + length src \<le> mb_size b
       then Inr (put_block a (b\<lparr>mb_bytes := mem_write (mb_bytes b) off src\<rparr>) s)
       else Inl (Undefined ''write past the MemBlock''))"

section \<open>Operations\<close>

text \<open>The loop of \<open>_lev_slab_fill\<close>: it stops at \<open>SLAB_MAXFREELIST\<close> entries or at \<open>pool_min\<close>.\<close>

function slab_fill_loop :: "slab_class \<Rightarrow> nat \<Rightarrow> 'a slab_scheme \<Rightarrow> nat \<Rightarrow> 'a slab_scheme" where
  "slab_fill_loop c blocksize s count =
     (if SLAB_MAXFREELIST \<le> count then s
      else if count = pool_min (allocs s c) then s
      else
        let (mb, s') = malloc_block c blocksize s;
            al = allocs s' c
        in slab_fill_loop c blocksize
             (s'\<lparr>allocs := (allocs s')(c := al\<lparr>pool := mb # pool al\<rparr>)\<rparr>) (Suc count))"
  by pat_completeness auto
termination
  by (relation "measure (\<lambda>(c, bs, s, count). SLAB_MAXFREELIST - count)") auto

declare slab_fill_loop.simps [simp del]

definition lev_slab_fill1 :: "slab_class \<Rightarrow> nat \<Rightarrow> nat \<Rightarrow> 'a slab_scheme \<Rightarrow> 'a slab_scheme" where
  "lev_slab_fill1 c blocksize min_number s =
     slab_fill_loop c blocksize
       (s\<lparr>allocs := (allocs s)(c := (allocs s c)\<lparr>pool := [], pool_min := min min_number SLAB_MAXFREELIST\<rparr>)\<rparr>) 0"

definition lev_slab_fill :: "'a slab_scheme \<Rightarrow> 'a slab_scheme" where
  "lev_slab_fill s =
     (let s = lev_slab_fill1 Mem_1k 1024 1024 s;
          s = lev_slab_fill1 Mem_8k (8 * 1024) 512 s;
          s = lev_slab_fill1 Mem_16k (16 * 1024) 8 s;
          s = lev_slab_fill1 Mem_64k (64 * 1024) 8 s
      in lev_slab_fill1 Mem_1024k (1024 * 1024) 0 s)"

text \<open>The chain of size tests at the start of \<open>lev_slab_getBlock\<close>.\<close>

definition slab_class_for :: "nat \<Rightarrow> (slab_class \<times> nat) option" where
  "slab_class_for sz =
     (if sz \<le> 1024 then Some (Mem_1k, 1024)
      else if sz \<le> 8 * 1024 then Some (Mem_8k, 8 * 1024)
      else if sz \<le> 16 * 1024 then Some (Mem_16k, 16 * 1024)
      else if sz \<le> 64 * 1024 then Some (Mem_64k, 64 * 1024)
      else if sz \<le> 1024 * 1024 then Some (Mem_1024k, 1024 * 1024)
      else None)"

definition lev_slab_getBlock :: "nat \<Rightarrow> 'a slab_scheme \<Rightarrow> addr option \<times> 'a slab_scheme" where
  "lev_slab_getBlock sz s =
     (case slab_class_for sz of None \<Rightarrow> (None, s)
      | Some (c, blocksize) \<Rightarrow>
          let (block, s') =
                (case pool (allocs s c) of
                   a # rest \<Rightarrow> (a, s\<lparr>allocs := (allocs s)(c := (allocs s c)\<lparr>pool := rest\<rparr>)\<rparr>)
                 | [] \<Rightarrow> malloc_block c blocksize s);
              old = (case blocks s' block of Some b \<Rightarrow> mb_bytes b | None \<Rightarrow> uninit s' block)
          in (Some block,
              put_block block \<lparr>mb_allocator = c, mb_refcount = 0, mb_size = blocksize,
                               mb_nbytes = 0, mb_bytes = old\<rparr> s'))"

definition lev_slab_incRef :: "addr option \<Rightarrow> 'a slab_scheme \<Rightarrow> (int \<times> 'a slab_scheme) res" where
  "lev_slab_incRef p s =
     bind_res (deref s p) (\<lambda>b.
       let b' = b\<lparr>mb_refcount := mb_refcount b + 1\<rparr>
       in Inr (mb_refcount b', put_block (the p) b' s))"

text \<open>The argument \<open>count\<close> is not used: the count goes down by one whatever the caller passes.\<close>

definition lev_slab_decRefCount :: "addr option \<Rightarrow> int \<Rightarrow> 'a slab_scheme \<Rightarrow> (int \<times> 'a slab_scheme) res" where
  "lev_slab_decRefCount p count s =
     (case p of None \<Rightarrow> Inr (0, s)
      | Some a \<Rightarrow>
          bind_res (deref s p) (\<lambda>b.
            let b' = b\<lparr>mb_refcount := mb_refcount b - 1\<rparr>;
                s' = put_block a b' s;
                c = mb_allocator b'; al = allocs s' c
            in if mb_refcount b' = 0 then
                 (if length (pool al) < pool_min al
                  then Inr (0, s'\<lparr>allocs := (allocs s')(c := al\<lparr>pool := a # pool al\<rparr>)\<rparr>)
                  else Inr (0, s'\<lparr>blocks := (blocks s')(a := None)\<rparr>))
               else Inr (mb_refcount b', s')))"

abbreviation lev_slab_decRef :: "addr option \<Rightarrow> 'a slab_scheme \<Rightarrow> (int \<times> 'a slab_scheme) res" where
  "lev_slab_decRef p \<equiv> lev_slab_decRefCount p 1"

section \<open>The invariant of the allocator\<close>

fun class_size :: "slab_class \<Rightarrow> nat" where
  "class_size Mem_1k = 1024"
| "class_size Mem_8k = 8 * 1024"
| "class_size Mem_16k = 16 * 1024"
| "class_size Mem_64k = 64 * 1024"
| "class_size Mem_1024k = 1024 * 1024"

definition pooled :: "'a slab_scheme \<Rightarrow> addr \<Rightarrow> bool" where
  "pooled s a \<longleftrightarrow> (\<exists>c. a \<in> set (pool (allocs s c)))"

text \<open>The number of references to a block: 0 for a block that is in a pool or freed.\<close>

definition refs :: "'a slab_scheme \<Rightarrow> addr \<Rightarrow> int" where
  "refs s a = (case blocks s a of None \<Rightarrow> 0 | Some b \<Rightarrow> mb_refcount b)"

definition slab_ok :: "'a slab_scheme \<Rightarrow> bool" where
  "slab_ok s \<longleftrightarrow>
     (\<forall>c. distinct (pool (allocs s c)) \<and> length (pool (allocs s c)) \<le> pool_min (allocs s c) \<and>
          pool_min (allocs s c) \<le> SLAB_MAXFREELIST) \<and>
     (\<forall>c a. a \<in> set (pool (allocs s c)) \<longrightarrow>
          (\<exists>b. blocks s a = Some b \<and> mb_allocator b = c \<and> mb_refcount b = 0)) \<and>
     (\<forall>a b. blocks s a = Some b \<longrightarrow>
          a < brk s \<and> mb_size b = class_size (mb_allocator b) \<and> 0 \<le> mb_refcount b)"

lemma slab_okD:
  assumes "slab_ok s"
  shows slab_ok_distinct: "distinct (pool (allocs s c))"
    and slab_ok_count: "length (pool (allocs s c)) \<le> pool_min (allocs s c)"
    and slab_ok_min: "pool_min (allocs s c) \<le> SLAB_MAXFREELIST"
    and slab_ok_pooled: "a \<in> set (pool (allocs s c)) \<Longrightarrow>
          \<exists>b. blocks s a = Some b \<and> mb_allocator b = c \<and> mb_refcount b = 0"
    and slab_ok_brk: "blocks s a = Some b \<Longrightarrow> a < brk s"
    and slab_ok_size: "blocks s a = Some b \<Longrightarrow> mb_size b = class_size (mb_allocator b)"
    and slab_ok_refcount: "blocks s a = Some b \<Longrightarrow> 0 \<le> mb_refcount b"
  using assms by (auto simp: slab_ok_def)

lemma slab_okI:
  assumes "\<And>c. distinct (pool (allocs s c)) \<and> length (pool (allocs s c)) \<le> pool_min (allocs s c) \<and>
      pool_min (allocs s c) \<le> SLAB_MAXFREELIST"
    and "\<And>c a. a \<in> set (pool (allocs s c)) \<Longrightarrow>
      \<exists>b. blocks s a = Some b \<and> mb_allocator b = c \<and> mb_refcount b = 0"
    and "\<And>a b. blocks s a = Some b \<Longrightarrow>
      a < brk s \<and> mb_size b = class_size (mb_allocator b) \<and> 0 \<le> mb_refcount b"
  shows "slab_ok s"
  using assms by (auto simp: slab_ok_def)

lemma slab_class_for_size: "slab_class_for n = Some (c, k) \<Longrightarrow> k = class_size c \<and> n \<le> k"
  by (auto simp: slab_class_for_def split: if_splits)

lemma slab_class_for_None: "slab_class_for n = None \<longleftrightarrow> 1024 * 1024 < n"
  by (simp add: slab_class_for_def)

lemma pooled_refs: "slab_ok s \<Longrightarrow> pooled s a \<Longrightarrow> refs s a = 0"
  using slab_ok_pooled by (fastforce simp: pooled_def refs_def)

lemma referenced_not_pooled: "slab_ok s \<Longrightarrow> 0 < refs s a \<Longrightarrow> \<not> pooled s a"
  using pooled_refs by fastforce

lemma refs_pos_blocks: "0 < refs s a \<Longrightarrow> \<exists>b. blocks s a = Some b \<and> mb_refcount b = refs s a"
  by (auto simp: refs_def split: option.splits)

section \<open>What the operations do\<close>

text \<open>A block of the free list, or a fresh one: the two cases of \<open>lev_slab_getBlock\<close>.\<close>

lemma getBlock_None_iff: "fst (lev_slab_getBlock n s) = None \<longleftrightarrow> 1024 * 1024 < n"
  using slab_class_for_None [of n]
  by (cases "slab_class_for n") (auto simp: lev_slab_getBlock_def Let_def split: prod.splits)

lemma getBlock_None: "1024 * 1024 < n \<Longrightarrow> lev_slab_getBlock n s = (None, s)"
  by (simp add: lev_slab_getBlock_def slab_class_for_def)

text \<open>The state a successful \<open>getBlock\<close> leaves, in both cases.\<close>

lemma getBlock_cases:
  assumes "n \<le> 1024 * 1024"
  obtains (reuse) c a rest old where
      "pool (allocs s c) = a # rest" "n \<le> class_size c"
      "lev_slab_getBlock n s = (Some a, put_block a
         \<lparr>mb_allocator = c, mb_refcount = 0, mb_size = class_size c, mb_nbytes = 0, mb_bytes = old\<rparr>
         (s\<lparr>allocs := (allocs s)(c := (allocs s c)\<lparr>pool := rest\<rparr>)\<rparr>))"
    | (fresh) c where
      "pool (allocs s c) = []" "n \<le> class_size c"
      "lev_slab_getBlock n s = (Some (brk s), put_block (brk s)
         \<lparr>mb_allocator = c, mb_refcount = 0, mb_size = class_size c, mb_nbytes = 0,
          mb_bytes = uninit s (brk s)\<rparr> (s\<lparr>brk := Suc (brk s)\<rparr>))"
proof -
  obtain c k where ck: "slab_class_for n = Some (c, k)"
    using assms slab_class_for_None [of n] by (cases "slab_class_for n") auto
  note size = slab_class_for_size [OF this]
  show thesis
  proof (cases "pool (allocs s c)")
    case Nil
    with ck size show thesis
      by (intro fresh [of c]) (simp_all add: lev_slab_getBlock_def malloc_block_def put_block_def Let_def)
  next
    case (Cons a rest)
    with ck size show thesis
      by (intro reuse [of c a rest "case blocks s a of Some b \<Rightarrow> mb_bytes b | None \<Rightarrow> uninit s a"])
         (simp_all add: lev_slab_getBlock_def Let_def split: option.splits)
  qed
qed

lemma getBlock_Some:
  assumes "slab_ok s" "lev_slab_getBlock n s = (Some a, s')"
  shows getBlock_ok: "slab_ok s'"
    and getBlock_unreferenced: "refs s a = 0"
    and getBlock_unpooled: "\<not> pooled s' a"
    and getBlock_frame: "b \<noteq> a \<Longrightarrow> blocks s' b = blocks s b"
    and getBlock_block: "\<exists>c old. n \<le> class_size c \<and> blocks s' a = Some \<lparr>mb_allocator = c, mb_refcount = 0,
          mb_size = class_size c, mb_nbytes = 0, mb_bytes = old\<rparr>"
    and getBlock_new_or_pooled: "blocks s a = None \<or> pooled s a"
    and getBlock_pooled: "pooled s' b \<Longrightarrow> pooled s b"
proof -
  have n: "n \<le> 1024 * 1024"
    using assms(2) getBlock_None [of n s] by (cases "1024 * 1024 < n") auto
  have "slab_ok s' \<and> refs s a = 0 \<and> \<not> pooled s' a \<and> (\<forall>b. b \<noteq> a \<longrightarrow> blocks s' b = blocks s b) \<and>
      (\<exists>c old. n \<le> class_size c \<and> blocks s' a = Some \<lparr>mb_allocator = c, mb_refcount = 0,
          mb_size = class_size c, mb_nbytes = 0, mb_bytes = old\<rparr>) \<and>
      (blocks s a = None \<or> pooled s a) \<and> (\<forall>b. pooled s' b \<longrightarrow> pooled s b)"
    using n
  proof (cases rule: getBlock_cases [where s = s])
    case (reuse c a' rest old)
    have a': "a' = a" and s': "s' = put_block a
         \<lparr>mb_allocator = c, mb_refcount = 0, mb_size = class_size c, mb_nbytes = 0, mb_bytes = old\<rparr>
         (s\<lparr>allocs := (allocs s)(c := (allocs s c)\<lparr>pool := rest\<rparr>)\<rparr>)"
      using reuse assms(2) by auto
    have in_pool: "a \<in> set (pool (allocs s c))" using reuse a' by simp
    have "a \<notin> set rest"
      using slab_ok_distinct [OF assms(1), of c] reuse a' by simp
    moreover have other: "a \<notin> set (pool (allocs s d))" if "d \<noteq> c" for d
      using that slab_ok_pooled [OF assms(1), of a d] slab_ok_pooled [OF assms(1) in_pool] by auto
    ultimately have "\<not> pooled s' a" by (auto simp: pooled_def s' put_block_def)
    moreover have "slab_ok s'"
    proof (rule slab_okI)
      fix d
      show "distinct (pool (allocs s' d)) \<and> length (pool (allocs s' d)) \<le> pool_min (allocs s' d) \<and>
          pool_min (allocs s' d) \<le> SLAB_MAXFREELIST"
        using slab_okD(1-3) [OF assms(1), of d] reuse(1) a'
        by (auto simp: s' put_block_def)
    next
      fix d x assume x: "x \<in> set (pool (allocs s' d))"
      then have "x \<noteq> a" "x \<in> set (pool (allocs s d))"
        using other reuse(1) a' \<open>a \<notin> set rest\<close>
        by (auto simp: s' put_block_def split: if_splits)
      then show "\<exists>b. blocks s' x = Some b \<and> mb_allocator b = d \<and> mb_refcount b = 0"
        using slab_ok_pooled [OF assms(1)] by (auto simp: s' put_block_def)
    next
      fix x b assume "blocks s' x = Some b"
      then show "x < brk s' \<and> mb_size b = class_size (mb_allocator b) \<and> 0 \<le> mb_refcount b"
        using slab_okD(5-7) [OF assms(1), of x] slab_ok_pooled [OF assms(1) in_pool]
          slab_ok_brk [OF assms(1), of a]
        by (auto simp: s' put_block_def split: if_splits)
    qed
    moreover have "refs s a = 0"
      using pooled_refs [OF assms(1)] in_pool by (auto simp: pooled_def)
    moreover have "pooled s a" using in_pool by (auto simp: pooled_def)
    moreover have "set (pool (allocs s' d)) \<subseteq> set (pool (allocs s d))" for d
      using reuse(1) by (auto simp: s' put_block_def)
    then have "\<forall>b. pooled s' b \<longrightarrow> pooled s b" by (auto simp: pooled_def)
    ultimately show ?thesis
      using reuse(2) by (auto simp: s' put_block_def)
  next
    case (fresh c)
    have a: "a = brk s" and s': "s' = put_block (brk s)
         \<lparr>mb_allocator = c, mb_refcount = 0, mb_size = class_size c, mb_nbytes = 0,
          mb_bytes = uninit s (brk s)\<rparr> (s\<lparr>brk := Suc (brk s)\<rparr>)"
      using fresh assms(2) by auto
    have none: "blocks s (brk s) = None"
      using slab_ok_brk [OF assms(1), of "brk s"] by (cases "blocks s (brk s)") auto
    then have np: "\<not> pooled s (brk s)"
      using slab_ok_pooled [OF assms(1)] by (fastforce simp: pooled_def)
    have "slab_ok s'"
      using assms(1) none np by (fastforce simp: s' slab_ok_def put_block_def pooled_def)
    with none np fresh show ?thesis
      by (auto simp: a s' refs_def put_block_def pooled_def)
  qed
  then show "slab_ok s'" "refs s a = 0" "\<not> pooled s' a" "b \<noteq> a \<Longrightarrow> blocks s' b = blocks s b"
    "\<exists>c old. n \<le> class_size c \<and> blocks s' a = Some \<lparr>mb_allocator = c, mb_refcount = 0,
          mb_size = class_size c, mb_nbytes = 0, mb_bytes = old\<rparr>"
    "blocks s a = None \<or> pooled s a" "pooled s' b \<Longrightarrow> pooled s b"
    by blast+
qed

text \<open>The class is the one the size asks for.\<close>

lemma getBlock_class:
  assumes "lev_slab_getBlock n s = (Some a, s')"
  shows "\<exists>c old. slab_class_for n = Some (c, class_size c) \<and> blocks s' a = Some \<lparr>mb_allocator = c,
    mb_refcount = 0, mb_size = class_size c, mb_nbytes = 0, mb_bytes = old\<rparr>"
proof (cases "slab_class_for n")
  case None
  with assms show ?thesis by (simp add: lev_slab_getBlock_def)
next
  case (Some ck)
  then obtain c where c: "slab_class_for n = Some (c, class_size c)"
    using slab_class_for_size by (cases ck) fastforce
  with assms show ?thesis
    by (auto simp: lev_slab_getBlock_def put_block_def Let_def split: prod.splits)
qed

text \<open>
  The three state changes the operations are made of keep the invariant: writing a block that is
  in no pool, shelving a block, freeing a block.
\<close>

lemma slab_ok_put_block:
  assumes "slab_ok s" "blocks s a = Some b" "\<not> pooled s a"
    and "mb_size b' = class_size (mb_allocator b')" "0 \<le> mb_refcount b'"
  shows "slab_ok (put_block a b' s)"
proof (rule slab_okI)
  fix c show "distinct (pool (allocs (put_block a b' s) c)) \<and>
      length (pool (allocs (put_block a b' s) c)) \<le> pool_min (allocs (put_block a b' s) c) \<and>
      pool_min (allocs (put_block a b' s) c) \<le> SLAB_MAXFREELIST"
    using slab_okD(1-3) [OF assms(1)] by (simp add: put_block_def)
next
  fix c x assume x: "x \<in> set (pool (allocs (put_block a b' s) c))"
  then have "x \<in> set (pool (allocs s c))" by (simp add: put_block_def)
  moreover from this assms(3) have "x \<noteq> a" by (auto simp: pooled_def)
  ultimately show "\<exists>b. blocks (put_block a b' s) x = Some b \<and> mb_allocator b = c \<and> mb_refcount b = 0"
    using slab_ok_pooled [OF assms(1)] by (simp add: put_block_def)
next
  fix x y assume y: "blocks (put_block a b' s) x = Some y"
  show "x < brk (put_block a b' s) \<and> mb_size y = class_size (mb_allocator y) \<and> 0 \<le> mb_refcount y"
  proof (cases "x = a")
    case True
    with y assms(4,5) slab_ok_brk [OF assms(1,2)] show ?thesis by (simp add: put_block_def)
  next
    case False
    with y slab_okD(5-7) [OF assms(1), of x y] show ?thesis by (simp add: put_block_def)
  qed
qed

lemma slab_ok_shelve:
  assumes "slab_ok s" "blocks s a = Some b" "\<not> pooled s a" "mb_refcount b = 0"
    and "c = mb_allocator b" "length (pool (allocs s c)) < pool_min (allocs s c)"
  shows "slab_ok (s\<lparr>allocs := (allocs s)(c := (allocs s c)\<lparr>pool := a # pool (allocs s c)\<rparr>)\<rparr>)"
    (is "slab_ok ?s'")
proof (rule slab_okI)
  fix d show "distinct (pool (allocs ?s' d)) \<and> length (pool (allocs ?s' d)) \<le> pool_min (allocs ?s' d) \<and>
      pool_min (allocs ?s' d) \<le> SLAB_MAXFREELIST"
    using slab_okD(1-3) [OF assms(1), of d] assms(3,6) by (auto simp: pooled_def)
next
  fix d x assume "x \<in> set (pool (allocs ?s' d))"
  then consider "x = a" "d = c" | "x \<in> set (pool (allocs s d))" by (auto split: if_splits)
  then show "\<exists>b. blocks ?s' x = Some b \<and> mb_allocator b = d \<and> mb_refcount b = 0"
    using assms(2,4,5) slab_ok_pooled [OF assms(1), of x d] by cases auto
next
  fix x y assume "blocks ?s' x = Some y"
  then show "x < brk ?s' \<and> mb_size y = class_size (mb_allocator y) \<and> 0 \<le> mb_refcount y"
    using slab_okD(5-7) [OF assms(1), of x y] by simp
qed

lemma slab_ok_free:
  assumes "slab_ok s" "\<not> pooled s a"
  shows "slab_ok (s\<lparr>blocks := (blocks s)(a := None)\<rparr>)" (is "slab_ok ?s'")
proof (rule slab_okI)
  fix d show "distinct (pool (allocs ?s' d)) \<and> length (pool (allocs ?s' d)) \<le> pool_min (allocs ?s' d) \<and>
      pool_min (allocs ?s' d) \<le> SLAB_MAXFREELIST"
    using slab_okD(1-3) [OF assms(1), of d] by simp
next
  fix d x assume "x \<in> set (pool (allocs ?s' d))"
  then have x: "x \<in> set (pool (allocs s d))" by simp
  with assms(2) have "x \<noteq> a" by (auto simp: pooled_def)
  with slab_ok_pooled [OF assms(1) x]
  show "\<exists>b. blocks ?s' x = Some b \<and> mb_allocator b = d \<and> mb_refcount b = 0" by simp
next
  fix x y assume "blocks ?s' x = Some y"
  then show "x < brk ?s' \<and> mb_size y = class_size (mb_allocator y) \<and> 0 \<le> mb_refcount y"
    using slab_okD(5-7) [OF assms(1), of x y] by (simp split: if_splits)
qed

lemma pooled_put_block [simp]: "pooled (put_block a b s) = pooled s"
  by (simp add: pooled_def put_block_def fun_eq_iff)

lemma incRef_block:
  assumes "slab_ok s" "blocks s a = Some b" "\<not> pooled s a"
  obtains s' where "lev_slab_incRef (Some a) s = Inr (mb_refcount b + 1, s')" "slab_ok s'"
    "s' = put_block a (b\<lparr>mb_refcount := mb_refcount b + 1\<rparr>) s"
proof -
  have "slab_ok (put_block a (b\<lparr>mb_refcount := mb_refcount b + 1\<rparr>) s)"
    using slab_okD(6,7) [OF assms(1,2)] by (intro slab_ok_put_block [OF assms]) simp_all
  then show thesis
    using assms(2) by (intro that) (simp_all add: lev_slab_incRef_def deref_def Let_def)
qed

text \<open>
  The three outcomes of dropping a reference: others remain, the block goes back to its pool,
  or the pool is full and the block is freed.
\<close>

lemma decRef_cases:
  assumes "slab_ok s" "blocks s a = Some b" "0 < mb_refcount b"
  obtains (kept) s' where "1 < mb_refcount b"
      "lev_slab_decRefCount (Some a) k s = Inr (mb_refcount b - 1, s')"
      "s' = put_block a (b\<lparr>mb_refcount := mb_refcount b - 1\<rparr>) s"
  | (shelved) s' c where "mb_refcount b = 1" "c = mb_allocator b"
      "length (pool (allocs s c)) < pool_min (allocs s c)"
      "lev_slab_decRefCount (Some a) k s = Inr (0, s')"
      "s' = (put_block a (b\<lparr>mb_refcount := 0\<rparr>) s)
              \<lparr>allocs := (allocs s)(c := (allocs s c)\<lparr>pool := a # pool (allocs s c)\<rparr>)\<rparr>"
  | (freed) s' where "mb_refcount b = 1"
      "pool_min (allocs s (mb_allocator b)) \<le> length (pool (allocs s (mb_allocator b)))"
      "lev_slab_decRefCount (Some a) k s = Inr (0, s')"
      "s' = (put_block a (b\<lparr>mb_refcount := 0\<rparr>) s)\<lparr>blocks := (blocks s)(a := None)\<rparr>"
proof -
  consider "1 < mb_refcount b" | "mb_refcount b = 1"
    using assms(3) by linarith
  then show thesis
  proof cases
    case 1
    with assms(2) show thesis
      by (intro kept) (auto simp: lev_slab_decRefCount_def deref_def Let_def put_block_def)
  next
    case 2
    with assms(2) show thesis
      by (cases "length (pool (allocs s (mb_allocator b))) < pool_min (allocs s (mb_allocator b))")
         (auto intro: shelved freed simp: lev_slab_decRefCount_def deref_def Let_def put_block_def)
  qed
qed

lemma decRef_ok:
  assumes "slab_ok s" "0 < refs s a"
  obtains r s' where "lev_slab_decRefCount (Some a) k s = Inr (r, s')" "slab_ok s'"
    "refs s' a = refs s a - 1" "\<And>x. x \<noteq> a \<Longrightarrow> blocks s' x = blocks s x"
    "\<And>x. x \<noteq> a \<Longrightarrow> pooled s' x = pooled s x" "1 < refs s a \<Longrightarrow> r = refs s a - 1"
    "refs s a = 1 \<Longrightarrow> r = 0"
    "1 < refs s a \<Longrightarrow> \<exists>b. blocks s a = Some b \<and>
       blocks s' a = Some (b\<lparr>mb_refcount := mb_refcount b - 1\<rparr>) \<and> \<not> pooled s' a"
proof -
  obtain b where b: "blocks s a = Some b" "refs s a = mb_refcount b"
    using refs_pos_blocks [OF assms(2)] by auto
  have np: "a \<notin> set (pool (allocs s c))" for c
    using referenced_not_pooled [OF assms] by (auto simp: pooled_def)
  have b_ok: "a < brk s" "mb_size b = class_size (mb_allocator b)"
    using slab_okD(5-6) [OF assms(1) b(1)] by auto
  have pos: "0 < mb_refcount b" using assms(2) b by simp
  have b': "slab_ok (put_block a (b\<lparr>mb_refcount := n\<rparr>) s)" if "0 \<le> n" for n
    using b_ok that by (intro slab_ok_put_block [OF assms(1) b(1)]) (auto simp: pooled_def np)
  have np': "\<not> pooled s a" using np by (simp add: pooled_def)
  from assms(1) b(1) pos show thesis
  proof (cases rule: decRef_cases [where k = k])
    case (kept s')
    have "slab_ok s'" using b' [of "mb_refcount b - 1"] kept(1,3) by simp
    with kept b np' show thesis
      by (intro that [of "mb_refcount b - 1" s']) (simp_all add: put_block_def refs_def pooled_def)
  next
    case (shelved s' c)
    have "slab_ok s'"
      unfolding shelved(5)
      using slab_ok_shelve [OF b' [of 0], of a "b\<lparr>mb_refcount := 0\<rparr>" c] shelved(2,3) np'
      by (simp add: put_block_def pooled_def)
    moreover have "pooled s' x = pooled s x" if "x \<noteq> a" for x
      using that unfolding shelved(5) by (auto simp: pooled_def put_block_def)
    ultimately show thesis
      using shelved b by (intro that [of 0 s']) (simp_all add: put_block_def refs_def)
  next
    case (freed s')
    have "slab_ok s'"
      unfolding freed(4)
      using slab_ok_free [OF b' [of 0], of a] np' by (simp add: put_block_def pooled_def)
    with freed b show thesis
      by (intro that [of 0 s']) (simp_all add: put_block_def refs_def pooled_def)
  qed
qed

section \<open>Filling the pools\<close>

lemma malloc_block_ok:
  assumes "slab_ok s" "malloc_block c (class_size c) s = (a, s')"
  shows "slab_ok s'" "\<not> pooled s' a" "allocs s' = allocs s"
    "\<exists>b. blocks s' a = Some b \<and> mb_allocator b = c \<and> mb_refcount b = 0"
proof -
  have none: "blocks s (brk s) = None"
    using slab_ok_brk [OF assms(1), of "brk s"] by (cases "blocks s (brk s)") auto
  have s': "a = brk s" "s' = s\<lparr>blocks := (blocks s)(brk s \<mapsto> \<lparr>mb_allocator = c, mb_refcount = 0,
      mb_size = class_size c, mb_nbytes = 0, mb_bytes = uninit s (brk s)\<rparr>), brk := Suc (brk s)\<rparr>"
    using assms(2) by (auto simp: malloc_block_def)
  show np: "\<not> pooled s' a"
    using none slab_ok_pooled [OF assms(1)] by (fastforce simp: s' pooled_def)
  show "slab_ok s'"
  proof (rule slab_okI)
    fix d show "distinct (pool (allocs s' d)) \<and> length (pool (allocs s' d)) \<le> pool_min (allocs s' d) \<and>
        pool_min (allocs s' d) \<le> SLAB_MAXFREELIST"
      using slab_okD(1-3) [OF assms(1), of d] by (simp add: s')
  next
    fix d x assume x: "x \<in> set (pool (allocs s' d))"
    with np have "x \<noteq> brk s" by (auto simp: pooled_def s')
    with x slab_ok_pooled [OF assms(1), of x d]
    show "\<exists>b. blocks s' x = Some b \<and> mb_allocator b = d \<and> mb_refcount b = 0" by (simp add: s')
  next
    fix x y assume "blocks s' x = Some y"
    then show "x < brk s' \<and> mb_size y = class_size (mb_allocator y) \<and> 0 \<le> mb_refcount y"
      using slab_okD(5-7) [OF assms(1), of x y] by (auto simp: s' split: if_splits)
  qed
next
  show "allocs s' = allocs s" "\<exists>b. blocks s' a = Some b \<and> mb_allocator b = c \<and> mb_refcount b = 0"
    using assms(2) by (auto simp: malloc_block_def)
qed

lemma slab_fill_loop_ok:
  assumes "slab_ok s" "count = length (pool (allocs s c))" "bs = class_size c"
  shows "slab_ok (slab_fill_loop c bs s count) \<and>
    length (pool (allocs (slab_fill_loop c bs s count) c)) = pool_min (allocs s c) \<and>
    pool_min (allocs (slab_fill_loop c bs s count) c) = pool_min (allocs s c) \<and>
    (\<forall>d. d \<noteq> c \<longrightarrow> allocs (slab_fill_loop c bs s count) d = allocs s d)"
  using assms
proof (induction c bs s count rule: slab_fill_loop.induct)
  case (1 c bs s count)
  have le: "count \<le> pool_min (allocs s c)" "pool_min (allocs s c) \<le> SLAB_MAXFREELIST"
    using slab_okD(2,3) [OF "1.prems"(1), of c] "1.prems"(2) by auto
  show ?case
  proof (cases "SLAB_MAXFREELIST \<le> count \<or> count = pool_min (allocs s c)")
    case True
    then have "slab_fill_loop c bs s count = s"
      by (auto simp: slab_fill_loop.simps [of c bs s count])
    with True le "1.prems" show ?thesis by auto
  next
    case False
    obtain a s1 where m: "malloc_block c bs s = (a, s1)" by fastforce
    let ?s2 = "s1\<lparr>allocs := (allocs s1)(c := (allocs s1 c)\<lparr>pool := a # pool (allocs s1 c)\<rparr>)\<rparr>"
    note ok = malloc_block_ok [OF "1.prems"(1) m [unfolded "1.prems"(3)]]
    obtain b where b: "blocks s1 a = Some b" "mb_allocator b = c" "mb_refcount b = 0"
      using ok(4) by auto
    have "slab_ok ?s2"
      using False le "1.prems"(2) b by (intro slab_ok_shelve [OF ok(1) b(1) ok(2)]) (auto simp: ok(3))
    moreover have "slab_fill_loop c bs s count = slab_fill_loop c bs ?s2 (Suc count)"
      using False m by (simp add: slab_fill_loop.simps [of c bs s count] Let_def)
    ultimately show ?thesis
      using "1.IH" [OF _ _ refl m [symmetric] refl] False "1.prems" ok(3) m by simp
  qed
qed

lemma slab_ok_no_pool:
  assumes "slab_ok s" "n \<le> SLAB_MAXFREELIST"
  shows "slab_ok (s\<lparr>allocs := (allocs s)(c := (allocs s c)\<lparr>pool := [], pool_min := n\<rparr>)\<rparr>)"
proof (rule slab_okI)
  let ?s = "s\<lparr>allocs := (allocs s)(c := (allocs s c)\<lparr>pool := [], pool_min := n\<rparr>)\<rparr>"
  show "distinct (pool (allocs ?s d)) \<and> length (pool (allocs ?s d)) \<le> pool_min (allocs ?s d) \<and>
      pool_min (allocs ?s d) \<le> SLAB_MAXFREELIST" for d
    using slab_okD(1-3) [OF assms(1), of d] assms(2) by simp
  show "\<exists>b. blocks ?s x = Some b \<and> mb_allocator b = d \<and> mb_refcount b = 0"
    if "x \<in> set (pool (allocs ?s d))" for d x
    using slab_ok_pooled [OF assms(1), of x d] that by (auto split: if_splits)
  show "x < brk ?s \<and> mb_size y = class_size (mb_allocator y) \<and> 0 \<le> mb_refcount y"
    if "blocks ?s x = Some y" for x y
    using slab_okD(5-7) [OF assms(1), of x y] that by simp
qed

lemma lev_slab_fill1_ok:
  assumes "slab_ok s"
  shows "slab_ok (lev_slab_fill1 c (class_size c) n s) \<and>
    length (pool (allocs (lev_slab_fill1 c (class_size c) n s) c)) = min n SLAB_MAXFREELIST \<and>
    pool_min (allocs (lev_slab_fill1 c (class_size c) n s) c) = min n SLAB_MAXFREELIST \<and>
    (\<forall>d. d \<noteq> c \<longrightarrow> allocs (lev_slab_fill1 c (class_size c) n s) d = allocs s d)"
proof -
  let ?s = "s\<lparr>allocs := (allocs s)(c := (allocs s c)\<lparr>pool := [], pool_min := min n SLAB_MAXFREELIST\<rparr>)\<rparr>"
  have "slab_ok ?s" by (rule slab_ok_no_pool [OF assms]) simp
  from slab_fill_loop_ok [OF this, of 0 c] show ?thesis
    by (simp add: lev_slab_fill1_def)
qed

text \<open>The process starts with empty pools of bound 0 and no block.\<close>

definition slab_start :: "(addr \<Rightarrow> mem) \<Rightarrow> slab" where
  "slab_start junk = \<lparr>blocks = (\<lambda>_. None), brk = 1, uninit = junk,
     allocs = (\<lambda>_. \<lparr>pool = [], pool_min = 0\<rparr>)\<rparr>"

lemma slab_ok_start: "slab_ok (slab_start junk)"
  by (rule slab_okI) (simp_all add: slab_start_def)

text \<open>How many blocks \<open>lev_slab_fill\<close> shelves per class.\<close>

fun fill_count :: "slab_class \<Rightarrow> nat" where
  "fill_count Mem_1k = 1024"
| "fill_count Mem_8k = 512"
| "fill_count Mem_16k = 8"
| "fill_count Mem_64k = 8"
| "fill_count Mem_1024k = 0"

lemma lev_slab_fill_ok:
  assumes "slab_ok s"
  shows "slab_ok (lev_slab_fill s) \<and> (\<forall>c. length (pool (allocs (lev_slab_fill s) c)) = fill_count c \<and>
    pool_min (allocs (lev_slab_fill s) c) = fill_count c)"
proof -
  define s1 where "s1 = lev_slab_fill1 Mem_1k 1024 1024 s"
  define s2 where "s2 = lev_slab_fill1 Mem_8k (8 * 1024) 512 s1"
  define s3 where "s3 = lev_slab_fill1 Mem_16k (16 * 1024) 8 s2"
  define s4 where "s4 = lev_slab_fill1 Mem_64k (64 * 1024) 8 s3"
  define s5 where "s5 = lev_slab_fill1 Mem_1024k (1024 * 1024) 0 s4"
  note r1 = lev_slab_fill1_ok [OF assms, of Mem_1k 1024, unfolded class_size.simps, folded s1_def]
  note r2 = lev_slab_fill1_ok [OF r1 [THEN conjunct1], of Mem_8k 512, unfolded class_size.simps, folded s2_def]
  note r3 = lev_slab_fill1_ok [OF r2 [THEN conjunct1], of Mem_16k 8, unfolded class_size.simps, folded s3_def]
  note r4 = lev_slab_fill1_ok [OF r3 [THEN conjunct1], of Mem_64k 8, unfolded class_size.simps, folded s4_def]
  note r5 = lev_slab_fill1_ok [OF r4 [THEN conjunct1], of Mem_1024k 0, unfolded class_size.simps, folded s5_def]
  have "lev_slab_fill s = s5"
    by (simp add: lev_slab_fill_def s1_def s2_def s3_def s4_def s5_def Let_def)
  moreover have "length (pool (allocs s5 c)) = fill_count c \<and> pool_min (allocs s5 c) = fill_count c" for c
    using r1 r2 r3 r4 r5 by (cases c) (simp_all add: SLAB_MAXFREELIST_def)
  ultimately show ?thesis using r5 by simp
qed

text \<open>Filling makes no reference, and leaves every field that is not the allocator's alone.\<close>

lemma slab_fill_loop_refs:
  assumes "slab_ok s" "count = length (pool (allocs s c))" "bs = class_size c"
  shows "refs (slab_fill_loop c bs s count) = refs s \<and> slab.more (slab_fill_loop c bs s count) = slab.more s"
  using assms
proof (induction c bs s count rule: slab_fill_loop.induct)
  case (1 c bs s count)
  show ?case
  proof (cases "SLAB_MAXFREELIST \<le> count \<or> count = pool_min (allocs s c)")
    case True
    then show ?thesis by (auto simp: slab_fill_loop.simps [of c bs s count])
  next
    case False
    have le: "count \<le> pool_min (allocs s c)"
      using slab_okD(2) [OF "1.prems"(1), of c] "1.prems"(2) by auto
    obtain a s1 where m: "malloc_block c bs s = (a, s1)" by fastforce
    let ?s2 = "s1\<lparr>allocs := (allocs s1)(c := (allocs s1 c)\<lparr>pool := a # pool (allocs s1 c)\<rparr>)\<rparr>"
    note ok = malloc_block_ok [OF "1.prems"(1) m [unfolded "1.prems"(3)]]
    obtain b where b: "blocks s1 a = Some b" "mb_allocator b = c" "mb_refcount b = 0"
      using ok(4) by auto
    have "slab_ok ?s2"
      using False le "1.prems"(2) b by (intro slab_ok_shelve [OF ok(1) b(1) ok(2)]) (auto simp: ok(3))
    moreover have "slab_fill_loop c bs s count = slab_fill_loop c bs ?s2 (Suc count)"
      using False m by (simp add: slab_fill_loop.simps [of c bs s count] Let_def)
    moreover have "blocks s (brk s) = None"
      using slab_ok_brk [OF "1.prems"(1), of "brk s"] by (cases "blocks s (brk s)") auto
    then have "refs ?s2 = refs s" "slab.more ?s2 = slab.more s"
      using m by (auto simp: malloc_block_def refs_def fun_eq_iff)
    ultimately show ?thesis
      using "1.IH" [OF _ _ refl m [symmetric] refl] False "1.prems" ok(3) m by simp
  qed
qed

lemma lev_slab_fill1_refs:
  assumes "slab_ok s"
  shows "refs (lev_slab_fill1 c (class_size c) n s) = refs s" "slab.more (lev_slab_fill1 c (class_size c) n s) = slab.more s"
proof -
  let ?s = "s\<lparr>allocs := (allocs s)(c := (allocs s c)\<lparr>pool := [], pool_min := min n SLAB_MAXFREELIST\<rparr>)\<rparr>"
  have "slab_ok ?s" by (rule slab_ok_no_pool [OF assms]) simp
  from slab_fill_loop_refs [OF this, of 0 c]
  show "refs (lev_slab_fill1 c (class_size c) n s) = refs s" "slab.more (lev_slab_fill1 c (class_size c) n s) = slab.more s"
    by (simp_all add: lev_slab_fill1_def refs_def fun_eq_iff)
qed

lemma lev_slab_fill_refs:
  assumes "slab_ok s"
  shows "refs (lev_slab_fill s) = refs s" "slab.more (lev_slab_fill s) = slab.more s"
proof -
  define s1 where "s1 = lev_slab_fill1 Mem_1k 1024 1024 s"
  define s2 where "s2 = lev_slab_fill1 Mem_8k (8 * 1024) 512 s1"
  define s3 where "s3 = lev_slab_fill1 Mem_16k (16 * 1024) 8 s2"
  define s4 where "s4 = lev_slab_fill1 Mem_64k (64 * 1024) 8 s3"
  have eq: "lev_slab_fill s = lev_slab_fill1 Mem_1024k (1024 * 1024) 0 s4"
    by (simp add: lev_slab_fill_def s1_def s2_def s3_def s4_def Let_def)
  note fill = lev_slab_fill1_ok [THEN conjunct1]
  have ok: "slab_ok s1" "slab_ok s2" "slab_ok s3" "slab_ok s4"
    using fill [OF assms, of Mem_1k 1024] fill [of s1 Mem_8k 512] fill [of s2 Mem_16k 8] fill [of s3 Mem_64k 8]
    by (simp_all add: s1_def s2_def s3_def s4_def)
  show "refs (lev_slab_fill s) = refs s" "slab.more (lev_slab_fill s) = slab.more s"
    unfolding eq
    using lev_slab_fill1_refs [OF assms, of Mem_1k 1024] lev_slab_fill1_refs [OF ok(1), of Mem_8k 512]
      lev_slab_fill1_refs [OF ok(2), of Mem_16k 8] lev_slab_fill1_refs [OF ok(3), of Mem_64k 8]
      lev_slab_fill1_refs [OF ok(4), of Mem_1024k 0]
    by (simp_all add: s1_def s2_def s3_def s4_def)
qed

section \<open>Reference counting as an interface\<close>

text \<open>
  What the rest of the runtime relies on when it shares a block: a reference can be taken on a
  block that is in use, dropped by whoever holds it, a block stays in use as long as it is
  referenced, and the last drop gives it back. The counter is a C \<open>int\<close>, so a reference can be taken
  only while the counter is below \<open>limit\<close>. The actions of the holders of references are a list;
  \<open>held_after\<close> is the number of references each block is left with if every action is legal.
\<close>

datatype ref_action = Acquire addr | Release addr

fun held_after :: "int \<Rightarrow> (addr \<Rightarrow> int) \<Rightarrow> ref_action list \<Rightarrow> (addr \<Rightarrow> int) option" where
  "held_after limit h [] = Some h"
| "held_after limit h (Acquire a # acts) =
     (if 0 < h a \<and> h a < limit then held_after limit (h(a := h a + 1)) acts else None)"
| "held_after limit h (Release a # acts) =
     (if 0 < h a then held_after limit (h(a := h a - 1)) acts else None)"

fun run_actions :: "(addr \<Rightarrow> 's \<Rightarrow> 's res) \<Rightarrow> (addr \<Rightarrow> 's \<Rightarrow> 's res) \<Rightarrow> ref_action list \<Rightarrow> 's \<Rightarrow> 's res" where
  "run_actions inc dec [] s = Inr s"
| "run_actions inc dec (Acquire a # acts) s = bind_res (inc a s) (run_actions inc dec acts)"
| "run_actions inc dec (Release a # acts) s = bind_res (dec a s) (run_actions inc dec acts)"

lemma held_after_released:
  assumes "held_after limit h acts = Some k" "\<not> 0 < h a"
  shows "k a = h a"
  using assms
proof (induction limit h acts rule: held_after.induct)
  case (2 limit h x acts)
  then have "held_after limit (h(x := h x + 1)) acts = Some k" "a \<noteq> x" "0 < h x \<and> h x < limit"
    by (auto split: if_splits)
  with 2 show ?case by (metis fun_upd_other)
next
  case (3 limit h x acts)
  then have "held_after limit (h(x := h x - 1)) acts = Some k" "a \<noteq> x" "0 < h x"
    by (auto split: if_splits)
  with 3 show ?case by (metis fun_upd_other)
qed simp

lemma held_after_limit:
  assumes "held_after limit h acts = Some k" "h a \<le> limit"
  shows "k a \<le> limit"
  using assms
proof (induction limit h acts rule: held_after.induct)
  case (2 limit h x acts)
  then have r: "held_after limit (h(x := h x + 1)) acts = Some k" "0 < h x \<and> h x < limit"
    by (auto split: if_splits)
  have "(h(x := h x + 1)) a \<le> limit" using 2(3) r(2) by simp
  with 2(1) r show ?case by blast
next
  case (3 limit h x acts)
  then have r: "held_after limit (h(x := h x - 1)) acts = Some k" "0 < h x"
    by (auto split: if_splits)
  have "(h(x := h x - 1)) a \<le> limit" using 3(3) by (cases "a = x") simp_all
  with 3(1) r show ?case by blast
qed simp

locale refcounting =
  fixes ok :: "'s \<Rightarrow> bool"
    and count :: "'s \<Rightarrow> addr \<Rightarrow> int"
    and limit :: int
    and acquire release :: "addr \<Rightarrow> 's \<Rightarrow> 's res"
    and in_use :: "'s \<Rightarrow> addr \<Rightarrow> bool"
  assumes acquire_law: "ok s \<Longrightarrow> 0 < count s a \<Longrightarrow> count s a < limit \<Longrightarrow>
      \<exists>s'. acquire a s = Inr s' \<and> ok s' \<and> count s' = (count s)(a := count s a + 1) \<and> in_use s' = in_use s"
    and release_law: "ok s \<Longrightarrow> 0 < count s a \<Longrightarrow>
      \<exists>s'. release a s = Inr s' \<and> ok s' \<and> count s' = (count s)(a := count s a - 1) \<and>
        in_use s' = (in_use s)(a := 1 < count s a)"
    and count_in_use: "ok s \<Longrightarrow> 0 < count s a \<Longrightarrow> in_use s a"
begin

lemma run_actions_count:
  assumes "ok s" "held_after limit (count s) acts = Some h"
  shows "\<exists>s'. run_actions acquire release acts s = Inr s' \<and> ok s' \<and> count s' = h \<and>
    (\<forall>a. in_use s' a \<longleftrightarrow> (if 0 < count s a then 0 < h a else in_use s a))"
  using assms
proof (induction acts arbitrary: s)
  case Nil
  then show ?case using count_in_use by auto
next
  case (Cons x acts)
  show ?case
  proof (cases x)
    case (Acquire a)
    with Cons.prems have pos: "0 < count s a" "count s a < limit" by (simp_all split: if_splits)
    from acquire_law [OF Cons.prems(1) this] obtain s' where
      s': "acquire a s = Inr s'" "ok s'" "count s' = (count s)(a := count s a + 1)" "in_use s' = in_use s" by blast
    have "held_after limit (count s') acts = Some h"
      using Acquire Cons.prems(2) pos s'(3) by simp
    from Cons.IH [OF s'(2) this] obtain t where
      t: "run_actions acquire release acts s' = Inr t" "ok t" "count t = h"
      "\<And>b. in_use t b \<longleftrightarrow> (if 0 < count s' b then 0 < h b else in_use s' b)" by blast
    have "in_use t b \<longleftrightarrow> (if 0 < count s b then 0 < h b else in_use s b)" for b
      using t(4) [of b] s'(3,4) pos by (cases "b = a") auto
    with Acquire s'(1) t(1-3) show ?thesis by simp
  next
    case (Release a)
    with Cons.prems have pos: "0 < count s a" by (simp split: if_splits)
    from release_law [OF Cons.prems(1) this] obtain s' where
      s': "release a s = Inr s'" "ok s'" "count s' = (count s)(a := count s a - 1)"
      "in_use s' = (in_use s)(a := 1 < count s a)" by blast
    have held: "held_after limit (count s') acts = Some h"
      using Release Cons.prems(2) pos s'(3) by simp
    from Cons.IH [OF s'(2) this] obtain t where
      t: "run_actions acquire release acts s' = Inr t" "ok t" "count t = h"
      "\<And>b. in_use t b \<longleftrightarrow> (if 0 < count s' b then 0 < h b else in_use s' b)" by blast
    have "h a = 0" if "count s a = 1"
      using held_after_released [OF held, of a] that s'(3) by simp
    then have "in_use t b \<longleftrightarrow> (if 0 < count s b then 0 < h b else in_use s b)" for b
      using t(4) [of b] s'(3,4) pos by (cases "b = a") auto
    with Release s'(1) t(1-3) show ?thesis by simp
  qed
qed

end

text \<open>
  Taking and dropping a reference in C: the increment of the counter is undefined at the largest
  \<open>int\<close>.
\<close>

definition REFCOUNT_MAX :: int where
  "REFCOUNT_MAX = 2 ^ 31 - 1"

definition slab_acquire :: "addr \<Rightarrow> 'a slab_scheme \<Rightarrow> 'a slab_scheme res" where
  "slab_acquire a s =
     (if refs s a = REFCOUNT_MAX then Inl (Undefined ''int overflow'')
      else bind_res (lev_slab_incRef (Some a) s) (\<lambda>(_, s'). Inr s'))"

definition slab_release :: "addr \<Rightarrow> 'a slab_scheme \<Rightarrow> 'a slab_scheme res" where
  "slab_release a s = bind_res (lev_slab_decRef (Some a) s) (\<lambda>(_, s'). Inr s')"

definition slab_in_use :: "'a slab_scheme \<Rightarrow> addr \<Rightarrow> bool" where
  "slab_in_use s a \<longleftrightarrow> blocks s a \<noteq> None \<and> \<not> pooled s a"

lemma slab_release_in_use:
  assumes "slab_ok s" "0 < refs s a" "slab_release a s = Inr s'"
  shows "slab_in_use s' = (slab_in_use s)(a := 1 < refs s a)"
proof -
  obtain b where b: "blocks s a = Some b" "refs s a = mb_refcount b"
    using refs_pos_blocks [OF assms(2)] by auto
  have np: "\<not> pooled s a" by (rule referenced_not_pooled [OF assms(1,2)])
  have pos: "0 < mb_refcount b" using assms(2) b(2) by simp
  from assms(1) b(1) pos show ?thesis
  proof (cases rule: decRef_cases [where k = 1])
    case (kept s'')
    with assms(3) b np show ?thesis
      by (auto simp: slab_release_def slab_in_use_def pooled_def put_block_def fun_eq_iff)
  next
    case (shelved s'' c)
    have "s'' = s'" using shelved(4) assms(3) by (simp add: slab_release_def)
    then have "pooled s' x \<longleftrightarrow> x = a \<or> pooled s x" "blocks s' x = None \<longleftrightarrow> blocks s x = None" for x
      using shelved(5) b by (auto simp: pooled_def put_block_def split: if_splits)
    with shelved(1) b show ?thesis by (auto simp: slab_in_use_def fun_eq_iff)
  next
    case (freed s'')
    with assms(3) b show ?thesis
      by (auto simp: slab_release_def slab_in_use_def pooled_def put_block_def fun_eq_iff)
  qed
qed

lemma slab_release_last:
  assumes "slab_ok s" "0 < refs s a" "slab_release a s = Inr s'" "refs s' a = 0"
  shows "\<not> slab_in_use s' a"
proof -
  obtain r s'' where d: "lev_slab_decRefCount (Some a) 1 s = Inr (r, s'')" "refs s'' a = refs s a - 1"
    by (rule decRef_ok [OF assms(1,2), where k = 1]) blast
  with assms(3,4) have "refs s a = 1" by (simp add: slab_release_def)
  with slab_release_in_use [OF assms(1-3)] show ?thesis by simp
qed

interpretation slab_rc: refcounting slab_ok refs REFCOUNT_MAX slab_acquire slab_release slab_in_use
proof
  fix s :: "'a slab_scheme" and a
  assume ok: "slab_ok s" and pos: "0 < refs s a"
  obtain b where b: "blocks s a = Some b" "refs s a = mb_refcount b"
    using refs_pos_blocks [OF pos] by auto
  have np: "\<not> pooled s a" by (rule referenced_not_pooled [OF ok pos])
  show "\<exists>s'. slab_acquire a s = Inr s' \<and> slab_ok s' \<and> refs s' = (refs s)(a := refs s a + 1) \<and>
      slab_in_use s' = slab_in_use s" if "refs s a < REFCOUNT_MAX"
    by (rule incRef_block [OF ok b(1) np])
       (use that in \<open>auto simp: slab_acquire_def slab_in_use_def refs_def put_block_def pooled_def b fun_eq_iff\<close>)
  obtain s' where s': "slab_release a s = Inr s'" "slab_ok s'" "refs s' = (refs s)(a := refs s a - 1)"
    by (rule decRef_ok [OF ok pos, where k = 1])
       (auto simp: slab_release_def refs_def fun_eq_iff split: option.splits)
  with slab_release_in_use [OF ok pos s'(1)]
  show "\<exists>s'. slab_release a s = Inr s' \<and> slab_ok s' \<and> refs s' = (refs s)(a := refs s a - 1) \<and>
      slab_in_use s' = (slab_in_use s)(a := 1 < refs s a)" by blast
  show "slab_in_use s a" using b np by (simp add: slab_in_use_def)
qed

end
