(* ===== verification/Lua_Value.thy ===== *)
theory Lua_Value
  imports Lua_Number Lev_Slab
begin

text \<open>
  Lua values as the C API shows them to the sources, and the API calls the sources make on
  tables. A table is the list of its entries in the order \<open>lua_next\<close> enumerates them, so tables
  are finite trees: a table that contains itself has no value here. A \<open>lev.buffer\<close> userdata is its
  \<open>MemSlice\<close>: the block, the offset of the slice in it and the length (\<open>until\<close>).
\<close>

record MemSlice =
  ms_mb :: addr
  ms_slice :: nat
  ms_until :: nat

datatype lval =
    LNil
  | LBoolean bool
  | LLightuserdata nat   \<comment> \<open>the pointer, 0 for \<open>NULL\<close>\<close>
  | LNumber lua_Number
  | LString "byte list"
  | LTable "(lval \<times> lval) list"
  | LFunction nat
  | LUserdata bool nat   \<comment> \<open>whether its metatable has a field \<open>readUInt8\<close>\<close>
  | LBuffer MemSlice
  | LThread nat

type_synonym ltable = "(lval \<times> lval) list"

abbreviation lua_int :: "int \<Rightarrow> lval" where
  "lua_int k \<equiv> LNumber (dbl_of_int k)"

section \<open>Tables\<close>

text \<open>The two zeros are one key; a table used as a key is equal to itself only.\<close>

fun norm_key :: "lval \<Rightarrow> lval" where
  "norm_key (LNumber w) = LNumber (if w = 2 ^ 63 then 0 else w)"
| "norm_key k = k"

fun identity_key :: "lval \<Rightarrow> bool" where
  "identity_key (LTable _) = True"
| "identity_key (LBuffer _) = True"
| "identity_key _ = False"

definition lua_rawget :: "ltable \<Rightarrow> lval \<Rightarrow> lval" where
  "lua_rawget kvs k = (case map_of kvs (norm_key k) of Some v \<Rightarrow> v | None \<Rightarrow> LNil)"

definition lua_rawgeti :: "ltable \<Rightarrow> nat \<Rightarrow> lval" where
  "lua_rawgeti kvs i = lua_rawget kvs (lua_int (int i))"

text \<open>An entry of a table is smaller than the table: the recursion through tables ends.\<close>

lemma size_in_entries:
  "(k, v) \<in> set kvs \<Longrightarrow> size v < size_list (size_prod size size) kvs"
  "(k, v) \<in> set kvs \<Longrightarrow> size k < size_list (size_prod size size) kvs"
  by (induction kvs) auto

lemma size_lua_rawgeti: "size (lua_rawgeti kvs i) \<le> size_list (size_prod size size) kvs"
  unfolding lua_rawgeti_def lua_rawget_def
  by (auto split: option.splits dest!: map_of_SomeD size_in_entries(1))

text \<open>Storing nil removes the entry; a new key goes to the end of the enumeration.\<close>

fun tset :: "ltable \<Rightarrow> lval \<Rightarrow> lval \<Rightarrow> ltable" where
  "tset [] k v = (if v = LNil then [] else [(k, v)])"
| "tset ((k', v') # kvs) k v =
     (if k' = k \<and> \<not> identity_key k then (if v = LNil then kvs else (k, v) # kvs)
      else (k', v') # tset kvs k v)"

definition lua_rawset :: "ltable \<Rightarrow> lval \<Rightarrow> lval \<Rightarrow> ltable res" where
  "lua_rawset kvs k v =
     (case k of
        LNil \<Rightarrow> Inl (Lua_error ''table index is nil'')
      | LNumber w \<Rightarrow> if isnan w then Inl (Lua_error ''table index is NaN'')
                      else Inr (tset kvs (norm_key k) v)
      | _ \<Rightarrow> Inr (tset kvs k v))"

definition lua_rawseti :: "ltable \<Rightarrow> nat \<Rightarrow> lval \<Rightarrow> ltable" where
  "lua_rawseti kvs i v = tset kvs (norm_key (lua_int (int i))) v"

text \<open>
  What the Lua manual says of the length operator (\<open>lua_objlen\<close>): some border of the table. Which
  border is up to the Lua implementation; \<open>seq_len\<close> is the smallest one.
\<close>

definition is_border :: "ltable \<Rightarrow> nat \<Rightarrow> bool" where
  "is_border kvs n \<longleftrightarrow> (n = 0 \<or> lua_rawgeti kvs n \<noteq> LNil) \<and> lua_rawgeti kvs (Suc n) = LNil"

fun seq_len_from :: "ltable \<Rightarrow> nat \<Rightarrow> nat \<Rightarrow> nat" where
  "seq_len_from kvs i 0 = i"
| "seq_len_from kvs i (Suc f) =
     (if lua_rawgeti kvs (Suc i) = LNil then i else seq_len_from kvs (Suc i) f)"

definition seq_len :: "ltable \<Rightarrow> nat" where
  "seq_len kvs = seq_len_from kvs 0 (length kvs)"

lemma tset_fresh: "k \<notin> fst ` set kvs \<or> identity_key k \<Longrightarrow> v \<noteq> LNil \<Longrightarrow> tset kvs k v = kvs @ [(k, v)]"
  by (induction kvs k v rule: tset.induct) auto

lemma map_of_tset_same: "\<not> identity_key k \<Longrightarrow> v \<noteq> LNil \<Longrightarrow> map_of (tset kvs k v) k = Some v"
  by (induction kvs k v rule: tset.induct) auto

lemma map_of_tset_other: "k \<noteq> k' \<Longrightarrow> map_of (tset kvs k v) k' = map_of kvs k'"
  by (induction kvs k v rule: tset.induct) auto

text \<open>The table with the values \<open>vs\<close> at the keys 1, 2, and so on.\<close>

fun seq_entries :: "nat \<Rightarrow> lval list \<Rightarrow> ltable" where
  "seq_entries i [] = []"
| "seq_entries i (v # vs) = (lua_int (int (Suc i)), v) # seq_entries (Suc i) vs"

lemma seq_entries_append:
  "seq_entries i (vs @ ws) = seq_entries i vs @ seq_entries (i + length vs) ws"
  by (induction vs arbitrary: i) simp_all

lemma length_seq_entries [simp]: "length (seq_entries i vs) = length vs"
  by (induction vs arbitrary: i) simp_all

lemma norm_key_int [simp]: "\<bar>k\<bar> < 2 ^ 53 \<Longrightarrow> norm_key (lua_int k) = lua_int k"
  using dbl_of_int_not_neg_zero [of k] by simp

declare norm_key.simps(1) [simp del]

lemma seq_entries_keys: "fst ` set (seq_entries i vs) = (\<lambda>j. lua_int (int j)) ` {Suc i..<Suc (i + length vs)}"
proof (induction vs arbitrary: i)
  case (Cons v vs)
  have "{Suc i..<Suc (i + length (v # vs))} = insert (Suc i) {Suc (Suc i)..<Suc (Suc i + length vs)}"
    by auto
  with Cons [of "Suc i"] show ?case by simp
qed simp

lemma lua_rawseti_seq:
  assumes "length vs < 2 ^ 31" "v \<noteq> LNil"
  shows "lua_rawseti (seq_entries 0 vs) (Suc (length vs)) v = seq_entries 0 (vs @ [v])"
proof -
  have "lua_int (int (Suc (length vs))) \<notin> fst ` set (seq_entries 0 vs)"
    using assms(1) by (auto simp: seq_entries_keys dbl_of_int_inj)
  with assms show ?thesis
    by (simp add: lua_rawseti_def tset_fresh seq_entries_append del: of_nat_Suc)
qed

lemma map_of_seq_entries:
  assumes "j < length vs" "i + length vs < 2 ^ 32"
  shows "map_of (seq_entries i vs) (lua_int (int (Suc (i + j)))) = Some (vs ! j)"
  using assms
proof (induction vs arbitrary: i j)
  case (Cons v vs)
  show ?case
  proof (cases j)
    case (Suc j')
    with Cons.prems Cons.IH [of j' "Suc i"] show ?thesis
      by (simp add: dbl_of_int_inj del: of_nat_Suc)
  qed simp
qed simp

lemma lua_rawgeti_seq:
  assumes "1 \<le> j" "j \<le> length vs" "length vs < 2 ^ 31"
  shows "lua_rawgeti (seq_entries 0 vs) j = vs ! (j - 1)"
proof -
  obtain j' where j: "j = Suc j'" using assms(1) by (cases j) auto
  with map_of_seq_entries [of j' vs 0] assms show ?thesis
    by (simp add: lua_rawgeti_def lua_rawget_def del: of_nat_Suc)
qed

text \<open>The border of a sequence is its length.\<close>

lemma seq_len_from_seq:
  assumes "i + f = length vs" "length vs < 2 ^ 31" "LNil \<notin> set vs"
  shows "seq_len_from (seq_entries 0 vs) i f = length vs"
  using assms
proof (induction f arbitrary: i)
  case (Suc f)
  have "lua_rawgeti (seq_entries 0 vs) (Suc i) = vs ! i"
    using Suc.prems by (simp add: lua_rawgeti_seq)
  moreover have "vs ! i \<in> set vs" using Suc.prems(1) by simp
  ultimately have "lua_rawgeti (seq_entries 0 vs) (Suc i) \<noteq> LNil"
    using Suc.prems(3) by metis
  with Suc show ?case by simp
qed simp

lemma seq_len_seq_entries:
  "length vs < 2 ^ 31 \<Longrightarrow> LNil \<notin> set vs \<Longrightarrow> seq_len (seq_entries 0 vs) = length vs"
  by (simp add: seq_len_def seq_len_from_seq)

end
