(* ===== verification/Mpack_Write.thy ===== *)
theory Mpack_Write
  imports Lua_Value
begin

text \<open>
  The MessagePack writer of \<open>src/lev_mpack.c\<close> (\<open>mpwbuf_append\<close> to \<open>mpwbuf_pack_anytype\<close>): a fixed
  output buffer with an error word, and one packing function per Lua type. The length of a table
  is a parameter \<open>objlen\<close>: \<open>lua_objlen\<close> gives some border of the table.
\<close>

unbundle bit_operations_syntax

record mpwbuf =
  wb_data :: mem
  wb_used :: nat
  wb_capacity :: nat
  wb_err :: "32 word"

definition ERRORBIT_BUFNOLEFT :: "32 word" where "ERRORBIT_BUFNOLEFT = 1"
definition ERRORBIT_STRINGLEN :: "32 word" where "ERRORBIT_STRINGLEN = 2"
definition ERRORBIT_TYPE_LIGHTUSERDATA :: "32 word" where "ERRORBIT_TYPE_LIGHTUSERDATA = 4"
definition ERRORBIT_TYPE_FUNCTION :: "32 word" where "ERRORBIT_TYPE_FUNCTION = 8"
definition ERRORBIT_TYPE_USERDATA :: "32 word" where "ERRORBIT_TYPE_USERDATA = 16"
definition ERRORBIT_TYPE_THREAD :: "32 word" where "ERRORBIT_TYPE_THREAD = 32"
definition ERRORBIT_TYPE_UNKNOWN :: "32 word" where "ERRORBIT_TYPE_UNKNOWN = 64"

lemmas errorbit_defs =
  ERRORBIT_BUFNOLEFT_def ERRORBIT_STRINGLEN_def ERRORBIT_TYPE_LIGHTUSERDATA_def
  ERRORBIT_TYPE_FUNCTION_def ERRORBIT_TYPE_USERDATA_def ERRORBIT_TYPE_THREAD_def
  ERRORBIT_TYPE_UNKNOWN_def

section \<open>The output buffer\<close>

definition mpwbuf_init :: "mpwbuf \<Rightarrow> mpwbuf" where
  "mpwbuf_init b = b\<lparr>wb_used := 0, wb_capacity := 1024 * 1024, wb_err := 0\<rparr>"

definition mpwbuf_left :: "mpwbuf \<Rightarrow> nat" where
  "mpwbuf_left b = sz_sub (wb_capacity b) (wb_used b)"

definition wb_or_err :: "32 word \<Rightarrow> mpwbuf \<Rightarrow> mpwbuf" where
  "wb_or_err e b = b\<lparr>wb_err := wb_err b OR e\<rparr>"

definition mpwbuf_append :: "mpwbuf \<Rightarrow> byte list \<Rightarrow> nat \<times> mpwbuf" where
  "mpwbuf_append b toadd =
     (if wb_err b \<noteq> 0 then (0, b)
      else if mpwbuf_left b < length toadd then (0, wb_or_err ERRORBIT_BUFNOLEFT b)
      else (length toadd,
            b\<lparr>wb_data := mem_write (wb_data b) (wb_used b) toadd,
              wb_used := wb_used b + length toadd\<rparr>))"

text \<open>Two appends, with the sum of the lengths written (\<open>wl = append(..); wl += append(..)\<close>).\<close>

definition append_more :: "nat \<times> mpwbuf \<Rightarrow> byte list \<Rightarrow> nat \<times> mpwbuf" where
  "append_more r toadd = (case r of (wl, b) \<Rightarrow> case mpwbuf_append b toadd of (w, b') \<Rightarrow> (wl + w, b'))"

section \<open>Scalars\<close>

definition mpwbuf_pack_nil :: "mpwbuf \<Rightarrow> nat \<times> mpwbuf" where
  "mpwbuf_pack_nil b = mpwbuf_append b [0xc0]"

definition mpwbuf_pack_boolean :: "mpwbuf \<Rightarrow> bool \<Rightarrow> nat \<times> mpwbuf" where
  "mpwbuf_pack_boolean b i = mpwbuf_append b [if i then 0xc3 else 0xc2]"

text \<open>
  The bytes for an integral value \<open>lv\<close> (a \<open>long long\<close>): the least of the forms that holds it. A
  conversion to a narrower integer keeps the low bits.
\<close>

definition long_long_bytes :: "int \<Rightarrow> byte list" where
  "long_long_bytes lv =
     (if 0 \<le> lv then
        (if lv < 128 then [word_of_int lv]
         else if lv < 256 then [0xcc, word_of_int lv]
         else if lv < 65536 then 0xcd # be_bytes 2 (nat lv)
         else if lv < 4294967296 then 0xce # be_bytes 4 (nat lv)
         else 0xcf # be_bytes 8 (nat lv))
      else
        (if -32 \<le> lv then [0xe0 OR word_of_int lv]
         else if -128 \<le> lv then [0xd0, word_of_int lv]
         else if -32768 \<le> lv then 0xd1 # be_bytes 2 (nat (lv mod 2 ^ 16))
         else if -2147483648 \<le> lv then 0xd2 # be_bytes 4 (nat (lv mod 2 ^ 32))
         else 0xd3 # be_bytes 8 (nat (lv mod 2 ^ 64))))"

text \<open>
  The buffer \<open>buf[0..len)\<close> of \<open>mpwbuf_pack_number\<close>. Converting an integral double outside the
  range of \<open>long long\<close> is undefined in C.
\<close>

definition number_bytes :: "lua_Number \<Rightarrow> byte list res" where
  "number_bytes n =
     (if isinf n then
        Inr (0xcb # (if dbl_pos n then [0x7f, 0xf0] else [0xff, 0xf0]) @ [0, 0, 0, 0, 0, 0])
      else if isnan n then Inr (0xcb # [0xff, 0xf8] @ [0, 0, 0, 0, 0, 0])
      else (case dbl_int n of
              Some k \<Rightarrow> bind_res (c_to_int (- (2 ^ 63)) (2 ^ 63 - 1) n) (\<lambda>lv. Inr (long_long_bytes lv))
            | None \<Rightarrow> Inr (0xcb # be_bytes 8 (unat n))))"

definition mpwbuf_pack_number :: "mpwbuf \<Rightarrow> lua_Number \<Rightarrow> (nat \<times> mpwbuf) res" where
  "mpwbuf_pack_number b n = bind_res (number_bytes n) (\<lambda>buf. Inr (mpwbuf_append b buf))"

definition mpwbuf_pack_string :: "mpwbuf \<Rightarrow> byte list \<Rightarrow> nat \<times> mpwbuf" where
  "mpwbuf_pack_string b sval =
     (let slen = length sval in
      if slen < 32 then append_more (mpwbuf_append b [0xa0 OR word_of_nat slen]) sval
      else if slen < 65536 then
        append_more (append_more (mpwbuf_append b [0xda]) (be_bytes 2 slen)) sval
      else if slen < 4294967296 - 1 then
        append_more (append_more (mpwbuf_append b [0xdb]) (be_bytes 4 slen)) sval
      else (0, wb_or_err ERRORBIT_STRINGLEN b))"

section \<open>Tables\<close>

text \<open>
  The header of an array or a map: \<open>fix|l\<close>, or a type byte and a length of two or four bytes.
  A length of \<open>2^32-1\<close> or more writes no header.
\<close>

definition mpwbuf_pack_header :: "byte \<Rightarrow> byte \<Rightarrow> byte \<Rightarrow> mpwbuf \<Rightarrow> nat \<Rightarrow> nat \<times> mpwbuf" where
  "mpwbuf_pack_header fx t16 t32 b l =
     (if l < 16 then mpwbuf_append b [fx OR word_of_nat l]
      else if l < 65536 then append_more (mpwbuf_append b [t16]) (be_bytes 2 l)
      else if l < 4294967296 - 1 then append_more (mpwbuf_append b [t32]) (be_bytes 4 l)
      else (0, b))"

text \<open>
  \<open>mpwbuf_pack_array\<close> is the loop over \<open>i = 1..l\<close> of \<open>mpwbuf_pack_table\<close> (with \<open>(int)l\<close> as its
  bound), \<open>mpwbuf_pack_map\<close> its second \<open>lua_next\<close> loop; both add to the length \<open>wl\<close> so far.
\<close>

function (sequential)
    mpwbuf_pack_anytype :: "(ltable \<Rightarrow> nat) \<Rightarrow> 'a slab_scheme \<Rightarrow> lval \<Rightarrow> mpwbuf \<Rightarrow> (nat \<times> mpwbuf) res"
and mpwbuf_pack_table :: "(ltable \<Rightarrow> nat) \<Rightarrow> 'a slab_scheme \<Rightarrow> ltable \<Rightarrow> mpwbuf \<Rightarrow> (nat \<times> mpwbuf) res"
and mpwbuf_pack_array :: "(ltable \<Rightarrow> nat) \<Rightarrow> 'a slab_scheme \<Rightarrow> ltable \<Rightarrow> nat \<Rightarrow> nat \<Rightarrow> nat \<Rightarrow> mpwbuf \<Rightarrow> (nat \<times> mpwbuf) res"
and mpwbuf_pack_map :: "(ltable \<Rightarrow> nat) \<Rightarrow> 'a slab_scheme \<Rightarrow> ltable \<Rightarrow> nat \<Rightarrow> mpwbuf \<Rightarrow> (nat \<times> mpwbuf) res"
where
  "mpwbuf_pack_anytype objlen h v b =
     (case v of
        LNil \<Rightarrow> Inr (mpwbuf_pack_nil b)
      | LBoolean i \<Rightarrow> Inr (mpwbuf_pack_boolean b i)
      | LNumber n \<Rightarrow> mpwbuf_pack_number b n
      | LString s \<Rightarrow> Inr (mpwbuf_pack_string b s)
      | LTable kvs \<Rightarrow> mpwbuf_pack_table objlen h kvs b
      | LLightuserdata _ \<Rightarrow> Inr (0, wb_or_err ERRORBIT_TYPE_LIGHTUSERDATA b)
      | LFunction _ \<Rightarrow> Inr (0, wb_or_err ERRORBIT_TYPE_FUNCTION b)
      | LBuffer ms \<Rightarrow>
          bind_res (block_read h (ms_mb ms) (ms_slice ms) (ms_until ms))
            (\<lambda>s. Inr (mpwbuf_pack_string b s))
      | LUserdata has_readUInt8 _ \<Rightarrow>
          if has_readUInt8 then Inl (Lua_error ''lev.buffer expected, got userdata'')
          else Inr (0, wb_or_err ERRORBIT_TYPE_USERDATA b)
      | LThread _ \<Rightarrow> Inr (0, wb_or_err ERRORBIT_TYPE_THREAD b))"
| "mpwbuf_pack_table objlen h kvs b =
     (let l = objlen kvs in
      if 0 < l then
        (case mpwbuf_pack_header 0x90 0xdc 0xdd b l of
           (wl, b') \<Rightarrow> mpwbuf_pack_array objlen h kvs 1 (nat (to_int (int l))) wl b')
      else
        (case mpwbuf_pack_header 0x80 0xde 0xdf b (length kvs) of
           (wl, b') \<Rightarrow> mpwbuf_pack_map objlen h kvs wl b'))"
| "mpwbuf_pack_array objlen h kvs i n wl b =
     (if n < i then Inr (wl, b)
      else bind_res (mpwbuf_pack_anytype objlen h (lua_rawgeti kvs i) b)
             (\<lambda>(w, b'). mpwbuf_pack_array objlen h kvs (Suc i) n (wl + w) b'))"
| "mpwbuf_pack_map objlen h [] wl b = Inr (wl, b)"
| "mpwbuf_pack_map objlen h ((k, v) # kvs) wl b =
     bind_res (mpwbuf_pack_anytype objlen h k b)
       (\<lambda>(w, b'). bind_res (mpwbuf_pack_anytype objlen h v b')
         (\<lambda>(w', b''). mpwbuf_pack_map objlen h kvs (wl + w + w') b''))"
  by pat_completeness auto
termination
  by (relation "measures
      [case_sum (case_sum (\<lambda>(ol, h, v, b). size v) (\<lambda>(ol, h, kvs, b). size_list (size_prod size size) kvs))
         (case_sum (\<lambda>(ol, h, kvs, i, n, wl, b). size_list (size_prod size size) kvs)
            (\<lambda>(ol, h, kvs, wl, b). size_list (size_prod size size) kvs)),
       case_sum (case_sum (\<lambda>_. 0) (\<lambda>_. 2)) (\<lambda>_. 1),
       case_sum (\<lambda>_. 0) (case_sum (\<lambda>(ol, h, kvs, i, n, wl, b). Suc n - i) (\<lambda>_. 0))]")
     (use size_lua_rawgeti in \<open>auto simp: le_less\<close>)

declare mpwbuf_pack_anytype.simps [simp del] mpwbuf_pack_table.simps [simp del]
  mpwbuf_pack_array.simps [simp del]

section \<open>The format the writer produces\<close>

text \<open>
  The specification of the writer: which byte string encodes a value. The rules are the
  MessagePack format restricted to the choices the writer makes (shortest integer form, arrays
  for tables with a positive length, maps for the others); a value no rule covers has no
  encoding. \<open>entries_seq\<close> is the order in which a map's keys and values are written.
\<close>

definition entries_seq :: "ltable \<Rightarrow> lval list" where
  "entries_seq kvs = concat (map (\<lambda>(k, v). [k, v]) kvs)"

definition header_bytes :: "byte \<Rightarrow> byte \<Rightarrow> byte \<Rightarrow> nat \<Rightarrow> byte list" where
  "header_bytes fx t16 t32 l =
     (if l < 16 then [fx OR word_of_nat l]
      else if l < 65536 then t16 # be_bytes 2 l
      else t32 # be_bytes 4 l)"

definition string_header :: "nat \<Rightarrow> byte list" where
  "string_header l =
     (if l < 32 then [0xa0 OR word_of_nat l]
      else if l < 65536 then 0xda # be_bytes 2 l
      else 0xdb # be_bytes 4 l)"

inductive mp_encodes :: "(ltable \<Rightarrow> nat) \<Rightarrow> 'a slab_scheme \<Rightarrow> lval \<Rightarrow> byte list \<Rightarrow> bool"
  for objlen h where
  enc_nil: "mp_encodes objlen h LNil [0xc0]"
| enc_boolean: "mp_encodes objlen h (LBoolean i) [if i then 0xc3 else 0xc2]"
| enc_number: "number_bytes n = Inr e \<Longrightarrow> mp_encodes objlen h (LNumber n) e"
| enc_string: "length s < 4294967295 \<Longrightarrow> mp_encodes objlen h (LString s) (string_header (length s) @ s)"
| enc_buffer: "block_read h (ms_mb ms) (ms_slice ms) (ms_until ms) = Inr s \<Longrightarrow> length s < 4294967295 \<Longrightarrow>
    mp_encodes objlen h (LBuffer ms) (string_header (length s) @ s)"
| enc_array: "0 < objlen kvs \<Longrightarrow> objlen kvs < 2 ^ 31 \<Longrightarrow>
    list_all2 (mp_encodes objlen h) (map (lua_rawgeti kvs) [1..<Suc (objlen kvs)]) es \<Longrightarrow>
    mp_encodes objlen h (LTable kvs) (header_bytes 0x90 0xdc 0xdd (objlen kvs) @ concat es)"
| enc_map: "objlen kvs = 0 \<Longrightarrow> length kvs < 4294967295 \<Longrightarrow>
    list_all2 (mp_encodes objlen h) (entries_seq kvs) es \<Longrightarrow>
    mp_encodes objlen h (LTable kvs) (header_bytes 0x80 0xde 0xdf (length kvs) @ concat es)"

inductive_simps mp_encodes_scalar_iff [simp]:
  "mp_encodes objlen h LNil e"
  "mp_encodes objlen h (LBoolean i) e"
  "mp_encodes objlen h (LNumber n) e"
  "mp_encodes objlen h (LString s) e"
  "mp_encodes objlen h (LBuffer ms) e"

inductive_cases mp_encodes_tableE: "mp_encodes objlen h (LTable kvs) e"

section \<open>The writer implements the format\<close>

definition wb_ok :: "mpwbuf \<Rightarrow> bool" where
  "wb_ok b \<longleftrightarrow> wb_used b \<le> wb_capacity b"

text \<open>The bytes written so far.\<close>

definition wb_out :: "mpwbuf \<Rightarrow> byte list" where
  "wb_out b = mem_read (wb_data b) 0 (wb_used b)"

text \<open>
  \<open>emits b e r\<close>: the call that returned \<open>r\<close> wrote exactly \<open>e\<close> and reported its length, or found
  the buffer too small and set the error bit, or found the error word set and did nothing.
\<close>

definition emits :: "mpwbuf \<Rightarrow> byte list \<Rightarrow> nat \<times> mpwbuf \<Rightarrow> bool" where
  "emits b e r \<longleftrightarrow>
     wb_ok (snd r) \<and> wb_capacity (snd r) = wb_capacity b \<and>
     (if wb_err b \<noteq> 0 then r = (0, b)
      else if length e \<le> mpwbuf_left b
        then fst r = length e \<and> wb_err (snd r) = 0 \<and> wb_out (snd r) = wb_out b @ e
      else wb_err (snd r) = ERRORBIT_BUFNOLEFT)"

lemma length_wb_out [simp]: "length (wb_out b) = wb_used b"
  by (simp add: wb_out_def)

lemma wb_ok_left [simp]: "wb_ok b \<Longrightarrow> mpwbuf_left b = wb_capacity b - wb_used b"
  by (simp add: mpwbuf_left_def wb_ok_def)

lemma emits_append [intro]: "wb_ok b \<Longrightarrow> emits b e (mpwbuf_append b e)"
  by (auto simp: emits_def mpwbuf_append_def wb_or_err_def wb_ok_def mpwbuf_left_def wb_out_def
      ERRORBIT_BUFNOLEFT_def mem_read_write_prefix [where off = 0, simplified])

lemma emits_wb_ok: "emits b e (w, b') \<Longrightarrow> wb_ok b'"
  by (simp add: emits_def)

lemma emits_trans:
  assumes ok: "wb_ok b" and e1: "emits b e1 (w1, b1)" and e2: "emits b1 e2 (w2, b2)"
  shows "emits b (e1 @ e2) (w1 + w2, b2)"
proof (cases "wb_err b \<noteq> 0 \<or> \<not> length e1 \<le> mpwbuf_left b")
  case True
  with e1 e2 show ?thesis
    by (auto simp: emits_def ERRORBIT_BUFNOLEFT_def split: if_splits)
next
  case False
  with e1 have b1: "w1 = length e1" "wb_err b1 = 0" "wb_out b1 = wb_out b @ e1"
      "wb_ok b1" "wb_capacity b1 = wb_capacity b"
    by (auto simp: emits_def split: if_splits)
  have used: "wb_used b1 = wb_used b + length e1"
    using b1(3) by (metis length_append length_wb_out)
  with False b1 ok have "length e2 \<le> mpwbuf_left b1 \<longleftrightarrow> length (e1 @ e2) \<le> mpwbuf_left b"
    by (auto simp: wb_ok_def)
  with False b1 e2 show ?thesis
    by (auto simp: emits_def split: if_splits)
qed

lemma emits_Nil: "wb_ok b \<Longrightarrow> emits b [] (0, b)"
  by (simp add: emits_def)

lemma emits_append_more [intro]:
  assumes "wb_ok b" "emits b e r"
  shows "emits b (e @ e') (append_more r e')"
proof -
  obtain w b1 where r: "r = (w, b1)" by fastforce
  obtain w' b2 where r': "mpwbuf_append b1 e' = (w', b2)" by fastforce
  have "emits b1 e' (w', b2)"
    using emits_append [OF emits_wb_ok, of b e w b1 e'] assms(2) r r' by simp
  with assms r r' show ?thesis
    by (auto simp: append_more_def intro: emits_trans)
qed

lemma emits_pack_string:
  assumes "wb_ok b" "length s < 4294967295"
  shows "emits b (string_header (length s) @ s) (mpwbuf_pack_string b s)"
  using assms emits_append_more [OF assms(1) emits_append, OF assms(1)]
    emits_append_more [OF assms(1) emits_append_more [OF assms(1) emits_append], OF assms(1)]
  by (auto simp: mpwbuf_pack_string_def string_header_def Let_def) (metis append_Cons append_Nil)+

lemma emits_pack_header:
  assumes "wb_ok b" "l < 4294967295"
  shows "emits b (header_bytes fx t16 t32 l) (mpwbuf_pack_header fx t16 t32 b l)"
  using assms emits_append_more [OF assms(1) emits_append, OF assms(1), of "[_]"]
  by (auto simp: mpwbuf_pack_header_def header_bytes_def)

text \<open>What the two loops do, given what \<open>mpwbuf_pack_anytype\<close> does on the elements.\<close>

definition packs :: "(ltable \<Rightarrow> nat) \<Rightarrow> 'a slab_scheme \<Rightarrow> lval \<Rightarrow> byte list \<Rightarrow> bool" where
  "packs objlen h v e \<longleftrightarrow>
     (\<forall>b. wb_ok b \<longrightarrow> (\<exists>r. mpwbuf_pack_anytype objlen h v b = Inr r \<and> emits b e r))"

lemma packsD:
  assumes "packs objlen h v e" "wb_ok b"
  obtains w b' where "mpwbuf_pack_anytype objlen h v b = Inr (w, b')" "emits b e (w, b')"
  using assms by (fastforce simp: packs_def)

lemma pack_array_emits:
  assumes "list_all2 (packs objlen h) (map (lua_rawgeti kvs) [i..<Suc n]) es" "wb_ok b"
  shows "\<exists>w b'. mpwbuf_pack_array objlen h kvs i n wl b = Inr (wl + w, b') \<and> emits b (concat es) (w, b')"
  using assms
proof (induction es arbitrary: i b wl rule: list.induct)
  case Nil
  have "n < i" using Nil.prems(1) by (simp split: if_splits)
  with Nil show ?case
    by (intro exI [of _ 0] exI [of _ b]) (simp add: mpwbuf_pack_array.simps [of _ _ _ i] emits_Nil)
next
  case (Cons e es)
  then have i: "i \<le> n" by (cases "i \<le> n") auto
  then have "[i..<Suc n] = i # [Suc i..<Suc n]" by (simp add: upt_conv_Cons)
  with Cons.prems(1) have e: "packs objlen h (lua_rawgeti kvs i) e"
    and es: "list_all2 (packs objlen h) (map (lua_rawgeti kvs) [Suc i..<Suc n]) es" by simp_all
  obtain w1 b1 where r1: "mpwbuf_pack_anytype objlen h (lua_rawgeti kvs i) b = Inr (w1, b1)"
    "emits b e (w1, b1)" by (rule packsD [OF e Cons.prems(2)])
  obtain w2 b2 where r2: "mpwbuf_pack_array objlen h kvs (Suc i) n (wl + w1) b1 = Inr (wl + w1 + w2, b2)"
    "emits b1 (concat es) (w2, b2)"
    using Cons.IH [OF es emits_wb_ok [OF r1(2)]] by blast
  show ?case
    using i r1(1) r2(1) emits_trans [OF Cons.prems(2) r1(2) r2(2)]
    by (intro exI [of _ "w1 + w2"] exI [of _ b2])
       (simp add: mpwbuf_pack_array.simps [of _ _ _ i] add.assoc)
qed

lemma pack_map_emits:
  assumes "list_all2 (packs objlen h) (entries_seq kvs) es" "wb_ok b"
  shows "\<exists>w b'. mpwbuf_pack_map objlen h kvs wl b = Inr (wl + w, b') \<and> emits b (concat es) (w, b')"
  using assms
proof (induction kvs arbitrary: es b wl rule: list.induct)
  case Nil
  then show ?case by (auto simp: entries_seq_def emits_Nil)
next
  case (Cons kv kvs)
  obtain k v where kv: "kv = (k, v)" by fastforce
  with Cons.prems(1) obtain ek ev es' where es: "es = ek # ev # es'"
    and ek: "packs objlen h k ek" and ev: "packs objlen h v ev"
    and es': "list_all2 (packs objlen h) (entries_seq kvs) es'"
    by (auto simp: entries_seq_def list_all2_Cons1)
  obtain w1 b1 where r1: "mpwbuf_pack_anytype objlen h k b = Inr (w1, b1)" "emits b ek (w1, b1)"
    by (rule packsD [OF ek Cons.prems(2)])
  obtain w2 b2 where r2: "mpwbuf_pack_anytype objlen h v b1 = Inr (w2, b2)" "emits b1 ev (w2, b2)"
    by (rule packsD [OF ev emits_wb_ok [OF r1(2)]])
  obtain w3 b3 where r3: "mpwbuf_pack_map objlen h kvs (wl + w1 + w2) b2 = Inr (wl + w1 + w2 + w3, b3)"
    "emits b2 (concat es') (w3, b3)"
    using Cons.IH [OF es' emits_wb_ok [OF r2(2)]] by blast
  have "emits b (ek @ ev @ concat es') (w1 + (w2 + w3), b3)"
    by (rule emits_trans [OF Cons.prems(2) r1(2) emits_trans [OF emits_wb_ok [OF r1(2)] r2(2) r3(2)]])
  then show ?case
    using r1(1) r2(1) r3(1) es kv
    by (intro exI [of _ "w1 + (w2 + w3)"] exI [of _ b3]) (simp add: add.assoc)
qed

lemma mp_encodes_packs: "mp_encodes objlen h v e \<Longrightarrow> packs objlen h v e"
proof (induction rule: mp_encodes.induct)
  case (enc_array kvs es)
  have es: "list_all2 (packs objlen h) (map (lua_rawgeti kvs) [1..<Suc (objlen kvs)]) es"
    using enc_array.IH by (rule list_all2_mono) simp
  show ?case
    unfolding packs_def
  proof (intro allI impI)
    fix b assume ok: "wb_ok b"
    obtain w b1 where hd: "mpwbuf_pack_header 0x90 0xdc 0xdd b (objlen kvs) = (w, b1)" by fastforce
    have "objlen kvs < 4294967295" using enc_array(2) by simp
    from emits_pack_header [OF ok this, of "0x90" "0xdc" "0xdd"]
    have em: "emits b (header_bytes 0x90 0xdc 0xdd (objlen kvs)) (w, b1)" by (simp only: hd)
    from pack_array_emits [OF es emits_wb_ok [OF em], where wl = w] obtain w2 b2 where
      "mpwbuf_pack_array objlen h kvs 1 (objlen kvs) w b1 = Inr (w + w2, b2)"
      "emits b1 (concat es) (w2, b2)" by blast
    with hd em enc_array(1,2)
    show "\<exists>r. mpwbuf_pack_anytype objlen h (LTable kvs) b = Inr r \<and>
        emits b (header_bytes 0x90 0xdc 0xdd (objlen kvs) @ concat es) r"
      by (auto simp: mpwbuf_pack_anytype.simps mpwbuf_pack_table.simps intro: emits_trans [OF ok])
  qed
next
  case (enc_map kvs es)
  have es: "list_all2 (packs objlen h) (entries_seq kvs) es"
    using enc_map.IH by (rule list_all2_mono) simp
  show ?case
    unfolding packs_def
  proof (intro allI impI)
    fix b assume ok: "wb_ok b"
    obtain w b1 where hd: "mpwbuf_pack_header 0x80 0xde 0xdf b (length kvs) = (w, b1)" by fastforce
    have "length kvs < 4294967295" using enc_map(2) by simp
    from emits_pack_header [OF ok this, of "0x80" "0xde" "0xdf"]
    have em: "emits b (header_bytes 0x80 0xde 0xdf (length kvs)) (w, b1)" by (simp only: hd)
    from pack_map_emits [OF es emits_wb_ok [OF em], where wl = w] obtain w2 b2 where
      "mpwbuf_pack_map objlen h kvs w b1 = Inr (w + w2, b2)"
      "emits b1 (concat es) (w2, b2)" by blast
    with hd em enc_map(1)
    show "\<exists>r. mpwbuf_pack_anytype objlen h (LTable kvs) b = Inr r \<and>
        emits b (header_bytes 0x80 0xde 0xdf (length kvs) @ concat es) r"
      by (auto simp: mpwbuf_pack_anytype.simps mpwbuf_pack_table.simps intro: emits_trans [OF ok])
  qed
qed (auto simp: packs_def mpwbuf_pack_anytype.simps mpwbuf_pack_nil_def mpwbuf_pack_boolean_def
      mpwbuf_pack_number_def emits_pack_string)

end
