(* ===== verification/Lev_MemSlice.thy ===== *)
theory Lev_MemSlice
  imports Lua_Value
begin

text \<open>
  The helper functions of \<open>src/lev_new_buffer.c\<close> on slices of slab blocks: making a slice of a
  block (\<open>lev_pushbuffer_from_mb\<close>), cutting a new buffer off the current shared block
  (\<open>lev_buffer_new\<close>), and the growing slice the JSON encoder writes to (\<open>lev_memslice_resize\<close>
  and the appends). The state is the slab extended by the static block pointers of
  \<open>lev_new_buffer.c\<close> and \<open>lev_new_base.c\<close>.
\<close>

record lev_heap = slab +
  buf_static_mb :: "addr option"
  net_static_mb :: "addr option"

section \<open>Slices of a block\<close>

text \<open>
  The slice argument is an offset from \<open>mb->bytes\<close>, \<open>None\<close> standing for the null pointer. A length of 0 is
  replaced by the number of used bytes of the block, or by its size when none is used.
\<close>

definition lev_pushbuffer_from_mb ::
    "addr option \<Rightarrow> nat \<Rightarrow> nat option \<Rightarrow> 'a slab_scheme \<Rightarrow> (MemSlice \<times> 'a slab_scheme) res" where
  "lev_pushbuffer_from_mb mb until sl h =
     bind_res (lev_slab_incRef mb h) (\<lambda>(_, h').
       bind_res (deref h' mb) (\<lambda>b.
         Inr (\<lparr>ms_mb = the mb,
               ms_slice = (case sl of None \<Rightarrow> 0 | Some off \<Rightarrow> off),
               ms_until = (if until = 0 then (if mb_nbytes b = 0 then mb_size b else mb_nbytes b)
                           else until)\<rparr>, h')))"

text \<open>The bytes of a slice.\<close>

definition slice_bytes :: "'a slab_scheme \<Rightarrow> MemSlice \<Rightarrow> byte list res" where
  "slice_bytes h ms = block_read h (ms_mb ms) (ms_slice ms) (ms_until ms)"

text \<open>
  The first lines of \<open>lev_buffer_new\<close>: the shared block is replaced when it has no room.
\<close>

definition lev_buffer_block :: "nat \<Rightarrow> 'a lev_heap_scheme \<Rightarrow> 'a lev_heap_scheme res" where
  "lev_buffer_block sz h =
     (case buf_static_mb h of
        Some a \<Rightarrow>
          bind_res (deref h (Some a)) (\<lambda>b.
            if sz_sub (mb_size b) (mb_nbytes b) < sz
            then bind_res (lev_slab_decRef (Some a) h) (\<lambda>(_, h1).
                   case lev_slab_getBlock sz h1 of (p, h2) \<Rightarrow> Inr (h2\<lparr>buf_static_mb := p\<rparr>))
            else Inr h)
      | None \<Rightarrow> (case lev_slab_getBlock sz h of (p, h2) \<Rightarrow> Inr (h2\<lparr>buf_static_mb := p\<rparr>)))"

text \<open>
  A buffer of exactly the block's size takes the block for itself. The bytes come from \<open>temp\<close> (at
  most \<open>size\<close> of them) or are zeroed.
\<close>

definition lev_buffer_new ::
    "nat \<Rightarrow> byte list option \<Rightarrow> nat \<Rightarrow> 'a lev_heap_scheme \<Rightarrow> (MemSlice \<times> 'a lev_heap_scheme) res" where
  "lev_buffer_new sz temp temp_size h =
     bind_res (lev_buffer_block sz h)
       (\<lambda>h1. let mb = buf_static_mb h1 in
         bind_res (deref h1 mb) (\<lambda>b.
         bind_res
           (if sz \<noteq> mb_size b then
              (if mb_refcount b = 0
               then bind_res (lev_slab_incRef mb h1) (\<lambda>(_, h2). Inr h2) else Inr h1)
            else Inr (h1\<lparr>buf_static_mb := None\<rparr>))
           (\<lambda>h2.
         bind_res (lev_pushbuffer_from_mb mb sz (Some (mb_nbytes b)) h2) (\<lambda>(ms, h3).
         bind_res
           (case temp of
              Some src \<Rightarrow>
                (let ts = (if temp_size = 0 then sz else temp_size);
                     n = (if ts < sz then ts else sz)
                 in if n \<le> length src then block_write (the mb) (mb_nbytes b) (take n src) h3
                    else Inl (Undefined ''read past the source''))
            | None \<Rightarrow> block_write (the mb) (mb_nbytes b) (replicate sz 0) h3)
           (\<lambda>h4.
         bind_res (deref h4 mb) (\<lambda>b4.
         Inr (ms, put_block (the mb) (b4\<lparr>mb_nbytes := mb_nbytes b4 + sz\<rparr>) h4)))))))"

section \<open>Growing slices\<close>

definition lev_memblock_empty_length :: "MemBlock \<Rightarrow> nat" where
  "lev_memblock_empty_length b = sz_sub (sz_sub (mb_size b) (mb_nbytes b)) 1"

definition lev_memslice_empty_length :: "MemSlice \<Rightarrow> nat" where
  "lev_memslice_empty_length ms = sz_sub (ms_until ms) 1"

text \<open>
  The in-place case adds the whole new length to \<open>nbytes\<close>, not the growth. \<open>size\<close> here is the
  length with the terminating null byte.
\<close>

definition lev_memslice_resize ::
    "MemSlice \<Rightarrow> nat \<Rightarrow> 'a slab_scheme \<Rightarrow> (MemSlice \<times> 'a slab_scheme) res" where
  "lev_memslice_resize ms size0 h =
     (if size0 \<le> lev_memslice_empty_length ms then Inr (ms, h)
      else
        let sz = size0 + 1 in
        bind_res (deref h (Some (ms_mb ms))) (\<lambda>b.
          if ms_slice ms + ms_until ms = mb_nbytes b \<and>
             sz \<le> ms_until ms + sz_sub (mb_size b) (mb_nbytes b)
          then Inr (ms\<lparr>ms_until := sz\<rparr>, put_block (ms_mb ms) (b\<lparr>mb_nbytes := mb_nbytes b + sz\<rparr>) h)
          else
            case lev_slab_getBlock sz h of (p, h1) \<Rightarrow>
            bind_res (lev_slab_incRef p h1) (\<lambda>(_, h2).
            bind_res (block_read h2 (ms_mb ms) (ms_slice ms) (ms_until ms)) (\<lambda>old.
            bind_res (block_write (the p) 0 old h2) (\<lambda>h3.
            bind_res (lev_slab_decRef (Some (ms_mb ms)) h3) (\<lambda>(_, h4).
            bind_res (deref h4 p) (\<lambda>b4.
              Inr (\<lparr>ms_mb = the p, ms_slice = 0, ms_until = sz\<rparr>,
                   put_block (the p) (b4\<lparr>mb_nbytes := mb_nbytes b4 + sz\<rparr>) h4))))))))"

text \<open>
  The length is passed as an \<open>int\<close>: its low 32 bits as a signed number, converted back to \<open>size_t\<close> by the
  comparison and by the call. Below 2^31 that is the length itself.
\<close>

definition to_size_t :: "int \<Rightarrow> nat" where
  "to_size_t k = nat (k mod 2 ^ 64)"

definition lev_memslice_ensure_empty_length ::
    "MemSlice \<Rightarrow> nat \<Rightarrow> 'a slab_scheme \<Rightarrow> (MemSlice \<times> 'a slab_scheme) res" where
  "lev_memslice_ensure_empty_length ms len h =
     (let n = to_size_t (to_int (int len)) in
      if lev_memslice_empty_length ms < n then lev_memslice_resize ms n h else Inr (ms, h))"

lemma ensure_empty_length_eq:
  assumes "len < 2147483648"
  shows "lev_memslice_ensure_empty_length ms len h =
     (if lev_memslice_empty_length ms < len then lev_memslice_resize ms len h else Inr (ms, h))"
proof -
  have "to_int (int len) = int len" by (rule to_int_nat [OF assms])
  moreover have "to_size_t (int len) = len"
    using assms unfolding to_size_t_def by (subst mod_pos_pos_trivial) simp_all
  ultimately show ?thesis by (simp only: lev_memslice_ensure_empty_length_def Let_def)
qed

text \<open>\<open>ms->slice[pos] = c\<close>, and the \<open>memcpy\<close> of several bytes to \<open>ms->slice + pos\<close>.\<close>

definition slice_store :: "MemSlice \<Rightarrow> nat \<Rightarrow> byte list \<Rightarrow> 'a slab_scheme \<Rightarrow> 'a slab_scheme res" where
  "slice_store ms pos cs h = block_write (ms_mb ms) (ms_slice ms + pos) cs h"

definition lev_memslice_append_char_unsafe ::
    "MemSlice \<Rightarrow> nat \<Rightarrow> byte \<Rightarrow> 'a slab_scheme \<Rightarrow> (MemSlice \<times> 'a slab_scheme) res" where
  "lev_memslice_append_char_unsafe ms pos c h = bind_res (slice_store ms pos [c] h) (\<lambda>h'. Inr (ms, h'))"

definition lev_memslice_ensure_null ::
    "MemSlice \<Rightarrow> nat \<Rightarrow> 'a slab_scheme \<Rightarrow> (MemSlice \<times> 'a slab_scheme) res" where
  "lev_memslice_ensure_null ms pos h = bind_res (slice_store ms pos [0] h) (\<lambda>h'. Inr (ms, h'))"

definition lev_memslice_append_char ::
    "MemSlice \<Rightarrow> nat \<Rightarrow> byte \<Rightarrow> 'a slab_scheme \<Rightarrow> (MemSlice \<times> 'a slab_scheme) res" where
  "lev_memslice_append_char ms pos c h =
     bind_res (lev_memslice_ensure_empty_length ms (pos + 1) h) (\<lambda>(ms', h').
       bind_res (slice_store ms' pos [c] h') (\<lambda>h''. Inr (ms', h'')))"

definition lev_memslice_append_mem ::
    "MemSlice \<Rightarrow> nat \<Rightarrow> byte list \<Rightarrow> 'a slab_scheme \<Rightarrow> (MemSlice \<times> 'a slab_scheme) res" where
  "lev_memslice_append_mem ms pos cs h =
     bind_res (lev_memslice_ensure_empty_length ms (pos + length cs) h) (\<lambda>(ms', h').
       bind_res (slice_store ms' pos cs h') (\<lambda>h''. Inr (ms', h'')))"

definition lev_memslice_append_mem_unsafe ::
    "MemSlice \<Rightarrow> nat \<Rightarrow> byte list \<Rightarrow> 'a slab_scheme \<Rightarrow> (MemSlice \<times> 'a slab_scheme) res" where
  "lev_memslice_append_mem_unsafe ms pos cs h = bind_res (slice_store ms pos cs h) (\<lambda>h'. Inr (ms, h'))"

text \<open>
  The loop of \<open>lev_memslice_append_string\<close> over the bytes left of the string: \<open>i\<close> characters are
  done, \<open>space\<close> is what the loop believes is free. The resize asks for \<open>i + 1\<close> bytes, whatever
  position the string started at.
\<close>

fun append_string_loop ::
    "MemSlice \<Rightarrow> nat \<Rightarrow> nat \<Rightarrow> nat \<Rightarrow> byte list \<Rightarrow> 'a slab_scheme \<Rightarrow> (nat \<times> MemSlice \<times> 'a slab_scheme) res" where
  "append_string_loop ms pos i space [] h = Inr (i, ms, h)"
| "append_string_loop ms pos i space (c # cs) h =
     bind_res
       (if space < 1
        then bind_res (lev_memslice_resize ms (i + 1) h) (\<lambda>(ms', h').
               Inr (lev_memslice_empty_length ms', ms', h'))
        else Inr (space, ms, h))
       (\<lambda>(space', ms', h').
         bind_res (slice_store ms' (pos + i) [c] h') (\<lambda>h''.
           append_string_loop ms' pos (Suc i) (sz_sub space' 1) cs h''))"

text \<open>The string is a C string: it ends at its first null byte. The result is the length written.\<close>

definition lev_memslice_append_string ::
    "MemSlice \<Rightarrow> nat \<Rightarrow> byte list \<Rightarrow> 'a slab_scheme \<Rightarrow> (nat \<times> MemSlice \<times> 'a slab_scheme) res" where
  "lev_memslice_append_string ms pos str h =
     append_string_loop ms pos 0 (lev_memslice_empty_length ms) (takeWhile (\<lambda>c. c \<noteq> 0) str) h"

section \<open>What a slice must satisfy\<close>

text \<open>
  A slice is in use when its block is referenced and the slice lies inside the block.
\<close>

definition memslice_ok :: "'a slab_scheme \<Rightarrow> MemSlice \<Rightarrow> bool" where
  "memslice_ok h ms \<longleftrightarrow> 0 < refs h (ms_mb ms) \<and>
     (\<exists>b. blocks h (ms_mb ms) = Some b \<and> ms_slice ms + ms_until ms \<le> mb_size b)"

lemma memslice_okE:
  assumes "memslice_ok h ms"
  obtains b where "blocks h (ms_mb ms) = Some b" "0 < mb_refcount b" "refs h (ms_mb ms) = mb_refcount b"
    "ms_slice ms + ms_until ms \<le> mb_size b"
  using assms by (auto simp: memslice_ok_def refs_def)

lemma memslice_okI:
  assumes "blocks h (ms_mb ms) = Some b" "0 < mb_refcount b" "ms_slice ms + ms_until ms \<le> mb_size b"
  shows "memslice_ok h ms"
  using assms by (auto simp: memslice_ok_def refs_def)

text \<open>The bytes of a slice in use, as a total function.\<close>

definition slice_mem :: "'a slab_scheme \<Rightarrow> MemSlice \<Rightarrow> nat \<Rightarrow> byte" where
  "slice_mem h ms i = (case blocks h (ms_mb ms) of None \<Rightarrow> 0 | Some b \<Rightarrow> mb_bytes b (ms_slice ms + i))"

lemma slice_bytes_ok:
  "memslice_ok h ms \<Longrightarrow> slice_bytes h ms = Inr (map (slice_mem h ms) [0..<ms_until ms])"
  by (erule memslice_okE)
     (simp add: slice_bytes_def block_read_def deref_def slice_mem_def [abs_def] mem_read_def,
      rule nth_equalityI, simp_all)

lemma lev_pushbuffer_from_mb_ok:
  assumes "slab_ok h" "blocks h a = Some b" "\<not> pooled h a"
  obtains ms h' where "lev_pushbuffer_from_mb (Some a) until sl h = Inr (ms, h')" "slab_ok h'"
    "h' = put_block a (b\<lparr>mb_refcount := mb_refcount b + 1\<rparr>) h"
    "ms = \<lparr>ms_mb = a, ms_slice = (case sl of None \<Rightarrow> 0 | Some off \<Rightarrow> off),
           ms_until = (if until = 0 then (if mb_nbytes b = 0 then mb_size b else mb_nbytes b) else until)\<rparr>"
  by (rule incRef_block [OF assms], rule that)
     (simp_all add: lev_pushbuffer_from_mb_def deref_def put_block_def)

section \<open>Storing into a slice and growing it\<close>

lemma slice_store_ok:
  assumes "slab_ok h" "memslice_ok h ms" "pos + length cs \<le> ms_until ms"
  obtains h' where "slice_store ms pos cs h = Inr h'" "slab_ok h'" "memslice_ok h' ms"
    "refs h' = refs h" "\<And>x. x \<noteq> ms_mb ms \<Longrightarrow> blocks h' x = blocks h x"
    "slice_mem h' ms = mem_write (slice_mem h ms) pos cs" "pooled h' = pooled h"
proof -
  obtain b where b: "blocks h (ms_mb ms) = Some b" "0 < mb_refcount b"
    "refs h (ms_mb ms) = mb_refcount b" "ms_slice ms + ms_until ms \<le> mb_size b"
    by (rule memslice_okE [OF assms(2)])
  let ?b = "b\<lparr>mb_bytes := mem_write (mb_bytes b) (ms_slice ms + pos) cs\<rparr>"
  have np: "\<not> pooled h (ms_mb ms)"
    using referenced_not_pooled [OF assms(1)] b by simp
  have "slice_store ms pos cs h = Inr (put_block (ms_mb ms) ?b h)"
    using b assms(3) by (simp add: slice_store_def block_write_def deref_def)
  moreover have "slab_ok (put_block (ms_mb ms) ?b h)"
    using slab_okD(6,7) [OF assms(1) b(1)] by (intro slab_ok_put_block [OF assms(1) b(1) np]) simp_all
  moreover have "slice_mem (put_block (ms_mb ms) ?b h) ms = mem_write (slice_mem h ms) pos cs"
    using b by (auto simp: slice_mem_def put_block_def mem_write_def fun_eq_iff)
  ultimately show thesis
    using b by (intro that [of "put_block (ms_mb ms) ?b h"] pooled_put_block)
      (auto simp: put_block_def memslice_ok_def refs_def fun_eq_iff)
qed

text \<open>
  \<open>lev_memslice_resize\<close> succeeds up to the largest class: afterwards the slice has room for
  \<open>size\<close> bytes and a null byte and keeps its bytes, the caller owns one reference to its block,
  and no other block in use is touched.
\<close>

definition grown :: "MemSlice \<Rightarrow> 'a slab_scheme \<Rightarrow> nat \<Rightarrow> MemSlice \<times> 'a slab_scheme \<Rightarrow> bool" where
  "grown ms h n r \<longleftrightarrow> (case r of (ms', h') \<Rightarrow>
     slab_ok h' \<and> memslice_ok h' ms' \<and> n < ms_until ms' \<and> ms_until ms \<le> ms_until ms' \<and>
     (if n < ms_until ms then ms' = ms \<and> h' = h else ms_until ms' = n + 1) \<and>
     (\<forall>i < ms_until ms. slice_mem h' ms' i = slice_mem h ms i) \<and>
     (\<forall>x. x \<noteq> ms_mb ms \<longrightarrow> 0 < refs h x \<longrightarrow> x \<noteq> ms_mb ms' \<and> blocks h' x = blocks h x) \<and>
     (ms_mb ms' \<noteq> ms_mb ms \<longrightarrow> refs h' (ms_mb ms') = 1 \<and> refs h' (ms_mb ms) = refs h (ms_mb ms) - 1) \<and>
     (ms_mb ms' = ms_mb ms \<longrightarrow> refs h' (ms_mb ms) = refs h (ms_mb ms)) \<and>
     (\<forall>x. x \<noteq> ms_mb ms \<longrightarrow> x \<noteq> ms_mb ms' \<longrightarrow> refs h' x = refs h x) \<and>
     (ms_mb ms' \<noteq> ms_mb ms \<longrightarrow> refs h (ms_mb ms') = 0))"

lemma resize_in_place:
  assumes "slab_ok h" "memslice_ok h ms" "0 < ms_until ms" "lev_memslice_empty_length ms < n"
    and "blocks h (ms_mb ms) = Some b" "ms_slice ms + ms_until ms = mb_nbytes b"
    and "n + 1 \<le> ms_until ms + sz_sub (mb_size b) (mb_nbytes b)"
  shows "\<exists>r. lev_memslice_resize ms n h = Inr r \<and> grown ms h n r"
proof -
  let ?h = "put_block (ms_mb ms) (b\<lparr>mb_nbytes := mb_nbytes b + (n + 1)\<rparr>) h"
  let ?ms = "ms\<lparr>ms_until := n + 1\<rparr>"
  have b: "0 < mb_refcount b" "ms_slice ms + ms_until ms \<le> mb_size b"
    using memslice_okE [OF assms(2)] assms(5) by auto
  have np: "\<not> pooled h (ms_mb ms)"
    using referenced_not_pooled [OF assms(1)] assms(2) by (auto simp: memslice_ok_def)
  have "slab_ok ?h"
    using slab_okD(6,7) [OF assms(1,5)] by (intro slab_ok_put_block [OF assms(1,5) np]) simp_all
  moreover have "memslice_ok ?h ?ms"
    using assms(3-7) b
    by (intro memslice_okI [where b = "b\<lparr>mb_nbytes := mb_nbytes b + (n + 1)\<rparr>"]) (simp_all add: put_block_def)
  moreover have "lev_memslice_resize ms n h = Inr (?ms, ?h)"
    unfolding lev_memslice_resize_def Let_def deref_def
    using assms(4) by (simp only: assms(5) if_P [OF conjI [OF assms(6,7)]] if_not_P not_le option.case bind_res_simps)
  ultimately show ?thesis
    using assms(3,4,5)
    by (intro exI [of _ "(?ms, ?h)"])
       (auto simp: grown_def put_block_def refs_def slice_mem_def lev_memslice_empty_length_def)
qed

lemma resize_moves:
  assumes "slab_ok h" "memslice_ok h ms" "0 < ms_until ms" "lev_memslice_empty_length ms < n" "n < 1024 * 1024"
    and "blocks h (ms_mb ms) = Some b"
    and "\<not> (ms_slice ms + ms_until ms = mb_nbytes b \<and> n + 1 \<le> ms_until ms + sz_sub (mb_size b) (mb_nbytes b))"
  shows "\<exists>r. lev_memslice_resize ms n h = Inr r \<and> grown ms h n r"
proof -
  have b: "0 < mb_refcount b" "ms_slice ms + ms_until ms \<le> mb_size b" "refs h (ms_mb ms) = mb_refcount b"
    using memslice_okE [OF assms(2)] assms(6) by auto
  obtain p h1 where g: "lev_slab_getBlock (n + 1) h = (Some p, h1)"
    using getBlock_None_iff [of "n + 1" h] assms(5) by (cases "lev_slab_getBlock (n + 1) h") auto
  note gb = getBlock_Some [OF assms(1) g]
  obtain c old where pb: "n + 1 \<le> class_size c" "blocks h1 p = Some \<lparr>mb_allocator = c, mb_refcount = 0,
      mb_size = class_size c, mb_nbytes = 0, mb_bytes = old\<rparr>" using gb(5) by blast
  have ne: "p \<noteq> ms_mb ms" using gb(2) b by auto
  have mb1: "blocks h1 (ms_mb ms) = Some b" using gb(4) [of "ms_mb ms"] ne assms(6) by simp
  obtain h2 where h2: "lev_slab_incRef (Some p) h1 = Inr (1, h2)" "slab_ok h2"
      "h2 = put_block p \<lparr>mb_allocator = c, mb_refcount = 1, mb_size = class_size c, mb_nbytes = 0, mb_bytes = old\<rparr> h1"
    by (rule incRef_block [OF gb(1) pb(2) gb(3)]) simp
  define bytes where "bytes = mem_read (mb_bytes b) (ms_slice ms) (ms_until ms)"
  define h3 where "h3 = put_block p \<lparr>mb_allocator = c, mb_refcount = 1, mb_size = class_size c, mb_nbytes = 0,
      mb_bytes = mem_write old 0 bytes\<rparr> h2"
  have u: "ms_until ms \<le> n" using assms(3,4) by (simp add: lev_memslice_empty_length_def)
  have rd: "block_read h2 (ms_mb ms) (ms_slice ms) (ms_until ms) = Inr bytes"
    using mb1 ne b by (simp add: block_read_def deref_def h2 put_block_def bytes_def)
  have wr: "block_write p 0 bytes h2 = Inr h3"
    using u pb(1) by (simp add: block_write_def deref_def h2 h3_def put_block_def bytes_def)
  have ok3: "slab_ok h3"
    unfolding h3_def using gb(3)
    by (intro slab_ok_put_block [OF h2(2)]) (simp_all add: h2(3) put_block_def pooled_def)
  have refs3: "refs h3 (ms_mb ms) = mb_refcount b"
    using mb1 ne by (simp add: refs_def h3_def h2 put_block_def)
  obtain r h4 where d: "lev_slab_decRef (Some (ms_mb ms)) h3 = Inr (r, h4)" "slab_ok h4"
      "refs h4 (ms_mb ms) = mb_refcount b - 1" "\<And>x. x \<noteq> ms_mb ms \<Longrightarrow> blocks h4 x = blocks h3 x"
      "\<And>x. x \<noteq> ms_mb ms \<Longrightarrow> pooled h4 x = pooled h3 x"
    by (rule decRef_ok [OF ok3, of "ms_mb ms", where k = 1]) (use refs3 b in auto)
  let ?b5 = "\<lparr>mb_allocator = c, mb_refcount = 1, mb_size = class_size c, mb_nbytes = n + 1,
      mb_bytes = mem_write old 0 bytes\<rparr>"
  let ?h5 = "put_block p ?b5 h4"
  let ?ms = "\<lparr>ms_mb = p, ms_slice = 0, ms_until = n + 1\<rparr>"
  have p4: "blocks h4 p = Some \<lparr>mb_allocator = c, mb_refcount = 1, mb_size = class_size c, mb_nbytes = 0,
      mb_bytes = mem_write old 0 bytes\<rparr>"
    using d(4) [of p] ne by (simp add: h3_def put_block_def)
  have np4: "\<not> pooled h4 p"
    using d(5) [of p] ne gb(3) by (simp add: h3_def h2)
  have "slab_ok ?h5" by (intro slab_ok_put_block [OF d(2) p4 np4]) simp_all
  moreover have "memslice_ok ?h5 ?ms" using pb(1) by (intro memslice_okI) (auto simp: put_block_def)
  moreover have "blocks ?h5 x = blocks h x" "x \<noteq> p" if "x \<noteq> ms_mb ms" "0 < refs h x" for x
  proof -
    show "x \<noteq> p" using that gb(2) by auto
    with that gb(4) [of x] d(4) [of x] show "blocks ?h5 x = blocks h x"
      by (simp add: put_block_def h3_def h2)
  qed
  moreover have "slice_mem ?h5 ?ms i = slice_mem h ms i" if "i < ms_until ms" for i
    using that assms(6) by (simp add: slice_mem_def put_block_def mem_write_def bytes_def)
  moreover have "refs ?h5 x = refs h x" if "x \<noteq> ms_mb ms" "x \<noteq> p" for x
    using that gb(4) [of x] d(4) [of x] by (simp add: refs_def put_block_def h3_def h2)
  moreover have "lev_memslice_resize ms n h = Inr (?ms, ?h5)"
    unfolding lev_memslice_resize_def Let_def deref_def
    using assms(4) by (simp only: assms(6) if_not_P [OF assms(7)] if_not_P not_le option.case bind_res_simps
      prod.case g h2(1) rd option.sel wr d(1) p4 MemBlock.simps add_0)
  ultimately show ?thesis
    using d(3) ne b(3) u gb(2)
    by (intro exI [of _ "(?ms, ?h5)"]) (auto simp: grown_def refs_def put_block_def)
qed

lemma lev_memslice_resize_grown:
  assumes "slab_ok h" "memslice_ok h ms" "0 < ms_until ms" "n < 1024 * 1024"
  shows "\<exists>r. lev_memslice_resize ms n h = Inr r \<and> grown ms h n r"
proof (cases "n \<le> lev_memslice_empty_length ms")
  case True
  with assms show ?thesis
    by (intro exI [of _ "(ms, h)"])
       (auto simp: lev_memslice_resize_def grown_def lev_memslice_empty_length_def)
next
  case False
  then have lt: "lev_memslice_empty_length ms < n" by simp
  obtain b where b: "blocks h (ms_mb ms) = Some b" using memslice_okE [OF assms(2)] .
  show ?thesis
  proof (cases "ms_slice ms + ms_until ms = mb_nbytes b \<and> n + 1 \<le> ms_until ms + sz_sub (mb_size b) (mb_nbytes b)")
    case True
    with resize_in_place [OF assms(1-3) lt b] show ?thesis by blast
  next
    case False
    with resize_moves [OF assms(1-3) lt assms(4) b] show ?thesis by blast
  qed
qed

lemma lev_memslice_ensure_grown:
  assumes "slab_ok h" "memslice_ok h ms" "0 < ms_until ms" "n < 1024 * 1024"
  shows "\<exists>r. lev_memslice_ensure_empty_length ms n h = Inr r \<and> grown ms h n r"
  using lev_memslice_resize_grown [OF assms] assms
  by (auto simp: ensure_empty_length_eq lev_memslice_resize_def)

end
