(* ===== verification/Mpack_Read.thy ===== *)
theory Mpack_Read
  imports Mpack_Write Lev_MemSlice "HOL-Library.Sublist"
begin

text \<open>
  The one-shot MessagePack reader of \<open>src/lev_mpack.c\<close> (\<open>mprbuf_init\<close> to
  \<open>mprbuf_unpack_anytype\<close>). It reads a buffer from left to right and pushes the value on the Lua
  stack, so the model threads the read buffer, the stack (the top at the head) and the heap. The
  recursion into containers is bounded by fuel; one unit per byte left is enough
  (\<open>unpack_no_fuel_error\<close>).
\<close>

text \<open>
  \<open>rb_data\<close> holds the bytes from \<open>data\<close> to the end of the memory object it points into, which is
  at least \<open>rb_len\<close> bytes when the caller passes a slice inside its block; \<open>rb_base\<close> is the offset of
  \<open>data\<close> in \<open>mb->bytes\<close>.
\<close>

record mprbuf =
  rb_mb :: "addr option"
  rb_base :: nat
  rb_data :: "byte list"
  rb_ofs :: nat
  rb_len :: nat
  rb_err :: "32 word"
  rb_map_keying :: bool

definition mprbuf_init :: "byte list \<Rightarrow> nat \<Rightarrow> mprbuf" where
  "mprbuf_init p len = \<lparr>rb_mb = None, rb_base = 0, rb_data = p, rb_ofs = 0, rb_len = len, rb_err = 0,
     rb_map_keying = False\<rparr>"

text \<open>The assertion compares addresses in the block: \<open>p\<close> is the offset \<open>off\<close>.\<close>

definition mprbuf_mb_init :: "addr \<Rightarrow> nat \<Rightarrow> nat \<Rightarrow> 'a slab_scheme \<Rightarrow> mprbuf res" where
  "mprbuf_mb_init mb off len h =
     bind_res (deref h (Some mb)) (\<lambda>b.
       if off \<le> mb_size b \<and> len \<le> mb_size b then
         Inr \<lparr>rb_mb = Some mb, rb_base = off, rb_data = mem_read (mb_bytes b) off (mb_size b - off),
              rb_ofs = 0, rb_len = len, rb_err = 0, rb_map_keying = False\<rparr>
       else Inl Assert_failed)"

definition mprbuf_left :: "mprbuf \<Rightarrow> nat" where
  "mprbuf_left b = sz_sub (rb_len b) (rb_ofs b)"

text \<open>\<open>mp_rcopy\<close> reverses the bytes; a float or double is loaded from the result.\<close>

definition mp_rcopy :: "byte list \<Rightarrow> byte list" where
  "mp_rcopy from = rev from"

text \<open>Loading \<open>n\<close> bytes at \<open>data + ofs\<close>: past the end of the object it is undefined.\<close>

definition rb_load :: "mprbuf \<Rightarrow> nat \<Rightarrow> byte list res" where
  "rb_load b n =
     (if rb_ofs b + n \<le> length (rb_data b) then Inr (take n (drop (rb_ofs b) (rb_data b)))
      else Inl (Undefined ''read past the buffer''))"

definition rb_skip :: "nat \<Rightarrow> mprbuf \<Rightarrow> mprbuf" where
  "rb_skip n b = b\<lparr>rb_ofs := rb_ofs b + n\<rparr>"

definition rb_fail :: "mprbuf \<Rightarrow> mprbuf" where
  "rb_fail b = b\<lparr>rb_err := rb_err b OR 1\<rparr>"

type_synonym 'a rstate = "mprbuf \<times> lval list \<times> 'a slab_scheme"

section \<open>Values that are not containers\<close>

text \<open>
  A number of \<open>n\<close> bytes of payload, of which the code loads \<open>m\<close> (\<open>*(long*)\<close> loads 8 bytes for the
  32-bit forms); \<open>conv\<close> is what it pushes.
\<close>

definition unpack_number :: "nat \<Rightarrow> nat \<Rightarrow> (byte list \<Rightarrow> lua_Number) \<Rightarrow> 'a rstate \<Rightarrow> 'a rstate res" where
  "unpack_number n m conv = (\<lambda>(b, stk, h).
     if n \<le> mprbuf_left b
     then bind_res (rb_load b m) (\<lambda>s. Inr (rb_skip n b, LNumber (conv (take n s)) # stk, h))
     else Inr (rb_fail b, stk, h))"

text \<open>A string of \<open>slen\<close> bytes: a Lua string for a key or when there is no block, else a slice.\<close>

definition unpack_raw :: "nat \<Rightarrow> 'a rstate \<Rightarrow> 'a rstate res" where
  "unpack_raw slen = (\<lambda>(b, stk, h).
     if mprbuf_left b < slen then Inr (rb_fail b, stk, h)
     else if rb_map_keying b \<or> rb_mb b = None
       then bind_res (rb_load b slen) (\<lambda>s. Inr (rb_skip slen b, LString s # stk, h))
     else bind_res (lev_pushbuffer_from_mb (rb_mb b) slen (Some (rb_base b + rb_ofs b)) h)
            (\<lambda>(ms, h'). Inr (rb_skip slen b, LBuffer ms # stk, h')))"

text \<open>A big-endian count of \<open>n\<close> bytes and what follows it.\<close>

definition with_count :: "nat \<Rightarrow> (nat \<Rightarrow> 'a rstate \<Rightarrow> 'a rstate res) \<Rightarrow> 'a rstate \<Rightarrow> 'a rstate res" where
  "with_count n f = (\<lambda>(b, stk, h).
     if n \<le> mprbuf_left b
     then bind_res (rb_load b n) (\<lambda>s. f (be_val s) (rb_skip n b, stk, h))
     else Inr (rb_fail b, stk, h))"

lemma with_count_cong [fundef_cong]:
  assumes "n = n'" "st = st'"
    and "\<And>b stk h s. st' = (b, stk, h) \<Longrightarrow> n' \<le> mprbuf_left b \<Longrightarrow> rb_load b n' = Inr s \<Longrightarrow>
          f (be_val s) (rb_skip n' b, stk, h) = g (be_val s) (rb_skip n' b, stk, h)"
  shows "with_count n f st = with_count n' g st'"
  using assms by (auto simp: with_count_def split: prod.splits intro!: bind_res_cong)

definition signed_be :: "nat \<Rightarrow> byte list \<Rightarrow> lua_Number" where
  "signed_be w s = dbl_of_int (to_signed w (int (be_val s)))"

definition unsigned_be :: "byte list \<Rightarrow> lua_Number" where
  "unsigned_be s = dbl_of_int (int (be_val s))"

text \<open>
  The cases of \<open>mprbuf_unpack_anytype\<close> that push one scalar, after the top byte \<open>t\<close>.
\<close>

definition unpack_scalar :: "nat \<Rightarrow> 'a rstate \<Rightarrow> 'a rstate res" where
  "unpack_scalar t st =
     (case st of (b, stk, h) \<Rightarrow>
      if t < 0x80 then Inr (b, lua_int (int t) # stk, h)
      else if 0xa0 \<le> t \<and> t \<le> 0xbf then unpack_raw (t mod 32) st
      else if 0xdf < t then Inr (b, lua_int ((256 - int t) * -1) # stk, h)
      else if t = 0xc0 then Inr (b, LNil # stk, h)
      else if t = 0xc2 then Inr (b, LBoolean False # stk, h)
      else if t = 0xc3 then Inr (b, LBoolean True # stk, h)
      else if t = 0xca then unpack_number 4 4 (\<lambda>s. dbl_of_float (word_of_nat (be_val s))) st
      else if t = 0xcb then unpack_number 8 8 (\<lambda>s. word_of_nat (be_val s)) st
      else if t = 0xcc then unpack_number 1 1 unsigned_be st
      else if t = 0xcd then unpack_number 2 2 unsigned_be st
      else if t = 0xce then unpack_number 4 8 unsigned_be st
      else if t = 0xcf then unpack_number 8 8 unsigned_be st
      else if t = 0xd0 then unpack_number 1 1 (signed_be 8) st
      else if t = 0xd1 then unpack_number 2 2 (signed_be 16) st
      else if t = 0xd2 then unpack_number 4 8 (signed_be 32) st
      else if t = 0xd3 then unpack_number 8 8 (signed_be 64) st
      else if t = 0xda then with_count 2 unpack_raw st
      else if t = 0xdb then with_count 4 unpack_raw st
      else Inr (rb_fail b, stk, h))"

section \<open>Containers\<close>

text \<open>
  \<open>lua_rawseti(L, -2, i)\<close> and \<open>lua_rawset(L, -3)\<close>: the table is found by its position, whatever is
  there.
\<close>

definition stack_rawseti :: "nat \<Rightarrow> lval list \<Rightarrow> lval list res" where
  "stack_rawseti i stk =
     (case stk of
        v # LTable kvs # rest \<Rightarrow> Inr (LTable (lua_rawseti kvs i v) # rest)
      | _ \<Rightarrow> Inl (Undefined ''lua_rawseti on something that is no table''))"

definition stack_rawset :: "lval list \<Rightarrow> lval list res" where
  "stack_rawset stk =
     (case stk of
        v # k # LTable kvs # rest \<Rightarrow> bind_res (lua_rawset kvs k v) (\<lambda>kvs'. Inr (LTable kvs' # rest))
      | _ \<Rightarrow> Inl (Undefined ''lua_rawset on something that is no table''))"

definition set_keying :: "bool \<Rightarrow> 'a rstate \<Rightarrow> 'a rstate" where
  "set_keying k = (\<lambda>(b, st). (b\<lparr>rb_map_keying := k\<rparr>, st))"

definition push_table :: "'a rstate \<Rightarrow> 'a rstate" where
  "push_table = (\<lambda>(b, stk, h). (b, LTable [] # stk, h))"

text \<open>
  The array loop stops at the first error. The map loop does not look at \<open>err\<close>. \<open>i\<close> counts from 0;
  the counts are passed as \<open>int\<close>, so 2^31 and more are negative and give an empty loop.
\<close>

function mprbuf_unpack_anytype :: "nat \<Rightarrow> 'a rstate \<Rightarrow> 'a rstate res"
and mprbuf_unpack_array :: "nat \<Rightarrow> nat \<Rightarrow> nat \<Rightarrow> 'a rstate \<Rightarrow> 'a rstate res"
and mprbuf_unpack_map :: "nat \<Rightarrow> nat \<Rightarrow> nat \<Rightarrow> 'a rstate \<Rightarrow> 'a rstate res"
where
  "mprbuf_unpack_anytype fuel st =
     (case fuel of 0 \<Rightarrow> Inl Out_of_fuel | Suc f \<Rightarrow>
      (case st of (b, stk, h) \<Rightarrow>
       if mprbuf_left b < 1 then Inr (rb_fail b, stk, h)
       else bind_res (rb_load b 1) (\<lambda>bs.
         let t = unat (hd bs); st1 = (rb_skip 1 b, stk, h) in
         if 0x80 \<le> t \<and> t \<le> 0x8f then mprbuf_unpack_map f 0 (t mod 16) (push_table st1)
         else if 0x90 \<le> t \<and> t \<le> 0x9f then mprbuf_unpack_array f 0 (t mod 16) (push_table st1)
         else if t = 0xdc then
           with_count 2 (\<lambda>n st2. mprbuf_unpack_array f 0 n (push_table st2)) st1
         else if t = 0xdd then
           with_count 4 (\<lambda>n st2. mprbuf_unpack_array f 0 (nat (to_int (int n))) (push_table st2)) st1
         else if t = 0xde then
           with_count 2 (\<lambda>n st2. mprbuf_unpack_map f 0 n (push_table st2)) st1
         else if t = 0xdf then
           with_count 4 (\<lambda>n st2. mprbuf_unpack_map f 0 (nat (to_int (int n))) (push_table st2)) st1
         else unpack_scalar t st1)))"
| "mprbuf_unpack_array f i n st =
     (if n \<le> i then Inr st
      else bind_res (mprbuf_unpack_anytype f st) (\<lambda>(b, stk, h).
        if rb_err b \<noteq> 0 then Inr (b, stk, h)
        else bind_res (stack_rawseti (Suc i) stk) (\<lambda>stk'.
          mprbuf_unpack_array f (Suc i) n (b, stk', h))))"
| "mprbuf_unpack_map f i n st =
     (if n \<le> i then Inr st
      else bind_res (mprbuf_unpack_anytype f (set_keying True st)) (\<lambda>st1.
        bind_res (mprbuf_unpack_anytype f (set_keying False st1)) (\<lambda>(b, stk, h).
          bind_res (stack_rawset stk) (\<lambda>stk'.
            mprbuf_unpack_map f (Suc i) n (b, stk', h)))))"
  by pat_completeness auto
termination
  by (relation "measures
      [case_sum (\<lambda>(f, st). f) (case_sum (\<lambda>(f, i, n, st). f) (\<lambda>(f, i, n, st). f)),
       case_sum (\<lambda>_. 0) (case_sum (\<lambda>(f, i, n, st). Suc n - i) (\<lambda>(f, i, n, st). Suc n - i))]") auto

declare mprbuf_unpack_anytype.simps [simp del] mprbuf_unpack_array.simps [simp del]
  mprbuf_unpack_map.simps [simp del]

section \<open>Buffers on the stack are counted references\<close>

text \<open>How many buffers of a block a value holds.\<close>

fun bufs :: "addr \<Rightarrow> lval \<Rightarrow> int" where
  "bufs a (LBuffer ms) = (if ms_mb ms = a then 1 else 0)"
| "bufs a (LTable kvs) = (\<Sum>(k, v) \<leftarrow> kvs. bufs a k + bufs a v)"
| "bufs a _ = 0"

definition stack_bufs :: "addr \<Rightarrow> lval list \<Rightarrow> int" where
  "stack_bufs a stk = (\<Sum>v \<leftarrow> stk. bufs a v)"

lemma stack_bufs_simps [simp]:
  "stack_bufs a [] = 0" "stack_bufs a (v # stk) = bufs a v + stack_bufs a stk"
  by (simp_all add: stack_bufs_def)

lemma bufs_nonneg [simp]: "0 \<le> bufs a v"
  by (induction a v rule: bufs.induct) (auto intro!: sum_list_nonneg)

lemma bufs_tset: "bufs a (LTable (tset kvs k v)) \<le> bufs a (LTable kvs) + bufs a k + bufs a v"
proof (induction kvs k v rule: tset.induct)
  case (2 k' v' kvs k v)
  have "0 \<le> bufs a k" "0 \<le> bufs a v" "0 \<le> bufs a k'" "0 \<le> bufs a v'" by simp_all
  with 2 show ?case by auto
qed simp

lemma bufs_norm_key [simp]: "bufs a (norm_key k) = bufs a k"
  by (cases k) (simp_all add: norm_key.simps(1))

lemma bufs_lua_rawset:
  "lua_rawset kvs k v = Inr kvs' \<Longrightarrow> bufs a (LTable kvs') \<le> bufs a (LTable kvs) + bufs a k + bufs a v"
  using bufs_tset [of a kvs "norm_key k" v] bufs_tset [of a kvs k v]
  by (auto simp: lua_rawset_def split: lval.splits if_splits)

lemma bufs_lua_rawseti: "bufs a (LTable (lua_rawseti kvs i v)) \<le> bufs a (LTable kvs) + bufs a v"
  using bufs_tset [of a kvs "norm_key (lua_int (int i))" v] by (simp add: lua_rawseti_def)

section \<open>What one call of the reader does\<close>

text \<open>
  A read buffer is in order when its cursor is inside it, the bytes are there, and its block is in
  use. \<open>roomy\<close> adds that four more bytes can be read behind the buffer, which the 32-bit integer
  forms need.
\<close>

definition rb_in_use :: "mprbuf \<Rightarrow> 'a slab_scheme \<Rightarrow> bool" where
  "rb_in_use b h \<longleftrightarrow> slab_ok h \<and> (\<forall>a. rb_mb b = Some a \<longrightarrow> 0 < refs h a)"

definition roomy :: "mprbuf \<Rightarrow> bool" where
  "roomy b \<longleftrightarrow> rb_ofs b \<le> rb_len b \<and> rb_len b + 4 \<le> length (rb_data b)"

definition rb_moved :: "mprbuf \<Rightarrow> mprbuf \<Rightarrow> bool" where
  "rb_moved b b' \<longleftrightarrow> rb_mb b' = rb_mb b \<and> rb_base b' = rb_base b \<and> rb_data b' = rb_data b \<and>
     rb_len b' = rb_len b \<and> rb_ofs b \<le> rb_ofs b' \<and> rb_ofs b' \<le> rb_len b \<and>
     (rb_err b \<noteq> 0 \<longrightarrow> rb_err b' \<noteq> 0)"

text \<open>The heap only changes in reference counts, which cover the buffers made.\<close>

definition only_refs :: "'a slab_scheme \<Rightarrow> 'a slab_scheme \<Rightarrow> bool" where
  "only_refs h h' \<longleftrightarrow> allocs h' = allocs h \<and> brk h' = brk h \<and> (\<forall>a. refs h a \<le> refs h' a) \<and>
     (\<forall>a. blocks h' a = map_option (\<lambda>b. b\<lparr>mb_refcount := refs h' a\<rparr>) (blocks h a))"

definition counted :: "lval list \<Rightarrow> 'a slab_scheme \<Rightarrow> lval list \<Rightarrow> 'a slab_scheme \<Rightarrow> bool" where
  "counted stk h stk' h' \<longleftrightarrow>
     (\<forall>a. stack_bufs a stk' - stack_bufs a stk \<le> refs h' a - refs h a)"

text \<open>What lies below the tables being built stays at the bottom of the stack.\<close>

fun is_table :: "lval \<Rightarrow> bool" where
  "is_table (LTable _) = True"
| "is_table _ = False"

definition based :: "lval list \<Rightarrow> lval list \<Rightarrow> bool" where
  "based stk stk' \<longleftrightarrow> (\<forall>base. (\<forall>v \<in> set base. \<not> is_table v) \<longrightarrow> suffix base stk \<longrightarrow> suffix base stk')"

lemma based_simps [simp, intro!]:
  "based stk stk" "based stk (v # stk)"
  "based (v # LTable kvs # rest) (LTable kvs' # rest)"
  "based (v # k # LTable kvs # rest) (LTable kvs' # rest)"
  by (auto simp: based_def suffix_Cons)

definition reads :: "'a rstate \<Rightarrow> 'a rstate \<Rightarrow> bool" where
  "reads st st' \<longleftrightarrow> (case st of (b, stk, h) \<Rightarrow> case st' of (b', stk', h') \<Rightarrow>
     rb_moved b b' \<and> slab_ok h' \<and> only_refs h h' \<and> counted stk h stk' h' \<and> based stk stk')"

text \<open>
  The only ways to fail: a Lua error (a nil or NaN key), or the \<open>lua_rawset\<close> of the map loop after
  an error in an entry.
\<close>

definition rawset_fault :: fault where
  "rawset_fault = Undefined ''lua_rawset on something that is no table''"

definition may_fail :: "fault \<Rightarrow> bool" where
  "may_fail e \<longleftrightarrow> e = rawset_fault \<or> (\<exists>m. e = Lua_error m)"

definition rd_ok :: "'a rstate \<Rightarrow> bool" where
  "rd_ok st \<longleftrightarrow> roomy (fst st) \<and> rb_in_use (fst st) (snd (snd st))"

text \<open>One value is pushed when there is no error; a loop leaves its table where it was.\<close>

definition pushes_one :: "'a rstate \<Rightarrow> 'a rstate \<Rightarrow> bool" where
  "pushes_one st st' \<longleftrightarrow> (rb_err (fst st') = 0 \<longrightarrow> (\<exists>v. fst (snd st') = v # fst (snd st)))"

definition keeps_table :: "'a rstate \<Rightarrow> 'a rstate \<Rightarrow> bool" where
  "keeps_table st st' \<longleftrightarrow> (rb_err (fst st') = 0 \<longrightarrow>
     (\<exists>kvs kvs' rest. fst (snd st) = LTable kvs # rest \<and> fst (snd st') = LTable kvs' # rest))"

definition res_all :: "('a \<Rightarrow> bool) \<Rightarrow> 'a res \<Rightarrow> bool" where
  "res_all P r = (case r of Inl e \<Rightarrow> may_fail e | Inr x \<Rightarrow> P x)"

lemma res_all_simps [simp]: "res_all P (Inl e) = may_fail e" "res_all P (Inr x) = P x"
  by (simp_all add: res_all_def)

lemma res_all_bind:
  "res_all P m \<Longrightarrow> (\<And>x. P x \<Longrightarrow> m = Inr x \<Longrightarrow> res_all Q (f x)) \<Longrightarrow> res_all Q (bind_res m f)"
  by (cases m) simp_all

lemma res_all_mono: "res_all P m \<Longrightarrow> (\<And>x. P x \<Longrightarrow> Q x) \<Longrightarrow> res_all Q m"
  by (cases m) simp_all

lemma only_refs_refl: "only_refs h h"
  unfolding only_refs_def refs_def by (auto split: option.splits intro!: option.map_ident_strong [symmetric])

lemma only_refs_trans: "only_refs h h' \<Longrightarrow> only_refs h' h'' \<Longrightarrow> only_refs h h''"
  unfolding only_refs_def by (auto intro: order_trans simp: option.map_comp o_def)

lemma counted_refl: "counted stk h stk h"
  by (simp add: counted_def)

lemma counted_trans: "counted s h s' h' \<Longrightarrow> counted s' h' s'' h'' \<Longrightarrow> counted s h s'' h''"
  unfolding counted_def
proof (intro allI)
  fix a assume "\<forall>a. stack_bufs a s' - stack_bufs a s \<le> refs h' a - refs h a"
    "\<forall>a. stack_bufs a s'' - stack_bufs a s' \<le> refs h'' a - refs h' a"
  then have "stack_bufs a s' - stack_bufs a s \<le> refs h' a - refs h a"
    "stack_bufs a s'' - stack_bufs a s' \<le> refs h'' a - refs h' a" by blast+
  then show "stack_bufs a s'' - stack_bufs a s \<le> refs h'' a - refs h a" by linarith
qed

lemma rb_moved_trans: "rb_moved b b' \<Longrightarrow> rb_moved b' b'' \<Longrightarrow> rb_moved b b''"
  by (auto simp: rb_moved_def)

lemma based_trans: "based s s' \<Longrightarrow> based s' s'' \<Longrightarrow> based s s''"
  by (simp add: based_def)

lemma reads_trans: "reads st st' \<Longrightarrow> reads st' st'' \<Longrightarrow> reads st st''"
  by (auto simp: reads_def split: prod.splits intro: rb_moved_trans only_refs_trans counted_trans based_trans)

lemma reads_same_heap:
  "slab_ok h \<Longrightarrow> rb_moved b b' \<Longrightarrow> (\<And>a. stack_bufs a stk' \<le> stack_bufs a stk) \<Longrightarrow>
    based stk stk' \<Longrightarrow> reads (b, stk, h) (b', stk', h)"
  by (simp add: reads_def only_refs_refl counted_def)

lemma rb_moved_refl: "roomy b \<Longrightarrow> rb_moved b b"
  by (simp add: rb_moved_def roomy_def)

lemma rb_moved_skip: "roomy b \<Longrightarrow> n \<le> mprbuf_left b \<Longrightarrow> rb_moved b (rb_skip n b)"
  by (auto simp: rb_moved_def roomy_def rb_skip_def mprbuf_left_def)

lemma or_one_ne_0 [simp]: "(e OR 1 :: 32 word) \<noteq> 0"
proof
  assume "e OR 1 = 0"
  then have "bit (e OR 1) 0 = bit (0 :: 32 word) 0" by simp
  then show False by (simp add: bit_or_iff)
qed

lemma rb_moved_fail: "roomy b \<Longrightarrow> rb_moved b (rb_fail b)"
  by (auto simp: rb_moved_def roomy_def rb_fail_def)

lemma rb_err_fail [simp]: "rb_err (rb_fail b) \<noteq> 0"
  by (simp add: rb_fail_def)

lemma rb_moved_roomy: "roomy b \<Longrightarrow> rb_moved b b' \<Longrightarrow> roomy b'"
  by (auto simp: rb_moved_def roomy_def)

lemma reads_rd_ok: "rd_ok st \<Longrightarrow> reads st st' \<Longrightarrow> rd_ok st'"
  by (auto simp: rd_ok_def reads_def rb_in_use_def only_refs_def rb_moved_def roomy_def split: prod.splits
      intro: less_le_trans)

section \<open>The reader stays inside its buffer\<close>

definition scalar_ok :: "'a rstate \<Rightarrow> 'a rstate res \<Rightarrow> bool" where
  "scalar_ok st r \<longleftrightarrow> res_all (\<lambda>st'. reads st st' \<and> pushes_one st st') r"

lemma fail_ok: "rd_ok (b, stk, h) \<Longrightarrow> scalar_ok (b, stk, h) (Inr (rb_fail b, stk, h))"
  by (simp add: scalar_ok_def rd_ok_def rb_in_use_def reads_same_heap rb_moved_fail pushes_one_def)

lemma push_ok: "rd_ok (b, stk, h) \<Longrightarrow> (\<And>a. bufs a v = 0) \<Longrightarrow> scalar_ok (b, stk, h) (Inr (b, v # stk, h))"
  by (simp add: scalar_ok_def rd_ok_def rb_in_use_def reads_same_heap rb_moved_refl pushes_one_def)

lemma rb_load_roomy:
  assumes "roomy b" "n \<le> mprbuf_left b" "m \<le> n + 4"
  shows "rb_load b m = Inr (take m (drop (rb_ofs b) (rb_data b)))"
  using assms by (auto simp: rb_load_def roomy_def mprbuf_left_def)

lemma unpack_number_ok:
  assumes "rd_ok st" "m \<le> n + 4"
  shows "scalar_ok st (unpack_number n m conv st)"
proof (cases st)
  case (fields b stk h)
  with assms have b: "roomy b" "slab_ok h" by (simp_all add: rd_ok_def rb_in_use_def)
  with fields assms(2) fail_ok [of b stk h] assms(1) show ?thesis
    by (auto simp: unpack_number_def rb_load_roomy [of b n m] scalar_ok_def pushes_one_def
        intro!: reads_same_heap rb_moved_skip)
qed

lemma counted_push:
  assumes "refs h' a = refs h a + 1" "\<And>x. x \<noteq> a \<Longrightarrow> refs h' x = refs h x" "ms_mb ms = a"
  shows "counted stk h (LBuffer ms # stk) h'"
  using assms by (auto simp: counted_def)

lemma unpack_raw_ok:
  assumes "rd_ok st"
  shows "scalar_ok st (unpack_raw n st)"
proof (cases st)
  case (fields b stk h)
  with assms have b: "roomy b" "slab_ok h" by (simp_all add: rd_ok_def rb_in_use_def)
  show ?thesis
  proof (cases "mprbuf_left b < n \<or> rb_map_keying b \<or> rb_mb b = None")
    case True
    with fields b fail_ok [of b stk h] assms show ?thesis
      by (auto simp: unpack_raw_def rb_load_roomy [of b n n] scalar_ok_def pushes_one_def
          intro!: reads_same_heap rb_moved_skip)
  next
    case False
    then obtain a where a: "rb_mb b = Some a" by auto
    with assms fields have pos: "0 < refs h a" by (simp add: rd_ok_def rb_in_use_def)
    obtain blk where blk: "blocks h a = Some blk" "mb_refcount blk = refs h a"
      using refs_pos_blocks [OF pos] by blast
    obtain ms h' where p: "lev_pushbuffer_from_mb (Some a) n (Some (rb_base b + rb_ofs b)) h = Inr (ms, h')"
        "slab_ok h'" "h' = put_block a (blk\<lparr>mb_refcount := mb_refcount blk + 1\<rparr>) h" "ms_mb ms = a"
      by (rule lev_pushbuffer_from_mb_ok [OF b(2) blk(1) referenced_not_pooled [OF b(2) pos],
            of n "Some (rb_base b + rb_ofs b)"]) simp
    have refs': "refs h' x = (if x = a then refs h a + 1 else refs h x)" for x
      using blk by (simp add: p(3) refs_def put_block_def)
    have "only_refs h h'"
      using blk refs' unfolding only_refs_def
      by (auto simp: p(3) put_block_def refs_def split: option.splits intro!: option.map_ident_strong [symmetric])
    moreover have "counted stk h (LBuffer ms # stk) h'"
      by (rule counted_push [where a = a]) (simp_all add: refs' p(4))
    ultimately show ?thesis
      using False fields b a p(1,2) rb_moved_skip [of b n]
      by (auto simp: unpack_raw_def scalar_ok_def pushes_one_def reads_def)
  qed
qed

lemma with_count_raw_ok:
  assumes "rd_ok st"
  shows "scalar_ok st (with_count n unpack_raw st)"
proof (cases st)
  case (fields b stk h)
  with assms have b: "roomy b" "slab_ok h" by (simp_all add: rd_ok_def rb_in_use_def)
  show ?thesis
  proof (cases "n \<le> mprbuf_left b")
    case True
    let ?st = "(rb_skip n b, stk, h)"
    have r: "reads st ?st"
      using fields b True by (auto intro: reads_same_heap rb_moved_skip)
    have "scalar_ok st (unpack_raw k ?st)" for k
      using unpack_raw_ok [OF reads_rd_ok [OF assms r], of k] reads_trans [OF r] fields
      unfolding scalar_ok_def by (elim res_all_mono) (auto simp: pushes_one_def)
    then show ?thesis
      using fields True b by (simp add: with_count_def rb_load_roomy [of b n n])
  next
    case False
    with fields fail_ok [of b stk h] assms show ?thesis by (simp add: with_count_def)
  qed
qed

lemma unpack_scalar_ok:
  assumes "rd_ok st"
  shows "scalar_ok st (unpack_scalar t st)"
proof (cases st)
  case (fields b stk h)
  from assms show ?thesis
    by (simp add: unpack_scalar_def fields push_ok fail_ok unpack_number_ok unpack_raw_ok with_count_raw_ok)
qed

section \<open>Containers\<close>

definition loop_ok :: "'a rstate \<Rightarrow> 'a rstate res \<Rightarrow> bool" where
  "loop_ok st r \<longleftrightarrow> res_all (\<lambda>st'. reads st st' \<and> keeps_table st st') r"

text \<open>What a loop may be started on: its table is on the top unless an error has occurred.\<close>

definition table_on_top :: "'a rstate \<Rightarrow> bool" where
  "table_on_top st \<longleftrightarrow> (rb_err (fst st) = 0 \<longrightarrow> (\<exists>kvs rest. fst (snd st) = LTable kvs # rest))"

lemma reads_err: "reads st st' \<Longrightarrow> rb_err (fst st') = 0 \<Longrightarrow> rb_err (fst st) = 0"
  by (auto simp: reads_def rb_moved_def split: prod.splits)

lemma reads_left: "rd_ok st \<Longrightarrow> reads st st' \<Longrightarrow> mprbuf_left (fst st') \<le> mprbuf_left (fst st)"
  by (auto simp: reads_def rb_moved_def rd_ok_def roomy_def mprbuf_left_def split: prod.splits)

lemma loop_ok_refl: "rd_ok st \<Longrightarrow> table_on_top st \<Longrightarrow> loop_ok st (Inr st)"
  by (cases st)
     (auto simp: loop_ok_def rd_ok_def rb_in_use_def keeps_table_def table_on_top_def
       intro!: reads_same_heap rb_moved_refl)

lemma keeps_table_trans: "keeps_table st st' \<Longrightarrow> keeps_table st' st'' \<Longrightarrow> reads st' st'' \<Longrightarrow> keeps_table st st''"
  using reads_err [of st' st''] by (auto simp: keeps_table_def)

lemma loop_ok_trans: "reads st st' \<Longrightarrow> keeps_table st st' \<Longrightarrow> loop_ok st' r \<Longrightarrow> loop_ok st r"
  unfolding loop_ok_def
  by (erule res_all_mono) (auto intro: reads_trans keeps_table_trans)

lemma stack_rawseti_ok:
  "stack_rawseti i (v # LTable kvs # rest) = Inr (LTable (lua_rawseti kvs i v) # rest)"
  by (simp add: stack_rawseti_def)

lemma stack_bufs_rawseti:
  "stack_rawseti i stk = Inr stk' \<Longrightarrow> stack_bufs a stk' \<le> stack_bufs a stk"
  using bufs_lua_rawseti [of a]
  by (auto simp: stack_rawseti_def split: list.splits lval.splits)
     (smt (verit, best) bufs_lua_rawseti bufs.simps(2))

lemma stack_rawset_cases:
  "res_all (\<lambda>stk'. (\<forall>a. stack_bufs a stk' \<le> stack_bufs a stk) \<and>
      (\<exists>v k kvs kvs' rest. stk = v # k # LTable kvs # rest \<and> stk' = LTable kvs' # rest)) (stack_rawset stk)"
proof (cases "\<exists>v k kvs rest. stk = v # k # LTable kvs # rest")
  case True
  then obtain v k kvs rest where stk: "stk = v # k # LTable kvs # rest" by blast
  show ?thesis
  proof (cases "lua_rawset kvs k v")
    case (Inl e)
    then have "\<exists>m. e = Lua_error m" by (auto simp: lua_rawset_def split: lval.splits if_splits)
    with Inl stk show ?thesis by (simp add: stack_rawset_def may_fail_def)
  next
    case (Inr kvs')
    then have "bufs a (LTable kvs') \<le> bufs a (LTable kvs) + bufs a k + bufs a v" for a
      by (rule bufs_lua_rawset)
    with Inr stk show ?thesis by (auto simp: stack_rawset_def algebra_simps simp del: bufs.simps)
  qed
next
  case False
  then have "stack_rawset stk = Inl rawset_fault"
    by (auto simp: stack_rawset_def rawset_fault_def split: list.splits lval.splits)
  then show ?thesis by (simp add: may_fail_def)
qed

text \<open>
  One element of an array, and one entry of a map, given that the reader of the elements is in
  order.
\<close>

definition anytype_ok :: "nat \<Rightarrow> 'a rstate \<Rightarrow> bool" where
  "anytype_ok f st \<longleftrightarrow> (rd_ok st \<longrightarrow> mprbuf_left (fst st) < f \<longrightarrow> scalar_ok st (mprbuf_unpack_anytype f st))"

lemma array_step:
  assumes "rd_ok st" "table_on_top st" "scalar_ok st r"
    and "\<And>st'. reads st st' \<Longrightarrow> table_on_top st' \<Longrightarrow> loop_ok st' (k st')"
  shows "loop_ok st (bind_res r (\<lambda>(b, stk, h).
        if rb_err b \<noteq> 0 then Inr (b, stk, h)
        else bind_res (stack_rawseti i stk) (\<lambda>stk'. k (b, stk', h))))"
proof (cases r)
  case (Inl e)
  with assms(3) show ?thesis by (simp add: scalar_ok_def loop_ok_def)
next
  case (Inr st1)
  obtain b stk h where st1: "st1 = (b, stk, h)" by (cases st1)
  from assms(3) Inr st1 have r1: "reads st (b, stk, h)" and p1: "pushes_one st (b, stk, h)"
    by (simp_all add: scalar_ok_def)
  show ?thesis
  proof (cases "rb_err b = 0")
    case False
    with r1 Inr st1 show ?thesis by (simp add: loop_ok_def keeps_table_def)
  next
    case True
    with reads_err [OF r1] have "rb_err (fst st) = 0" by simp
    with assms(2) obtain kvs rest where t: "fst (snd st) = LTable kvs # rest"
      by (auto simp: table_on_top_def)
    from True p1 t obtain v where stk: "stk = v # LTable kvs # rest" by (auto simp: pushes_one_def)
    let ?stk = "LTable (lua_rawseti kvs i v) # rest"
    have rs: "stack_rawseti i stk = Inr ?stk" using stk by (simp add: stack_rawseti_ok)
    from r1 have ok: "rd_ok (b, stk, h)" by (rule reads_rd_ok [OF assms(1)])
    then have "reads (b, stk, h) (b, ?stk, h)"
      using stack_bufs_rawseti [OF rs]
      by (intro reads_same_heap) (simp_all add: rd_ok_def rb_in_use_def rb_moved_refl stk)
    with r1 have r2: "reads st (b, ?stk, h)" by (rule reads_trans)
    have "loop_ok st (k (b, ?stk, h))"
      by (rule loop_ok_trans [OF r2]) (auto simp: keeps_table_def table_on_top_def t intro!: assms(4) r2)
    with Inr st1 True rs show ?thesis by simp
  qed
qed

lemma reads_keying:
  "rd_ok st \<Longrightarrow> reads st (set_keying k st)" "pushes_one (set_keying k st) st' \<longleftrightarrow> pushes_one st st'"
  "mprbuf_left (fst (set_keying k st)) = mprbuf_left (fst st)"
  by (cases st; auto simp: set_keying_def rd_ok_def rb_in_use_def roomy_def rb_moved_def pushes_one_def
      mprbuf_left_def intro!: reads_same_heap)+

lemma map_step:
  assumes "rd_ok st" "table_on_top st" "scalar_ok (set_keying True st) r"
    and any: "\<And>st'. reads st st' \<Longrightarrow> scalar_ok st' (any st')"
    and k: "\<And>st'. reads st st' \<Longrightarrow> table_on_top st' \<Longrightarrow> loop_ok st' (k st')"
  shows "loop_ok st (bind_res r (\<lambda>st1. bind_res (any (set_keying False st1)) (\<lambda>(b, stk, h).
          bind_res (stack_rawset stk) (\<lambda>stk'. k (b, stk', h)))))"
proof (cases r)
  case (Inl e)
  with assms(3) show ?thesis by (simp add: scalar_ok_def loop_ok_def)
next
  case (Inr st1)
  from assms(3) Inr have r1: "reads st st1" and p1: "pushes_one st st1"
    using reads_trans [OF reads_keying(1) [OF assms(1), of True]] by (auto simp: scalar_ok_def reads_keying)
  have r1': "reads st (set_keying False st1)"
    using r1 reads_keying(1) [OF reads_rd_ok [OF assms(1) r1]] by (rule reads_trans)
  show ?thesis
  proof (cases "any (set_keying False st1)")
    case (Inl e)
    with any [OF r1'] Inr show ?thesis by (simp add: scalar_ok_def loop_ok_def)
  next
    case any_Inr: (Inr st2)
    obtain b stk h where st2: "st2 = (b, stk, h)" by (cases st2)
    from any [OF r1'] any_Inr st2 have r2: "reads st1 (b, stk, h)" and p2: "pushes_one st1 (b, stk, h)"
      using reads_trans [OF reads_keying(1) [OF reads_rd_ok [OF assms(1) r1], of False]]
      by (auto simp: scalar_ok_def reads_keying)
    note r2' = reads_trans [OF r1 r2]
    show ?thesis
    proof (cases "stack_rawset stk")
      case (Inl e)
      with stack_rawset_cases [of stk] Inr any_Inr st2 show ?thesis by (simp add: loop_ok_def)
    next
      case rs: (Inr stk')
      with stack_rawset_cases [of stk] obtain v key kvs kvs' rest where
        stk: "stk = v # key # LTable kvs # rest" "stk' = LTable kvs' # rest"
        and le: "\<And>a. stack_bufs a stk' \<le> stack_bufs a stk" by auto
      have "reads (b, stk, h) (b, stk', h)"
        using reads_rd_ok [OF assms(1) r2'] le
        by (intro reads_same_heap) (simp_all add: rd_ok_def rb_in_use_def rb_moved_refl stk)
      with r2' have r3: "reads st (b, stk', h)" by (rule reads_trans)
      have kt: "keeps_table st (b, stk', h)"
        using p1 p2 reads_err [OF r2] stk unfolding keeps_table_def pushes_one_def
        by (intro impI exI [of _ kvs] exI [of _ kvs'] exI [of _ rest]) auto
      have "loop_ok st (k (b, stk', h))"
        using stk by (intro loop_ok_trans [OF r3 kt] k [OF r3]) (simp add: table_on_top_def)
      with Inr any_Inr st2 rs show ?thesis by simp
    qed
  qed
qed

lemma scalar_ok_trans:
  assumes "reads st st'" "fst (snd st') = fst (snd st)" "scalar_ok st' r"
  shows "scalar_ok st r"
  using assms(3) reads_trans [OF assms(1)] assms(2) unfolding scalar_ok_def
  by (elim res_all_mono) (auto simp: pushes_one_def)

text \<open>A loop started on a new table pushes that table.\<close>

lemma loop_pushes:
  assumes "rd_ok st"
    and "\<And>st'. reads st st' \<Longrightarrow> table_on_top st' \<Longrightarrow> loop_ok st' (loop st')"
  shows "scalar_ok st (loop (push_table st))"
proof -
  have r: "reads st (push_table st)"
    using assms(1) by (cases st)
      (auto simp: push_table_def rd_ok_def rb_in_use_def intro!: reads_same_heap rb_moved_refl)
  have "loop_ok (push_table st) (loop (push_table st))"
    by (rule assms(2) [OF r]) (cases st, simp add: table_on_top_def push_table_def)
  then show ?thesis
    using reads_trans [OF r] unfolding loop_ok_def scalar_ok_def
    by (elim res_all_mono) (cases st, auto simp: keeps_table_def pushes_one_def push_table_def)
qed

lemma with_count_ok:
  assumes "rd_ok st"
    and "\<And>k st'. reads st st' \<Longrightarrow> fst (snd st') = fst (snd st) \<Longrightarrow> scalar_ok st' (f k st')"
  shows "scalar_ok st (with_count n f st)"
proof (cases st)
  case (fields b stk h)
  with assms(1) have b: "roomy b" "slab_ok h" by (simp_all add: rd_ok_def rb_in_use_def)
  show ?thesis
  proof (cases "n \<le> mprbuf_left b")
    case True
    let ?st = "(rb_skip n b, stk, h)"
    have r: "reads st ?st"
      using fields b True by (auto intro: reads_same_heap rb_moved_skip)
    have "scalar_ok st (f k ?st)" for k
      by (rule scalar_ok_trans [OF r _ assms(2) [OF r]]) (simp_all add: fields)
    with fields b True show ?thesis
      by (simp add: with_count_def rb_load_roomy [of b n n])
  next
    case False
    with fields fail_ok [of b stk h] assms(1) show ?thesis by (simp add: with_count_def)
  qed
qed

definition loops_ok :: "nat \<Rightarrow> 'a rstate \<Rightarrow> bool" where
  "loops_ok f st \<longleftrightarrow> (\<forall>i n. \<forall>st'. reads st st' \<longrightarrow> table_on_top st' \<longrightarrow>
     loop_ok st' (mprbuf_unpack_array f i n st') \<and> loop_ok st' (mprbuf_unpack_map f i n st'))"

lemma array_loop_ok:
  assumes any: "\<And>st'. reads st st' \<Longrightarrow> scalar_ok st' (mprbuf_unpack_anytype f st')"
    and "rd_ok st" "reads st st1" "table_on_top st1"
  shows "loop_ok st1 (mprbuf_unpack_array f i n st1)"
  using assms(3,4)
proof (induction "n - i" arbitrary: i st1)
  case 0
  with reads_rd_ok [OF assms(2)] show ?case
    by (simp add: mprbuf_unpack_array.simps [of f i] loop_ok_refl)
next
  case (Suc m)
  note ok1 = reads_rd_ok [OF assms(2) Suc.prems(1)]
  have m: "m = n - Suc i" and "\<not> n \<le> i" using Suc.hyps(2) by simp_all
  then show ?case
    using array_step [OF ok1 Suc.prems(2) any [OF Suc.prems(1)],
        of "mprbuf_unpack_array f (Suc i) n"] Suc.hyps(1) [OF m reads_trans [OF Suc.prems(1)]]
    by (simp add: mprbuf_unpack_array.simps [of f i])
qed

lemma map_loop_ok:
  assumes any: "\<And>st'. reads st st' \<Longrightarrow> scalar_ok st' (mprbuf_unpack_anytype f st')"
    and "rd_ok st" "reads st st1" "table_on_top st1"
  shows "loop_ok st1 (mprbuf_unpack_map f i n st1)"
  using assms(3,4)
proof (induction "n - i" arbitrary: i st1)
  case 0
  with reads_rd_ok [OF assms(2)] show ?case
    by (simp add: mprbuf_unpack_map.simps [of f i] loop_ok_refl)
next
  case (Suc m)
  note ok1 = reads_rd_ok [OF assms(2) Suc.prems(1)]
  have m: "m = n - Suc i" and "\<not> n \<le> i" using Suc.hyps(2) by simp_all
  have key: "scalar_ok (set_keying True st1) (mprbuf_unpack_anytype f (set_keying True st1))"
    by (rule any [OF reads_trans [OF Suc.prems(1) reads_keying(1) [OF ok1]]])
  show ?case
    using \<open>\<not> n \<le> i\<close> map_step [OF ok1 Suc.prems(2) key, of "mprbuf_unpack_anytype f"
        "mprbuf_unpack_map f (Suc i) n"] any [OF reads_trans [OF Suc.prems(1)]]
      Suc.hyps(1) [OF m reads_trans [OF Suc.prems(1)]]
    by (simp add: mprbuf_unpack_map.simps [of f i])
qed

text \<open>
  With one unit of fuel more than bytes left, the reader ends, stays inside the buffer, counts the
  references it makes, and pushes exactly one value when it reports no error.
\<close>

lemma unpack_anytype_ok:
  assumes "rd_ok st" "mprbuf_left (fst st) < f"
  shows "scalar_ok st (mprbuf_unpack_anytype f st)"
  using assms
proof (induction f arbitrary: st)
  case (Suc f)
  obtain b stk h where st: "st = (b, stk, h)" by (cases st)
  with Suc.prems have b: "roomy b" "slab_ok h" by (simp_all add: rd_ok_def rb_in_use_def)
  show ?case
  proof (cases "mprbuf_left b < 1")
    case True
    with st fail_ok [of b stk h] Suc.prems(1) show ?thesis by (simp add: mprbuf_unpack_anytype.simps)
  next
    case False
    let ?st1 = "(rb_skip 1 b, stk, h)"
    have r1: "reads st ?st1"
      using st b False rb_moved_skip [of b 1] by (auto intro: reads_same_heap)
    have ok1: "rd_ok ?st1" by (rule reads_rd_ok [OF Suc.prems(1) r1])
    have left1: "mprbuf_left (rb_skip 1 b) < f"
      using False Suc.prems(2) st b by (auto simp: mprbuf_left_def rb_skip_def roomy_def)
    have any: "scalar_ok st' (mprbuf_unpack_anytype f st')" if "reads ?st1 st'" for st'
      using Suc.IH reads_rd_ok [OF ok1 that] reads_left [OF ok1 that] left1 by simp
    have arr: "scalar_ok st' (mprbuf_unpack_array f 0 n (push_table st'))" if "reads ?st1 st'" for st' n
      by (rule loop_pushes [OF reads_rd_ok [OF ok1 that]])
         (rule array_loop_ok [OF any ok1 reads_trans [OF that]])
    have maps: "scalar_ok st' (mprbuf_unpack_map f 0 n (push_table st'))" if "reads ?st1 st'" for st' n
      by (rule loop_pushes [OF reads_rd_ok [OF ok1 that]])
         (rule map_loop_ok [OF any ok1 reads_trans [OF that]])
    have self: "reads ?st1 ?st1"
      using ok1 by (auto simp: rd_ok_def rb_in_use_def intro!: reads_same_heap rb_moved_refl)
    have "scalar_ok ?st1 (mprbuf_unpack_anytype (Suc f) st)"
      using False b by (simp add: mprbuf_unpack_anytype.simps st rb_load_roomy [of b 1 1] Let_def
          arr [OF self] maps [OF self] unpack_scalar_ok [OF ok1] with_count_ok [OF ok1] arr maps
          del: One_nat_def)
    then show ?thesis using scalar_ok_trans [OF r1] st by simp
  qed
qed simp

end
