(* ===== verification/Mpack_Roundtrip.thy ===== *)
theory Mpack_Roundtrip
  imports Mpack_Read
begin

text \<open>
  The reader of \<open>src/lev_mpack.c\<close> undoes its writer: reading the encoding of a value pushes that
  value, with a string value turned into a slice of the block that was read.
\<close>

section \<open>Reading at a position\<close>

text \<open>\<open>reads_at b e\<close>: the bytes \<open>e\<close> are what is left of the buffer starts with.\<close>

definition reads_at :: "mprbuf \<Rightarrow> byte list \<Rightarrow> bool" where
  "reads_at b e \<longleftrightarrow> roomy b \<and> rb_ofs b + length e \<le> rb_len b \<and>
     take (length e) (drop (rb_ofs b) (rb_data b)) = e"

lemma reads_at_append:
  "reads_at b (e1 @ e2) \<longleftrightarrow> reads_at b e1 \<and> reads_at (rb_skip (length e1) b) e2"
  by (auto simp: reads_at_def rb_skip_def roomy_def take_add add.assoc add.commute)

lemma reads_at_Cons:
  "reads_at b (t # e) \<longleftrightarrow> reads_at b [t] \<and> reads_at (rb_skip 1 b) e"
  using reads_at_append [of b "[t]" e] by simp

lemma rb_skip_0 [simp]: "rb_skip 0 b = b"
  by (simp add: rb_skip_def)

lemma rb_skip_skip [simp]: "rb_skip m (rb_skip n b) = rb_skip (n + m) b"
  by (simp add: rb_skip_def add.assoc)

lemma reads_at_keying [simp]: "reads_at (b\<lparr>rb_map_keying := k\<rparr>) e = reads_at b e"
  by (simp add: reads_at_def roomy_def)

lemma rb_skip_sel [simp]:
  "rb_mb (rb_skip n b) = rb_mb b" "rb_base (rb_skip n b) = rb_base b" "rb_data (rb_skip n b) = rb_data b"
  "rb_len (rb_skip n b) = rb_len b" "rb_err (rb_skip n b) = rb_err b"
  "rb_map_keying (rb_skip n b) = rb_map_keying b" "rb_ofs (rb_skip n b) = rb_ofs b + n"
  by (simp_all add: rb_skip_def)

lemma rb_load_at:
  assumes "reads_at b e" "length e \<le> m" "m \<le> length e + 4"
  obtains s where "rb_load b m = Inr s" "take (length e) s = e"
proof (rule that)
  from assms have "rb_ofs b + m \<le> length (rb_data b)" unfolding reads_at_def roomy_def by linarith
  then show "rb_load b m = Inr (take m (drop (rb_ofs b) (rb_data b)))" by (simp add: rb_load_def)
  have "take (length e) (drop (rb_ofs b) (rb_data b)) = e" using assms(1) by (simp only: reads_at_def)
  with assms(2) show "take (length e) (take m (drop (rb_ofs b) (rb_data b))) = e"
    by (simp only: take_take min_absorb1)
qed

lemma rb_load_at_exact: "reads_at b e \<Longrightarrow> n = length e \<Longrightarrow> rb_load b n = Inr e"
  by (auto simp: reads_at_def rb_load_def roomy_def)

lemma reads_at_left: "reads_at b e \<Longrightarrow> length e \<le> mprbuf_left b"
  by (auto simp: reads_at_def roomy_def mprbuf_left_def)

lemma unpack_number_at:
  assumes "reads_at b e" "n = length e" "n \<le> m" "m \<le> n + 4"
  shows "unpack_number n m conv (b, stk, h) = Inr (rb_skip n b, LNumber (conv e) # stk, h)"
proof -
  obtain s where "rb_load b m = Inr s" "take (length e) s = e"
    by (rule rb_load_at [OF assms(1), of m]) (use assms in simp_all)
  with assms(2) reads_at_left [OF assms(1)] show ?thesis by (simp add: unpack_number_def)
qed

lemma with_count_at:
  assumes "reads_at b (be_bytes n k)" "k < 256 ^ n"
  shows "with_count n f (b, stk, h) = f k (rb_skip n b, stk, h)"
  using reads_at_left [OF assms(1)] rb_load_at_exact [OF assms(1), of n] assms(2)
  by (simp add: with_count_def)

text \<open>The top byte of a value that is not a container.\<close>

definition container_byte :: "byte \<Rightarrow> bool" where
  "container_byte t \<longleftrightarrow> (0x80 \<le> unat t \<and> unat t \<le> 0x9f) \<or> (0xdc \<le> unat t \<and> unat t \<le> 0xdf)"

lemma unpack_scalar_at:
  assumes "reads_at b [t]" "\<not> container_byte t"
  shows "mprbuf_unpack_anytype (Suc f) (b, stk, h) = unpack_scalar (unat t) (rb_skip 1 b, stk, h)"
  using assms reads_at_left [OF assms(1)] rb_load_at_exact [OF assms(1), of 1]
  by (auto simp: mprbuf_unpack_anytype.simps container_byte_def Let_def simp del: One_nat_def)

section \<open>Numbers\<close>

lemma unat_word_of_int_byte: "0 \<le> k \<Longrightarrow> k < 256 \<Longrightarrow> unat (word_of_int k :: byte) = nat k"
  by (simp add: unat_eq_nat_uint unsigned_of_int take_bit_int_eq_self)

lemma negative_fixnum_byte:
  assumes "- 32 \<le> k" "k < 0"
  shows "unat ((0xe0 :: byte) OR word_of_int k) = nat (256 + k)"
proof -
  have "k \<in> set [-32..-1]" using assms by simp
  then show ?thesis by (simp add: upto.simps) (elim disjE; simp add: unsigned_minus_1_eq_mask mask_eq_exp_minus_1)
qed

lemma to_signed_mod: "0 < w \<Longrightarrow> - (2 ^ (w - 1)) \<le> k \<Longrightarrow> k < 2 ^ (w - 1) \<Longrightarrow> to_signed w (k mod 2 ^ w) = k"
  using to_signed_id [of w k] by (simp add: to_signed_def mod_add_left_eq)

lemma signed_be_bytes:
  assumes "0 < n" "- (2 ^ (8 * n - 1)) \<le> k" "k < 2 ^ (8 * n - 1)"
  shows "signed_be (8 * n) (be_bytes n (nat (k mod 2 ^ (8 * n)))) = dbl_of_int k"
proof -
  have p: "(2::int) ^ (8 * n) = int (256 ^ n)" by (simp add: power_mult)
  have "nat (k mod 2 ^ (8 * n)) < 256 ^ n"
    using pos_mod_bound [of "2 ^ (8 * n)" k] pos_mod_sign [of "2 ^ (8 * n)" k] unfolding p
    by (simp add: nat_less_iff)
  then have "int (be_val (be_bytes n (nat (k mod 2 ^ (8 * n))))) = k mod 2 ^ (8 * n)" by simp
  with assms show ?thesis by (simp add: signed_be_def to_signed_mod)
qed

lemma unpack_scalar_forms:
  "unpack_scalar 0xcb = unpack_number 8 8 (\<lambda>s. word_of_nat (be_val s))"
  "unpack_scalar 0xcc = unpack_number 1 1 unsigned_be"
  "unpack_scalar 0xcd = unpack_number 2 2 unsigned_be"
  "unpack_scalar 0xce = unpack_number 4 8 unsigned_be"
  "unpack_scalar 0xcf = unpack_number 8 8 unsigned_be"
  "unpack_scalar 0xd0 = unpack_number 1 1 (signed_be 8)"
  "unpack_scalar 0xd1 = unpack_number 2 2 (signed_be 16)"
  "unpack_scalar 0xd2 = unpack_number 4 8 (signed_be 32)"
  "unpack_scalar 0xd3 = unpack_number 8 8 (signed_be 64)"
  "unpack_scalar 0xda = with_count 2 unpack_raw"
  "unpack_scalar 0xdb = with_count 4 unpack_raw"
  by (rule ext, simp add: unpack_scalar_def split: prod.split)+

lemma unpack_form:
  fixes h :: "'a slab_scheme"
  assumes "reads_at b (t # pl)" "\<not> container_byte t"
    and "(unpack_scalar (unat t) :: 'a rstate \<Rightarrow> _) = unpack_number n m conv"
    and "n = length pl" "n \<le> m" "m \<le> n + 4"
  shows "mprbuf_unpack_anytype (Suc f) (b, stk, h) = Inr (rb_skip (length (t # pl)) b, LNumber (conv pl) # stk, h)"
  using assms unpack_number_at [of "rb_skip 1 b" pl n m conv stk h] unpack_scalar_at [of b t f stk h]
    reads_at_Cons [of b t pl] by simp

lemma unsigned_be_bytes: "k < 256 ^ n \<Longrightarrow> unsigned_be (be_bytes n k) = dbl_of_int (int k)"
  by (simp add: unsigned_be_def)

lemma single_be_byte: "[word_of_int k] = be_bytes 1 (nat (k mod 2 ^ 8))"
proof -
  have "(word_of_nat (nat (k mod 256) mod 256) :: byte) = word_of_int (k mod 256)"
    by (simp add: nat_less_iff)
  also have "\<dots> = word_of_int k"
    by (simp add: word_of_int_eq_iff take_bit_eq_mod)
  finally show ?thesis by simp
qed

lemma unpack_fixnum:
  assumes "reads_at b [t]" "unat t < 0x80 \<or> 0xdf < unat t"
  shows "mprbuf_unpack_anytype (Suc f) (b, stk, h) =
    Inr (rb_skip 1 b, lua_int (if unat t < 0x80 then int (unat t) else int (unat t) - 256) # stk, h)"
  using assms unpack_scalar_at [of b t f stk h]
  by (auto simp: container_byte_def unpack_scalar_def)

text \<open>Every integer form is read back as the integer.\<close>

lemma unpack_long_long:
  assumes "- (2 ^ 63) \<le> k" "k < 2 ^ 63" "reads_at b (long_long_bytes k)"
  shows "mprbuf_unpack_anytype (Suc f) (b, stk, h) =
    Inr (rb_skip (length (long_long_bytes k)) b, lua_int k # stk, h)"
proof -
  have pos: ?thesis if "long_long_bytes k = t # be_bytes n (nat k)" "0 \<le> k" "nat k < 256 ^ n"
      "\<not> container_byte t" "(unpack_scalar (unat t) :: 'a rstate \<Rightarrow> _) = unpack_number n m unsigned_be"
      "n \<le> m" "m \<le> n + 4" for t n m
    using unpack_form [of b t "be_bytes n (nat k)" n m unsigned_be f stk h] assms(3) that
    by (simp add: unsigned_be_bytes)
  have neg: ?thesis if "long_long_bytes k = t # be_bytes n (nat (k mod 2 ^ (8 * n)))" "0 < n"
      "- (2 ^ (8 * n - 1)) \<le> k" "k < 0" "\<not> container_byte t"
      "(unpack_scalar (unat t) :: 'a rstate \<Rightarrow> _) = unpack_number n m (signed_be (8 * n))"
      "n \<le> m" "m \<le> n + 4" for t n m
    using unpack_form [of b t "be_bytes n (nat (k mod 2 ^ (8 * n)))" n m "signed_be (8 * n)" f stk h]
      assms(3) that less_le_trans [of k 0 "2 ^ (8 * n - 1)"]
    by (simp add: signed_be_bytes)
  consider "0 \<le> k" "k < 128" | "128 \<le> k" "k < 256" | "256 \<le> k" "k < 65536"
    | "65536 \<le> k" "k < 4294967296" | "4294967296 \<le> k" "k < 2 ^ 63"
    | "- 32 \<le> k" "k < 0" | "- 128 \<le> k" "k < -32" | "- 32768 \<le> k" "k < -128"
    | "- 2147483648 \<le> k" "k < -32768" | "- (2 ^ 63) \<le> k" "k < -2147483648"
    using assms(1,2) by linarith
  then show ?thesis
  proof cases
    case 1
    then have "long_long_bytes k = [word_of_int k]" by (simp add: long_long_bytes_def)
    with 1 unpack_fixnum [of b "word_of_int k" f stk h] assms(3) show ?thesis
      by (simp add: unat_word_of_int_byte nat_less_iff)
  next
    case 2
    then show ?thesis
      using single_be_byte [of k]
      by (intro pos [of "0xcc" 1 1]) (simp_all add: long_long_bytes_def container_byte_def unpack_scalar_forms)
  next
    case 3
    then show ?thesis
      by (intro pos [of "0xcd" 2 2])
        (simp_all add: long_long_bytes_def container_byte_def unpack_scalar_forms nat_less_iff del: be_bytes.simps)
  next
    case 4
    then show ?thesis
      by (intro pos [of "0xce" 4 8])
        (simp_all add: long_long_bytes_def container_byte_def unpack_scalar_forms nat_less_iff del: be_bytes.simps)
  next
    case 5
    then show ?thesis
      by (intro pos [of "0xcf" 8 8])
        (simp_all add: long_long_bytes_def container_byte_def unpack_scalar_forms nat_less_iff del: be_bytes.simps)
  next
    case 6
    then have "long_long_bytes k = [0xe0 OR word_of_int k]" by (simp add: long_long_bytes_def)
    moreover have "223 < nat (256 + k)" "\<not> nat (256 + k) < 128" using 6 by simp_all
    ultimately show ?thesis
      using 6 unpack_fixnum [of b "0xe0 OR word_of_int k" f stk h] assms(3) negative_fixnum_byte [OF 6]
      by simp
  next
    case 7
    then show ?thesis
      using single_be_byte [of k]
      by (intro neg [of "0xd0" 1 1]) (simp_all add: long_long_bytes_def container_byte_def unpack_scalar_forms)
  next
    case 8
    then show ?thesis
      by (intro neg [of "0xd1" 2 2])
        (simp_all add: long_long_bytes_def container_byte_def unpack_scalar_forms del: be_bytes.simps)
  next
    case 9
    then show ?thesis
      by (intro neg [of "0xd2" 4 8])
        (simp_all add: long_long_bytes_def container_byte_def unpack_scalar_forms del: be_bytes.simps)
  next
    case 10
    then show ?thesis
      by (intro neg [of "0xd3" 8 8])
        (simp_all add: long_long_bytes_def container_byte_def unpack_scalar_forms del: be_bytes.simps)
  qed
qed

text \<open>
  The numbers that survive: not the negative zero, which is written as the integer 0, and of the
  NaNs the one pattern the writer uses for all of them.
\<close>

definition number_kept :: "lua_Number \<Rightarrow> bool" where
  "number_kept n \<longleftrightarrow> n \<noteq> 2 ^ 63 \<and> (isnan n \<longrightarrow> n = 0xfff8000000000000)"

lemma unpack_double:
  assumes "reads_at b (0xcb # be_bytes 8 (unat n))"
  shows "mprbuf_unpack_anytype (Suc f) (b, stk, h) = Inr (rb_skip 9 b, LNumber n # stk, h)"
proof -
  have "unat n < 256 ^ 8" using unsigned_less [of n, where ?'a = nat] by simp
  with unpack_form [OF assms, of 8 8 "\<lambda>s. word_of_nat (be_val s)" f stk h] show ?thesis
    by (simp add: container_byte_def unpack_scalar_forms del: be_bytes.simps)
qed

lemma isinf_bits:
  assumes "isinf n"
  shows "n = (if dbl_pos n then 0x7ff0000000000000 else 0xfff0000000000000)"
proof -
  have u: "unat n = (if dbl_sign n then 2 ^ 63 else 0) + 2047 * 2 ^ 52"
    using assms dbl_decompose [of n] by (simp add: isinf_def)
  then have "word_of_nat (unat n) = (word_of_nat ((if dbl_sign n then 2 ^ 63 else 0) + 2047 * 2 ^ 52) :: lua_Number)"
    by simp
  with u show ?thesis by (cases "dbl_sign n") (simp_all add: dbl_pos_def word_unat_eq_iff)
qed

lemma be_bytes_8: "be_bytes 8 x = map (\<lambda>i. word_of_nat (x div 256 ^ i mod 256)) [7, 6, 5, 4, 3, 2, 1, 0]"
proof -
  have "(8::nat) = Suc (Suc (Suc (Suc (Suc (Suc (Suc (Suc 0)))))))" by simp
  then show ?thesis by (simp only: be_bytes.simps) (simp add: div_mult2_eq [symmetric])
qed

lemma number_bytes_special:
  assumes "isinf n \<or> isnan n" "number_kept n" "number_bytes n = Inr e"
  shows "e = 0xcb # be_bytes 8 (unat n)"
proof (cases "isinf n")
  case True
  then show ?thesis
    using isinf_bits [OF True] assms(3) by (cases "dbl_pos n") (auto simp: number_bytes_def be_bytes_8)
next
  case False
  with assms have "n = 0xfff8000000000000" "isnan n" by (auto simp: number_kept_def)
  with False assms(3) show ?thesis by (auto simp: number_bytes_def be_bytes_8)
qed

lemma unpack_number_bytes:
  assumes "number_bytes n = Inr e" "number_kept n" "reads_at b e"
  shows "mprbuf_unpack_anytype (Suc f) (b, stk, h) = Inr (rb_skip (length e) b, LNumber n # stk, h)"
proof (cases "isinf n \<or> isnan n \<or> dbl_int n = None")
  case True
  with assms(1) number_bytes_special [of n e] assms(2) have "e = 0xcb # be_bytes 8 (unat n)"
    by (cases "isinf n \<or> isnan n") (auto simp: number_bytes_def)
  with unpack_double [of b n] assms(3) show ?thesis by (simp del: be_bytes.simps)
next
  case False
  then obtain k where k: "dbl_int n = Some k" by auto
  with False assms(1) have r: "- (2 ^ 63) \<le> k" "k < 2 ^ 63" and e: "e = long_long_bytes k"
    by (auto simp: number_bytes_def c_to_int_def dbl_int_trunc [OF k] split: if_splits)
  have "dbl_of_int k = n"
  proof (cases "k = 0")
    case True
    with k assms(2) show ?thesis by (auto dest: dbl_int_0 simp: number_kept_def)
  next
    case False
    with k show ?thesis by (rule dbl_of_int_dbl_int)
  qed
  with unpack_long_long [OF r] assms(3) e show ?thesis by simp
qed

section \<open>Strings\<close>

lemma fixraw_byte:
  assumes "l < 32"
  shows "unat ((0xa0 :: byte) OR word_of_nat l) = 160 + l"
proof -
  have "l \<in> set [0..<32]" using assms by simp
  then show ?thesis by (simp add: upt_rec) (elim disjE; simp)
qed

lemma unpack_string_header:
  fixes h :: "'a slab_scheme"
  assumes "reads_at b (string_header l)" "l < 4294967295"
  shows "mprbuf_unpack_anytype (Suc f) (b, stk, h) =
    unpack_raw l (rb_skip (length (string_header l)) b, stk, h)"
proof -
  have form: ?thesis if "string_header l = t # be_bytes n l" "\<not> container_byte t" "l < 256 ^ n"
      "(unpack_scalar (unat t) :: 'a rstate \<Rightarrow> _) = with_count n unpack_raw" for t n
    using assms(1) that unpack_scalar_at [of b t f stk h] with_count_at [of "rb_skip 1 b" n l unpack_raw stk h]
      reads_at_Cons [of b t "be_bytes n l"] by simp
  consider "l < 32" | "32 \<le> l" "l < 65536" | "65536 \<le> l" by linarith
  then show ?thesis
  proof cases
    case 1
    then have h: "string_header l = [0xa0 OR word_of_nat l]" by (simp add: string_header_def)
    moreover have "unpack_scalar (160 + l) st = unpack_raw l st" for st :: "'a rstate"
    proof -
      have "(5 * 32 + l) mod 32 = l mod 32" by (rule mod_mult_self3)
      with 1 have "(160 + l) mod 32 = l" by simp
      with 1 show ?thesis by (cases st) (simp add: unpack_scalar_def)
    qed
    moreover have "\<not> container_byte (0xa0 OR word_of_nat l)"
      using 1 by (simp add: container_byte_def fixraw_byte)
    ultimately show ?thesis
      using assms(1) unpack_scalar_at [of b "0xa0 OR word_of_nat l" f stk h] fixraw_byte [OF 1] by simp
  next
    case 2
    then show ?thesis
      by (intro form [of "0xda" 2])
        (simp_all add: string_header_def container_byte_def unpack_scalar_forms del: be_bytes.simps)
  next
    case 3
    with assms(2) show ?thesis
      by (intro form [of "0xdb" 4])
        (simp_all add: string_header_def container_byte_def unpack_scalar_forms del: be_bytes.simps)
  qed
qed

section \<open>The value behind the slices\<close>

text \<open>A value with every buffer replaced by the string it holds.\<close>

fun view :: "'a slab_scheme \<Rightarrow> lval \<Rightarrow> lval" where
  "view h (LBuffer ms) = (case slice_bytes h ms of Inr s \<Rightarrow> LString s | Inl _ \<Rightarrow> LNil)"
| "view h (LTable kvs) = LTable (map (\<lambda>(k, v). (view h k, view h v)) kvs)"
| "view h v = v"

lemma slice_bytes_only_refs:
  "only_refs h h' \<Longrightarrow> slice_bytes h' ms = slice_bytes h ms"
  by (auto simp: slice_bytes_def block_read_def deref_def only_refs_def split: option.splits)

lemma view_only_refs: "only_refs h h' \<Longrightarrow> view h' v = view h v"
  by (induction h v rule: view.induct) (auto simp: slice_bytes_only_refs)

text \<open>
  The block a buffer is read from, when there is one, holds the bytes of the read buffer; this
  stays so, since reading changes reference counts only.
\<close>

definition rb_backed :: "mprbuf \<Rightarrow> 'a slab_scheme \<Rightarrow> bool" where
  "rb_backed b h \<longleftrightarrow> rb_mb b = None \<or> (\<exists>a blk. rb_mb b = Some a \<and> blocks h a = Some blk \<and> rb_base b \<le> mb_size blk \<and>
     rb_data b = mem_read (mb_bytes blk) (rb_base b) (mb_size blk - rb_base b))"

lemma rb_backed_reads:
  "reads (b, stk, h) (b', stk', h') \<Longrightarrow> rb_backed b h \<Longrightarrow> rb_backed b' h'"
  by (auto simp: reads_def rb_moved_def only_refs_def rb_backed_def)

text \<open>A string value becomes a slice of the block with the same bytes.\<close>

lemma unpack_raw_view:
  assumes "rd_ok (b, stk, h)" "rb_backed b h" "\<not> rb_map_keying b" "reads_at b s" "s \<noteq> []"
  obtains v h' where "unpack_raw (length s) (b, stk, h) = Inr (rb_skip (length s) b, v # stk, h')"
    "view h' v = LString s"
proof (cases "rb_mb b")
  case None
  with that [of "LString s" h] assms(4) reads_at_left [OF assms(4)] rb_load_at_exact [OF assms(4) refl]
  show thesis by (simp add: unpack_raw_def)
next
  case (Some a)
  then obtain blk where blk: "rb_mb b = Some a" "blocks h a = Some blk" "rb_base b \<le> mb_size blk"
      "rb_data b = mem_read (mb_bytes blk) (rb_base b) (mb_size blk - rb_base b)"
    using assms(2) by (auto simp: rb_backed_def)
  have ok: "slab_ok h" "0 < refs h a"
    using assms(1) blk(1) by (simp_all add: rd_ok_def rb_in_use_def)
  obtain ms h' where p: "lev_pushbuffer_from_mb (Some a) (length s) (Some (rb_base b + rb_ofs b)) h = Inr (ms, h')"
      "h' = put_block a (blk\<lparr>mb_refcount := mb_refcount blk + 1\<rparr>) h"
      "ms = \<lparr>ms_mb = a, ms_slice = rb_base b + rb_ofs b, ms_until = length s\<rparr>"
    by (rule lev_pushbuffer_from_mb_ok [OF ok(1) blk(2) referenced_not_pooled [OF ok],
          of "length s" "Some (rb_base b + rb_ofs b)"]) (use assms(5) in simp)
  have bound: "rb_ofs b + length s \<le> mb_size blk - rb_base b"
    using assms(4) blk(4) by (auto simp: reads_at_def roomy_def)
  then have "mem_read (mb_bytes blk) (rb_base b + rb_ofs b) (length s) = s"
    using assms(4) blk(4) by (simp add: reads_at_def min_def split: if_splits)
  moreover have "rb_base b + rb_ofs b + length s \<le> mb_size blk"
    using bound blk(3) by linarith
  ultimately have "slice_bytes h' ms = Inr s"
    by (simp add: slice_bytes_def block_read_def deref_def p(2,3) put_block_def)
  then show thesis
    using p(1) blk(1) assms(3,4) reads_at_left [OF assms(4)]
    by (intro that [of "LBuffer ms" h']) (simp_all add: unpack_raw_def p(3))
qed

section \<open>Values that survive the trip\<close>

text \<open>
  A key comes back as itself when it is a boolean, a string or a number that is kept and no NaN.
  A table that is written as an array must be a sequence of values that are not nil, one that is
  written as a map must have distinct keys (which every Lua table has). Empty strings do not
  survive as values: the reader makes them a slice of the whole block.
\<close>

fun key_kept :: "lval \<Rightarrow> bool" where
  "key_kept (LBoolean _) = True"
| "key_kept (LString _) = True"
| "key_kept (LNumber n) = (number_kept n \<and> \<not> isnan n)"
| "key_kept _ = False"

fun kept :: "(ltable \<Rightarrow> nat) \<Rightarrow> lval \<Rightarrow> bool" where
  "kept objlen (LNumber n) = number_kept n"
| "kept objlen (LString s) = (s \<noteq> [])"
| "kept objlen (LBuffer ms) = (ms_until ms \<noteq> 0)"
| "kept objlen (LTable kvs) =
     ((if 0 < objlen kvs then objlen kvs = length kvs \<and> kvs = seq_entries 0 (map snd kvs)
       else length kvs < 2 ^ 31 \<and> distinct (map fst kvs) \<and> list_all (\<lambda>(k, v). key_kept k) kvs) \<and>
      (\<forall>(k, v) \<in> set kvs. v \<noteq> LNil \<and> kept objlen v))"
| "kept objlen _ = True"

definition key_decodes :: "'a slab_scheme \<Rightarrow> lval \<Rightarrow> byte list \<Rightarrow> bool" where
  "key_decodes h0 k e \<longleftrightarrow> (\<forall>b stk h f. only_refs h0 h \<longrightarrow> reads_at b e \<longrightarrow> rb_map_keying b \<longrightarrow> 0 < f \<longrightarrow>
     mprbuf_unpack_anytype f (b, stk, h) = Inr (rb_skip (length e) b, k # stk, h))"

text \<open>What the reader may be started on, and what it must do on the encoding of a value.\<close>

definition starts :: "'a slab_scheme \<Rightarrow> byte list \<Rightarrow> 'a rstate \<Rightarrow> bool" where
  "starts h0 e st \<longleftrightarrow> (case st of (b, stk, h) \<Rightarrow> only_refs h0 h \<and> rd_ok (b, stk, h) \<and> rb_backed b h \<and>
     \<not> rb_map_keying b \<and> rb_err b = 0 \<and> reads_at b e)"

definition decodes :: "'a slab_scheme \<Rightarrow> lval \<Rightarrow> byte list \<Rightarrow> bool" where
  "decodes h0 u e \<longleftrightarrow> (\<forall>b stk h f. starts h0 e (b, stk, h) \<longrightarrow> mprbuf_left b < f \<longrightarrow>
     (\<exists>v h'. mprbuf_unpack_anytype f (b, stk, h) = Inr (rb_skip (length e) b, v # stk, h') \<and>
        view h' v = u))"

lemma key_decodes_kept:
  fixes h0 :: "'a slab_scheme"
  assumes "mp_encodes objlen hs k e" "key_kept k"
  shows "key_decodes h0 k e"
  unfolding key_decodes_def
proof (intro allI impI)
  fix b stk and h :: "'a slab_scheme" and f :: nat
  assume at: "reads_at b e" and key: "rb_map_keying b" and f: "0 < f"
  then obtain f' where f': "f = Suc f'" by (cases f) auto
  show "mprbuf_unpack_anytype f (b, stk, h) = Inr (rb_skip (length e) b, k # stk, h)"
  proof (cases k)
    case (LBoolean i)
    with assms(1) have e: "e = [if i then 0xc3 else 0xc2]" by simp
    with at LBoolean f' unpack_scalar_at [of b "hd e" f' stk h] show ?thesis
      by (cases i) (simp_all add: container_byte_def unpack_scalar_def)
  next
    case (LNumber n)
    with assms at f' show ?thesis by (simp add: unpack_number_bytes)
  next
    case (LString s)
    with assms(1) have e: "e = string_header (length s) @ s" "length s < 4294967295" by auto
    let ?b = "rb_skip (length (string_header (length s))) b"
    have "reads_at b (string_header (length s))" "reads_at ?b s"
      using at e(1) by (simp_all add: reads_at_append)
    with unpack_string_header [of b "length s" f' stk h] rb_load_at_exact [of ?b s "length s"] reads_at_left [of ?b s]
    show ?thesis using f' e key LString by (simp add: unpack_raw_def)
  qed (use assms(2) in simp_all)
qed

lemma starts_next:
  assumes "starts h0 (e1 @ e2) (b, stk, h)" "mprbuf_left b < f"
    and "mprbuf_unpack_anytype f (b, stk, h) = Inr (rb_skip (length e1) b, v # stk, h')"
  shows "starts h0 e2 (rb_skip (length e1) b, stk', h')" "only_refs h h'"
proof -
  have ok: "rd_ok (b, stk, h)" using assms(1) by (simp add: starts_def)
  from unpack_anytype_ok [OF ok, of f] assms(2,3)
  have r: "reads (b, stk, h) (rb_skip (length e1) b, v # stk, h')"
    by (simp add: scalar_ok_def)
  then show o: "only_refs h h'" by (simp add: reads_def)
  have "rd_ok (rb_skip (length e1) b, stk', h')"
    using reads_rd_ok [OF ok r] by (simp add: rd_ok_def)
  with assms(1) only_refs_trans [OF _ o] rb_backed_reads [OF r]
  show "starts h0 e2 (rb_skip (length e1) b, stk', h')"
    by (auto simp: starts_def reads_at_append)
qed

lemma mprbuf_left_skip: "mprbuf_left b < f \<Longrightarrow> reads_at b e \<Longrightarrow> mprbuf_left (rb_skip (length e) b) < f"
  by (auto simp: mprbuf_left_def reads_at_def roomy_def)

lemma view_seq_entries: "view h (LTable (seq_entries i vs)) = LTable (seq_entries i (map (view h) vs))"
  by (induction vs arbitrary: i) simp_all

lemma view_LNil: "view h v = LNil \<Longrightarrow> v = LNil \<or> (\<exists>ms. v = LBuffer ms)"
  by (cases v) (auto split: sum.splits)

text \<open>A value that is not nil is not read as nil.\<close>

lemma decodes_cases:
  assumes "decodes h0 u e1" "starts h0 (e1 @ e2) (b, stk, h)" "mprbuf_left b < f"
  obtains v h' where
    "mprbuf_unpack_anytype f (b, stk, h) = Inr (rb_skip (length e1) b, v # stk, h')"
    "view h' v = u" "only_refs h h'"
    "\<And>stk'. starts h0 e2 (rb_skip (length e1) b, stk', h')"
    "mprbuf_left (rb_skip (length e1) b) < f"
proof -
  have at: "reads_at b e1" using assms(2) by (simp add: starts_def reads_at_append)
  then have "starts h0 e1 (b, stk, h)" using assms(2) by (simp add: starts_def)
  with assms(1,3) obtain v h' where
    "mprbuf_unpack_anytype f (b, stk, h) = Inr (rb_skip (length e1) b, v # stk, h')" "view h' v = u"
    unfolding decodes_def by blast
  with starts_next [OF assms(2,3)] mprbuf_left_skip [OF assms(3) at] that show thesis by blast
qed

lemma lua_rawset_kept:
  assumes "key_kept k" "k \<notin> fst ` set kvs" "v \<noteq> LNil"
  shows "lua_rawset kvs k v = Inr (kvs @ [(k, v)])"
proof -
  have "norm_key k = k"
    using assms(1) by (cases k) (auto simp: norm_key.simps(1) number_kept_def)
  with assms show ?thesis by (cases k) (auto simp: lua_rawset_def tset_fresh)
qed

text \<open>
  The two loops, started with the elements read so far in the table on the top. A nil element of
  the result would be a lost one; the views say there is none, except that an unreadable buffer
  also shows as nil, so the elements are required to be read as something else.
\<close>

lemma array_decodes:
  assumes "list_all2 (decodes h0) us es" "LNil \<notin> set us"
    and "starts h0 (concat es) (b, LTable (seq_entries 0 vs) # stk, h)" "mprbuf_left b < f"
    and "length vs + length us < 2 ^ 31"
  shows "\<exists>ws h'. mprbuf_unpack_array f (length vs) (length vs + length us)
      (b, LTable (seq_entries 0 vs) # stk, h) =
      Inr (rb_skip (length (concat es)) b, LTable (seq_entries 0 (vs @ ws)) # stk, h') \<and>
    map (view h') ws = us \<and> only_refs h h'"
  using assms
proof (induction es arbitrary: us vs b h rule: list.induct)
  case Nil
  then show ?case
    by (intro exI [of _ "[]"] exI [of _ h])
       (simp add: mprbuf_unpack_array.simps [of f "length vs"] only_refs_refl)
next
  case (Cons e es)
  from Cons.prems(1) obtain u us' where us: "us = u # us'" "decodes h0 u e" "list_all2 (decodes h0) us' es"
    by (auto simp: list_all2_Cons2)
  let ?stk = "LTable (seq_entries 0 vs) # stk"
  obtain v h1 where r: "mprbuf_unpack_anytype f (b, ?stk, h) = Inr (rb_skip (length e) b, v # ?stk, h1)"
      "view h1 v = u" "only_refs h h1" "\<And>stk'. starts h0 (concat es) (rb_skip (length e) b, stk', h1)"
      "mprbuf_left (rb_skip (length e) b) < f"
    by (rule decodes_cases [OF us(2), of "concat es" b ?stk h f])
       (use Cons.prems(3,4) in simp_all)
  have "v \<noteq> LNil" using r(2) us(1) Cons.prems(2) by auto
  then have set1: "stack_rawseti (Suc (length vs)) (v # ?stk) = Inr (LTable (seq_entries 0 (vs @ [v])) # stk)"
    using lua_rawseti_seq [of vs v] Cons.prems(5) us(1) by (simp add: stack_rawseti_ok)
  have err: "rb_err b = 0" using Cons.prems(3) by (simp add: starts_def)
  obtain ws h' where ws: "mprbuf_unpack_array f (length (vs @ [v])) (length (vs @ [v]) + length us')
      (rb_skip (length e) b, LTable (seq_entries 0 (vs @ [v])) # stk, h1) =
      Inr (rb_skip (length (concat es)) (rb_skip (length e) b), LTable (seq_entries 0 ((vs @ [v]) @ ws)) # stk, h')"
      "map (view h') ws = us'" "only_refs h1 h'"
    using Cons.IH [OF us(3) _ r(4,5), of "vs @ [v]"] Cons.prems(2,5) us(1) by auto
  show ?case
    using r(1) set1 err ws us(1) r(2) view_only_refs [OF ws(3), of v] only_refs_trans [OF r(3) ws(3)]
    by (intro exI [of _ "v # ws"] exI [of _ h'])
       (simp add: mprbuf_unpack_array.simps [of f "length vs"])
qed

fun entries_decode :: "'a slab_scheme \<Rightarrow> (lval \<times> lval) list \<Rightarrow> byte list list \<Rightarrow> bool" where
  "entries_decode h0 [] es = (es = [])"
| "entries_decode h0 ((k, u) # kus) (ek # ev # es) =
     (key_decodes h0 k ek \<and> key_kept k \<and> decodes h0 u ev \<and> u \<noteq> LNil \<and> entries_decode h0 kus es)"
| "entries_decode h0 _ _ = False"

lemma map_decodes:
  assumes "entries_decode h0 kus es" "distinct (map fst (kvs @ kus))"
    and "starts h0 (concat es) (b, LTable kvs # stk, h)" "mprbuf_left b < f"
  shows "\<exists>kws h'. mprbuf_unpack_map f (length kvs) (length kvs + length kus) (b, LTable kvs # stk, h) =
      Inr (rb_skip (length (concat es)) b, LTable (kvs @ kws) # stk, h') \<and>
    map (\<lambda>(k, v). (k, view h' v)) kws = kus \<and> only_refs h h'"
  using assms
proof (induction h0 kus es arbitrary: kvs b h rule: entries_decode.induct)
  case (1 h0 es)
  then show ?case
    by (intro exI [of _ "[]"] exI [of _ h])
       (simp add: mprbuf_unpack_map.simps [of f "length kvs"] only_refs_refl)
next
  case (2 h0 k u kus ek ev es)
  let ?kb = "b\<lparr>rb_map_keying := True\<rparr>" and ?stk = "LTable kvs # stk"
  from "2.prems" have st: "starts h0 (ek @ ev @ concat es) (b, ?stk, h)" by simp
  then have at: "reads_at b ek" "reads_at (rb_skip (length ek) b) (ev @ concat es)" "only_refs h0 h"
      "\<not> rb_map_keying b" "rb_err b = 0"
    by (simp_all add: starts_def reads_at_append)
  have key: "mprbuf_unpack_anytype f (?kb, ?stk, h) = Inr (rb_skip (length ek) ?kb, k # ?stk, h)"
    using "2.prems"(1,4) at unfolding entries_decode.simps key_decodes_def by simp
  have unkey: "rb_skip (length ek) ?kb\<lparr>rb_map_keying := False\<rparr> = rb_skip (length ek) b"
    using at(4) by (simp add: rb_skip_def)
  let ?b1 = "rb_skip (length ek) b"
  have "reads (b, ?stk, h) (?b1, ?stk, h)"
    using st at(1) reads_at_left [OF at(1)]
    by (auto simp: starts_def rd_ok_def rb_in_use_def intro!: reads_same_heap rb_moved_skip)
  with st have st1: "starts h0 (ev @ concat es) (?b1, k # ?stk, h)"
    using reads_rd_ok [of "(b, ?stk, h)" "(?b1, ?stk, h)"] rb_backed_reads at(2)
    by (auto simp: starts_def rd_ok_def)
  obtain v h1 where r: "mprbuf_unpack_anytype f (?b1, k # ?stk, h) = Inr (rb_skip (length ev) ?b1, v # k # ?stk, h1)"
      "view h1 v = u" "only_refs h h1" "\<And>stk'. starts h0 (concat es) (rb_skip (length ev) ?b1, stk', h1)"
      "mprbuf_left (rb_skip (length ev) ?b1) < f"
    by (rule decodes_cases [OF _ st1, of u f])
       (use "2.prems"(1,4) mprbuf_left_skip [OF _ at(1)] in simp_all)
  have v: "v \<noteq> LNil" using r(2) "2.prems"(1) by auto
  have set1: "stack_rawset (v # k # ?stk) = Inr (LTable (kvs @ [(k, v)]) # stk)"
    using lua_rawset_kept [of k kvs v] "2.prems"(1,2) v by (auto simp: stack_rawset_def)
  have d: "distinct (map fst ((kvs @ [(k, v)]) @ kus))" using "2.prems"(2) by simp
  have e': "entries_decode h0 kus es" using "2.prems"(1) by simp
  obtain kws h' where kws: "mprbuf_unpack_map f (length (kvs @ [(k, v)])) (length (kvs @ [(k, v)]) + length kus)
      (rb_skip (length ev) ?b1, LTable (kvs @ [(k, v)]) # stk, h1) =
      Inr (rb_skip (length (concat es)) (rb_skip (length ev) ?b1), LTable ((kvs @ [(k, v)]) @ kws) # stk, h')"
      "map (\<lambda>(k, v). (k, view h' v)) kws = kus" "only_refs h1 h'"
    using "2.IH" [OF e' d r(4,5)] by blast
  have "mprbuf_unpack_map f (length kvs) (length kvs + length ((k, u) # kus)) (b, ?stk, h) =
      Inr (rb_skip (length (concat (ek # ev # es))) b, LTable (kvs @ (k, v) # kws) # stk, h')"
    using key unkey r(1) set1 kws(1)
    by (simp add: mprbuf_unpack_map.simps [of f "length kvs"] set_keying_def add.assoc)
  then show ?case
    using kws(2,3) r(2) view_only_refs [OF kws(3), of v] only_refs_trans [OF r(3) kws(3)]
    by (intro exI [of _ "(k, v) # kws"] exI [of _ h']) simp
qed simp_all

section \<open>Headers of containers\<close>

lemma fix_header_byte:
  assumes "l < 16"
  shows "unat ((0x90 :: byte) OR word_of_nat l) = 144 + l" "unat ((0x80 :: byte) OR word_of_nat l) = 128 + l"
    "(144 + l) mod 16 = l" "(128 + l) mod 16 = l"
proof -
  have "l \<in> set [0..<16]" using assms by simp
  then show "unat ((0x90 :: byte) OR word_of_nat l) = 144 + l" "unat ((0x80 :: byte) OR word_of_nat l) = 128 + l"
    by (simp_all add: upt_rec) (elim disjE; simp)+
  have "(9 * 16 + l) mod 16 = l mod 16" "(8 * 16 + l) mod 16 = l mod 16" by (rule mod_mult_self3)+
  with assms show "(144 + l) mod 16 = l" "(128 + l) mod 16 = l" by simp_all
qed

lemma unpack_fix_header:
  assumes "reads_at b [t]" "0x80 \<le> unat t" "unat t \<le> 0x9f"
  shows "mprbuf_unpack_anytype (Suc f) (b, stk, h) =
    (if unat t \<le> 0x8f then mprbuf_unpack_map f 0 (unat t mod 16) (rb_skip 1 b, LTable [] # stk, h)
     else mprbuf_unpack_array f 0 (unat t mod 16) (rb_skip 1 b, LTable [] # stk, h))"
  using assms reads_at_left [OF assms(1)] rb_load_at_exact [OF assms(1), of 1]
  by (auto simp: mprbuf_unpack_anytype.simps Let_def push_table_def simp del: One_nat_def)

lemma unpack_count_header:
  fixes h :: "'a slab_scheme"
  assumes "reads_at b (t # be_bytes n l)" "l < 256 ^ n" "l < 2 ^ 31"
    and "(unat t = 0xdc \<and> n = 2) \<or> (unat t = 0xdd \<and> n = 4) \<or> (unat t = 0xde \<and> n = 2) \<or> (unat t = 0xdf \<and> n = 4)"
  shows "mprbuf_unpack_anytype (Suc f) (b, stk, h) =
    (if unat t \<le> 0xdd then mprbuf_unpack_array f 0 l (rb_skip (Suc n) b, LTable [] # stk, h)
     else mprbuf_unpack_map f 0 l (rb_skip (Suc n) b, LTable [] # stk, h))"
proof -
  have at: "reads_at b [t]" "reads_at (rb_skip 1 b) (be_bytes n l)"
    using assms(1) reads_at_Cons [of b t "be_bytes n l"] by auto
  have int: "nat (to_int (int l)) = l" using assms(3) by simp
  have wc: "with_count m g (rb_skip 1 b, stk, h) = g l (rb_skip (Suc n) b, stk, h)" if "m = n"
    for m and g :: "nat \<Rightarrow> 'a rstate \<Rightarrow> 'a rstate res"
    using with_count_at [OF at(2) assms(2), of g stk h] that by simp
  show ?thesis
    using assms(4) reads_at_left [OF at(1)] rb_load_at_exact [OF at(1), of 1] int
    by (elim disjE; simp add: mprbuf_unpack_anytype.simps Let_def push_table_def wc del: One_nat_def)
qed

lemma unpack_array_header:
  assumes "reads_at b (header_bytes 0x90 0xdc 0xdd l)" "l < 2 ^ 31"
  shows "mprbuf_unpack_anytype (Suc f) (b, stk, h) =
    mprbuf_unpack_array f 0 l (rb_skip (length (header_bytes 0x90 0xdc 0xdd l)) b, LTable [] # stk, h)"
proof -
  consider "l < 16" | "16 \<le> l" "l < 65536" | "65536 \<le> l" by linarith
  then show ?thesis
  proof cases
    case 1
    with assms fix_header_byte [OF 1] unpack_fix_header [of b "0x90 OR word_of_nat l" f stk h]
    show ?thesis by (simp add: header_bytes_def)
  next
    case 2
    with assms unpack_count_header [of b "0xdc" 2 l f stk h]
    show ?thesis by (simp add: header_bytes_def del: be_bytes.simps)
  next
    case 3
    with assms unpack_count_header [of b "0xdd" 4 l f stk h]
    show ?thesis by (simp add: header_bytes_def del: be_bytes.simps)
  qed
qed

lemma unpack_map_header:
  assumes "reads_at b (header_bytes 0x80 0xde 0xdf l)" "l < 2 ^ 31"
  shows "mprbuf_unpack_anytype (Suc f) (b, stk, h) =
    mprbuf_unpack_map f 0 l (rb_skip (length (header_bytes 0x80 0xde 0xdf l)) b, LTable [] # stk, h)"
proof -
  consider "l < 16" | "16 \<le> l" "l < 65536" | "65536 \<le> l" by linarith
  then show ?thesis
  proof cases
    case 1
    with assms fix_header_byte [OF 1] unpack_fix_header [of b "0x80 OR word_of_nat l" f stk h]
    show ?thesis by (simp add: header_bytes_def)
  next
    case 2
    with assms unpack_count_header [of b "0xde" 2 l f stk h]
    show ?thesis by (simp add: header_bytes_def del: be_bytes.simps)
  next
    case 3
    with assms unpack_count_header [of b "0xdf" 4 l f stk h]
    show ?thesis by (simp add: header_bytes_def del: be_bytes.simps)
  qed
qed

section \<open>The reader undoes the writer\<close>

lemma starts_skip:
  assumes "starts h0 (e1 @ e2) (b, stk, h)"
  shows "starts h0 e2 (rb_skip (length e1) b, stk', h)"
proof -
  have at: "reads_at b e1" "reads_at (rb_skip (length e1) b) e2"
    using assms by (simp_all add: starts_def reads_at_append)
  have "rd_ok (b, stk, h)" using assms by (simp add: starts_def)
  then have "rd_ok (rb_skip (length e1) b, stk', h)"
    using rb_moved_roomy [OF _ rb_moved_skip [OF _ reads_at_left [OF at(1)]]]
    by (simp add: rd_ok_def rb_in_use_def)
  with assms at(2) show ?thesis by (simp add: starts_def rb_backed_def)
qed

lemma view_not_LNil: "mp_encodes objlen hs v e \<Longrightarrow> v \<noteq> LNil \<Longrightarrow> view hs v \<noteq> LNil"
  by (cases v) (auto simp: slice_bytes_def)


lemma array_kept:
  assumes "0 < objlen kvs" "objlen kvs < 2 ^ 31" "kept objlen (LTable kvs)"
  defines "vs \<equiv> map snd kvs"
  shows "kvs = seq_entries 0 vs" "length vs = objlen kvs" "map (lua_rawgeti kvs) [1..<Suc (objlen kvs)] = vs"
    "LNil \<notin> set vs" "\<And>v. v \<in> set vs \<Longrightarrow> kept objlen v"
proof -
  show kvs: "kvs = seq_entries 0 vs" and len: "length vs = objlen kvs"
    using assms(1,3) by (auto simp: vs_def)
  show "map (lua_rawgeti kvs) [1..<Suc (objlen kvs)] = vs"
  proof (rule nth_equalityI)
    show "length (map (lua_rawgeti kvs) [1..<Suc (objlen kvs)]) = length vs" by (simp add: len)
    fix i assume "i < length (map (lua_rawgeti kvs) [1..<Suc (objlen kvs)])"
    then have i: "i < objlen kvs" by (simp del: upt_Suc)
    then have "lua_rawgeti kvs (Suc i) = vs ! i"
      using assms(2) len by (subst kvs) (simp add: lua_rawgeti_seq)
    with i show "map (lua_rawgeti kvs) [1..<Suc (objlen kvs)] ! i = vs ! i" by (simp del: upt_Suc)
  qed
  show "LNil \<notin> set vs" "\<And>v. v \<in> set vs \<Longrightarrow> kept objlen v"
    using assms(3) by (auto simp: vs_def)
qed

lemma entries_decode_kept:
  assumes "list_all2 (\<lambda>v e. mp_encodes objlen hs v e \<and> (kept objlen v \<longrightarrow> decodes h0 (view hs v) e)) (entries_seq kvs) es"
    and "list_all (\<lambda>(k, v). key_kept k \<and> v \<noteq> LNil \<and> kept objlen v) kvs"
  shows "entries_decode h0 (map (\<lambda>(k, v). (k, view hs v)) kvs) es"
  using assms
proof (induction kvs arbitrary: es rule: list.induct)
  case Nil
  then show ?case by (simp add: entries_seq_def)
next
  case (Cons kv kvs)
  obtain k v where kv: "kv = (k, v)" by fastforce
  with Cons.prems(1) obtain ek ev es' where es: "es = ek # ev # es'"
    and ek: "mp_encodes objlen hs k ek" and ev: "mp_encodes objlen hs v ev" "kept objlen v \<longrightarrow> decodes h0 (view hs v) ev"
    and es': "list_all2 (\<lambda>v e. mp_encodes objlen hs v e \<and> (kept objlen v \<longrightarrow> decodes h0 (view hs v) e)) (entries_seq kvs) es'"
    by (auto simp: entries_seq_def list_all2_Cons1)
  with Cons.prems(2) kv Cons.IH [OF es'] key_decodes_kept [OF ek] view_not_LNil [OF ev(1)]
  show ?case by auto
qed

lemma view_kept_entries:
  assumes "list_all (\<lambda>(k, v). key_kept k) kvs"
  shows "view h (LTable kvs) = LTable (map (\<lambda>(k, v). (k, view h v)) kvs)"
proof -
  have "key_kept k \<Longrightarrow> view h k = k" for k by (cases k) simp_all
  with assms show ?thesis by (auto simp: list_all_iff)
qed

lemma string_decodes:
  assumes "length s < 4294967295" "s \<noteq> []"
  shows "decodes h0 (LString s) (string_header (length s) @ s)"
  unfolding decodes_def
proof (intro allI impI)
  fix b stk and h :: "'a slab_scheme" and f
  assume st: "starts h0 (string_header (length s) @ s) (b, stk, h)" and f: "mprbuf_left b < f"
  then obtain f' where f': "f = Suc f'" by (cases f) auto
  let ?b = "rb_skip (length (string_header (length s))) b"
  from starts_skip [OF st, of stk] have st': "starts h0 s (?b, stk, h)" .
  from st have "reads_at b (string_header (length s))" by (simp add: starts_def reads_at_append)
  from unpack_string_header [OF this assms(1), of f' stk h]
  have eq: "mprbuf_unpack_anytype f (b, stk, h) = unpack_raw (length s) (?b, stk, h)" by (simp add: f')
  obtain v h' where "unpack_raw (length s) (?b, stk, h) = Inr (rb_skip (length s) ?b, v # stk, h')"
      "view h' v = LString s"
    by (rule unpack_raw_view [of ?b stk h s]) (use st' assms(2) in \<open>simp_all add: starts_def\<close>)
  with eq show "\<exists>v h'. mprbuf_unpack_anytype f (b, stk, h) =
      Inr (rb_skip (length (string_header (length s) @ s)) b, v # stk, h') \<and> view h' v = LString s" by simp
qed

lemma scalar_decodes:
  assumes "\<And>b stk (h :: 'a slab_scheme) f. reads_at b e \<Longrightarrow>
      mprbuf_unpack_anytype (Suc f) (b, stk, h) = Inr (rb_skip (length e) b, v # stk, h)"
    and "\<And>h :: 'a slab_scheme. view h v = v"
  shows "decodes (h0 :: 'a slab_scheme) v e"
  unfolding decodes_def
proof (intro allI impI)
  fix b stk and h :: "'a slab_scheme" and f
  assume "starts h0 e (b, stk, h)" "mprbuf_left b < f"
  then show "\<exists>v' h'. mprbuf_unpack_anytype f (b, stk, h) = Inr (rb_skip (length e) b, v' # stk, h') \<and> view h' v' = v"
    using assms by (cases f) (auto simp: starts_def)
qed

text \<open>The encoding of a value is decoded to the value, whatever the heap of the reader.\<close>

lemma mp_encodes_decodes:
  fixes h0 :: "'a slab_scheme"
  assumes "mp_encodes objlen hs v e" "kept objlen v"
  shows "decodes h0 (view hs v) e"
  using assms
proof (induction rule: mp_encodes.induct)
  case enc_nil
  show ?case
    using unpack_scalar_at [where t = "0xc0"]
    by (intro scalar_decodes) (simp_all add: container_byte_def unpack_scalar_def)
next
  case (enc_boolean i)
  show ?case
    using unpack_scalar_at [where t = "0xc3"] unpack_scalar_at [where t = "0xc2"]
    by (cases i; intro scalar_decodes; simp add: container_byte_def unpack_scalar_def)
next
  case (enc_number n e)
  then show ?case by (intro scalar_decodes) (simp_all add: unpack_number_bytes)
next
  case (enc_string s)
  then show ?case by (simp add: string_decodes)
next
  case (enc_buffer ms s)
  from enc_buffer(1) have "length s = ms_until ms"
    by (auto simp: block_read_def deref_def split: option.splits if_splits)
  with enc_buffer(3) have "s \<noteq> []" by auto
  with string_decodes [OF enc_buffer(2) this, of h0] enc_buffer(1) show ?case
    by (simp add: slice_bytes_def)
next
  case (enc_array kvs es)
  note k = array_kept [OF enc_array(1,2,4)]
  let ?us = "map (view hs) (map snd kvs)"
  have encs: "list_all2 (mp_encodes objlen hs) (map snd kvs) es"
    using enc_array.IH unfolding k(3) by (rule list_all2_mono) simp
  have us: "list_all2 (decodes h0) ?us es"
    using enc_array.IH k(5) unfolding k(3) list_all2_map1
    by (elim list.rel_mono_strong) auto
  have nn: "LNil \<notin> set ?us"
  proof
    assume "LNil \<in> set ?us"
    then obtain v where v: "v \<in> set (map snd kvs)" "view hs v = LNil" by (metis imageE list.set_map)
    then obtain e where "mp_encodes objlen hs v e"
      using encs by (metis in_set_conv_nth list_all2_conv_all_nth)
    with v k(4) view_not_LNil show False by metis
  qed
  show ?case
    unfolding decodes_def
  proof (intro allI impI)
    fix b stk and h :: "'a slab_scheme" and f
    let ?hd = "header_bytes 0x90 0xdc 0xdd (objlen kvs)"
    assume st: "starts h0 (?hd @ concat es) (b, stk, h)" and f: "mprbuf_left b < f"
    then obtain f' where f': "f = Suc f'" by (cases f) auto
    have at: "reads_at b ?hd" using st by (simp add: starts_def reads_at_append)
    then have left: "mprbuf_left (rb_skip (length ?hd) b) < f'"
      using f f' reads_at_left [OF at] by (auto simp: reads_at_def roomy_def mprbuf_left_def header_bytes_def)
    obtain ws h' where ws: "mprbuf_unpack_array f' 0 (length ?us) (rb_skip (length ?hd) b, LTable [] # stk, h) =
        Inr (rb_skip (length (concat es)) (rb_skip (length ?hd) b), LTable (seq_entries 0 ws) # stk, h')"
        "map (view h') ws = ?us"
      using array_decodes [OF us nn, of "rb_skip (length ?hd) b" "[]" stk h f'] left starts_skip [OF st]
        enc_array(2) k(2) by auto
    have "view h' (LTable (seq_entries 0 ws)) = view hs (LTable kvs)"
      by (subst k(1)) (simp only: view_seq_entries ws(2))
    with ws(1) unpack_array_header [OF at enc_array(2), of f' stk h] k(2)
    show "\<exists>v h'. mprbuf_unpack_anytype f (b, stk, h) = Inr (rb_skip (length (?hd @ concat es)) b, v # stk, h') \<and>
        view h' v = view hs (LTable kvs)"
      by (intro exI [of _ "LTable (seq_entries 0 ws)"] exI [of _ h']) (simp only: f' length_map, simp)
  qed
next
  case (enc_map kvs es)
  let ?us = "map (\<lambda>(k, v). (k, view hs v)) kvs"
  have keys: "list_all (\<lambda>(k, v). key_kept k) kvs" and d: "distinct (map fst kvs)" and l: "length kvs < 2 ^ 31"
    and vals: "list_all (\<lambda>(k, v). key_kept k \<and> v \<noteq> LNil \<and> kept objlen v) kvs"
    using enc_map(1,4) by (auto simp: list_all_iff)
  have us: "entries_decode h0 ?us es"
    by (rule entries_decode_kept [OF enc_map.IH vals])
  have dus: "distinct (map fst ([] @ ?us))" using d by (simp add: case_prod_beta comp_def)
  show ?case
    unfolding decodes_def
  proof (intro allI impI)
    fix b stk and h :: "'a slab_scheme" and f
    let ?hd = "header_bytes 0x80 0xde 0xdf (length kvs)"
    assume st: "starts h0 (?hd @ concat es) (b, stk, h)" and f: "mprbuf_left b < f"
    then obtain f' where f': "f = Suc f'" by (cases f) auto
    have at: "reads_at b ?hd" using st by (simp add: starts_def reads_at_append)
    then have left: "mprbuf_left (rb_skip (length ?hd) b) < f'"
      using f f' reads_at_left [OF at] by (auto simp: reads_at_def roomy_def mprbuf_left_def header_bytes_def)
    obtain kws h' where kws: "mprbuf_unpack_map f' 0 (length kvs) (rb_skip (length ?hd) b, LTable [] # stk, h) =
        Inr (rb_skip (length (concat es)) (rb_skip (length ?hd) b), LTable kws # stk, h')"
        "map (\<lambda>(k, v). (k, view h' v)) kws = ?us"
      using map_decodes [OF us dus starts_skip [OF st] left, of stk] by auto
    have "map fst kws = map fst (map (\<lambda>(k, v). (k, view h' v)) kws)"
      by (simp add: case_prod_beta comp_def)
    also have "\<dots> = map fst kvs"
      unfolding kws(2) by (simp add: case_prod_beta comp_def)
    finally have "list_all (\<lambda>(k, v). key_kept k) kws"
      using keys unfolding list_all_iff case_prod_beta by (metis (no_types, lifting) imageE image_eqI list.set_map)
    then have "view h' (LTable kws) = view hs (LTable kvs)"
      by (simp only: view_kept_entries keys kws(2))
    with kws(1) unpack_map_header [OF at l, of f' stk h]
    show "\<exists>v h'. mprbuf_unpack_anytype f (b, stk, h) = Inr (rb_skip (length (?hd @ concat es)) b, v # stk, h') \<and>
        view h' v = view hs (LTable kvs)"
      by (intro exI [of _ "LTable kws"] exI [of _ h']) (simp only: f', simp)
  qed
qed

end
