(* ===== verification/Mpack_Api.thy ===== *)
theory Mpack_Api
  imports Mpack_Roundtrip
begin

text \<open>
  The Lua functions \<open>pack\<close> and \<open>unpack\<close> of \<open>src/lev_mpack.c\<close> (\<open>msgpack_pack_api\<close>,
  \<open>msgpack_unpack_api\<close>) and \<open>largetbl\<close>, on top of the writer and the reader.
\<close>

section \<open>pack\<close>

text \<open>The message for an error word: the first bit that is set in this order.\<close>

definition mpack_errmsg :: "32 word \<Rightarrow> string" where
  "mpack_errmsg err =
     (if err AND ERRORBIT_BUFNOLEFT \<noteq> 0 then ''no buffer left''
      else if err AND ERRORBIT_STRINGLEN \<noteq> 0 then ''string too long''
      else if err AND ERRORBIT_TYPE_LIGHTUSERDATA \<noteq> 0 then ''invalid type: lightuserdata''
      else if err AND ERRORBIT_TYPE_FUNCTION \<noteq> 0 then ''invalid type: function''
      else if err AND ERRORBIT_TYPE_USERDATA \<noteq> 0 then ''invalid type: userdata''
      else if err AND ERRORBIT_TYPE_THREAD \<noteq> 0 then ''invalid type: thread''
      else if err AND ERRORBIT_TYPE_UNKNOWN \<noteq> 0 then ''invalid type: unknown''
      else ''unknown error'')"

text \<open>
  The argument is absent (\<open>LUA_TNONE\<close>) or a value; \<open>g\<close> is the global buffer \<open>g_mpwbuf\<close>. The bytes
  are copied to a block of their own; \<open>nbytes\<close> of the block stays 0.
\<close>

definition msgpack_pack_api ::
    "(ltable \<Rightarrow> nat) \<Rightarrow> lval option \<Rightarrow> mpwbuf \<Rightarrow> 'a slab_scheme \<Rightarrow>
      (MemSlice \<times> mpwbuf \<times> 'a slab_scheme) res" where
  "msgpack_pack_api objlen arg g h =
     bind_res
       (case arg of
          None \<Rightarrow> Inr (0, wb_or_err ERRORBIT_TYPE_UNKNOWN (mpwbuf_init g))
        | Some v \<Rightarrow> mpwbuf_pack_anytype objlen h v (mpwbuf_init g))
       (\<lambda>(wlen, b).
         if 0 < wlen \<and> wb_err b = 0 then
           (case lev_slab_getBlock (wb_used b) h of (out_mb, h1) \<Rightarrow>
            bind_res (deref h1 out_mb) (\<lambda>blk.
            bind_res (lev_pushbuffer_from_mb out_mb (wb_used b) (Some (mb_nbytes blk)) h1) (\<lambda>(ms, h2).
            bind_res (block_write (the out_mb) (mb_nbytes blk) (mem_read (wb_data b) 0 (wb_used b)) h2) (\<lambda>h3.
            Inr (ms, b, h3)))))
         else Inl (Lua_error (mpack_errmsg (wb_err b))))"

section \<open>unpack\<close>

text \<open>\<open>lua_replace(L, -n)\<close>: the value on the top replaces the one at position \<open>-n\<close> and is popped.\<close>

definition lua_replace :: "nat \<Rightarrow> lval list \<Rightarrow> lval list res" where
  "lua_replace n stk =
     (case stk of
        v # rest \<Rightarrow> if 2 \<le> n \<and> n - 2 < length rest then Inr (rest[n - 2 := v])
                     else Inl (Undefined ''no such stack slot'')
      | [] \<Rightarrow> Inl (Undefined ''no such stack slot''))"

text \<open>The results are the last values of the stack, the first one deepest.\<close>

definition top_results :: "nat \<Rightarrow> lval list \<Rightarrow> lval list" where
  "top_results n stk = rev (take n stk)"

definition msgpack_unpack_api :: "MemSlice \<Rightarrow> 'a slab_scheme \<Rightarrow> (lval list \<times> 'a slab_scheme) res" where
  "msgpack_unpack_api ms h =
     (let len = ms_until ms in
      if len = 0 then Inr ([LNil], h)
      else
        bind_res (mprbuf_mb_init (ms_mb ms) (ms_slice ms) len h) (\<lambda>rb0.
        bind_res (mprbuf_unpack_anytype (Suc (mprbuf_left rb0)) (rb0, [lua_int (- 123456), LBuffer ms], h))
          (\<lambda>(rb, stk, h').
            if 0 < rb_ofs rb \<and> rb_err rb = 0 then
              bind_res (lua_replace 3 (lua_int (int (rb_ofs rb)) # stk)) (\<lambda>stk'.
                Inr (top_results 2 stk', h'))
            else
              bind_res (lua_replace 3 (LNil # stk)) (\<lambda>stk1.
              bind_res (lua_replace 2 (LNil # stk1)) (\<lambda>stk2.
                Inr (top_results 2 stk2, h'))))))"

definition msgpack_largetbl :: "int \<Rightarrow> ltable" where
  "msgpack_largetbl n =
     fold (\<lambda>i t. lua_rawseti t (Suc i) (lua_int (int i))) [0..<nat n] []"

section \<open>What they do\<close>

lemma wb_init [simp]: "wb_ok (mpwbuf_init g)" "wb_err (mpwbuf_init g) = 0" "wb_out (mpwbuf_init g) = []"
  "mpwbuf_left (mpwbuf_init g) = 1048576" "wb_capacity (mpwbuf_init g) = 1048576" "wb_used (mpwbuf_init g) = 0"
  by (simp_all add: wb_ok_def mpwbuf_init_def wb_out_def mpwbuf_left_def)

lemma mp_encodes_nonempty: "mp_encodes objlen h v e \<Longrightarrow> e \<noteq> []"
  by (induction rule: mp_encodes.induct)
     (auto simp: number_bytes_def long_long_bytes_def string_header_def header_bytes_def bind_res_Inr_iff
       split: if_splits option.splits)

text \<open>A value with an encoding of at most a megabyte is packed into a buffer that holds it.\<close>

lemma pack_api_ok:
  assumes "slab_ok h" "mp_encodes objlen h v e" "length e \<le> 1048576"
  obtains ms g' h' blk c old where "msgpack_pack_api objlen (Some v) g h = Inr (ms, g', h')"
    "slab_ok h'" "ms_slice ms = 0" "ms_until ms = length e" "slab_class_for (length e) = Some (c, class_size c)"
    "blocks h' (ms_mb ms) = Some \<lparr>mb_allocator = c, mb_refcount = 1, mb_size = class_size c,
       mb_nbytes = 0, mb_bytes = mem_write old 0 e\<rparr>"
    "refs h (ms_mb ms) = 0" "\<And>x. x \<noteq> ms_mb ms \<Longrightarrow> blocks h' x = blocks h x"
proof -
  note ne = mp_encodes_nonempty [OF assms(2)]
  obtain b where p: "mpwbuf_pack_anytype objlen h v (mpwbuf_init g) = Inr (length e, b)"
      "wb_err b = 0" "mem_read (wb_data b) 0 (wb_used b) = e"
    by (rule packsD [OF mp_encodes_packs [OF assms(2)] wb_init(1) [of g]])
       (use assms(3) in \<open>auto simp: emits_def wb_out_def\<close>)
  have used: "wb_used b = length e" using p(3) by (metis length_mem_read)
  obtain a h1 where gb: "lev_slab_getBlock (length e) h = (Some a, h1)"
    using getBlock_None_iff [of "length e" h] assms(3) by (cases "lev_slab_getBlock (length e) h") auto
  note g = getBlock_Some [OF assms(1) gb]
  obtain c old where blk: "slab_class_for (length e) = Some (c, class_size c)" "blocks h1 a = Some \<lparr>mb_allocator = c, mb_refcount = 0,
      mb_size = class_size c, mb_nbytes = 0, mb_bytes = old\<rparr>" using getBlock_class [OF gb] by blast
  have le: "length e \<le> class_size c" using slab_class_for_size [OF blk(1)] by simp
  obtain ms h2 where ms: "lev_pushbuffer_from_mb (Some a) (length e) (Some 0) h1 = Inr (ms, h2)" "slab_ok h2"
      "h2 = put_block a \<lparr>mb_allocator = c, mb_refcount = 1, mb_size = class_size c, mb_nbytes = 0, mb_bytes = old\<rparr> h1"
      "ms = \<lparr>ms_mb = a, ms_slice = 0, ms_until = length e\<rparr>"
    by (rule lev_pushbuffer_from_mb_ok [OF g(1) blk(2) g(3), of "length e" "Some 0"]) (use ne in simp)
  let ?h3 = "put_block a \<lparr>mb_allocator = c, mb_refcount = 1, mb_size = class_size c, mb_nbytes = 0,
      mb_bytes = mem_write old 0 e\<rparr> h2"
  have w: "block_write a 0 e h2 = Inr ?h3"
    using le by (simp add: block_write_def deref_def ms(3) put_block_def)
  have "blocks h2 a = Some \<lparr>mb_allocator = c, mb_refcount = 1, mb_size = class_size c, mb_nbytes = 0, mb_bytes = old\<rparr>"
    by (simp add: ms(3) put_block_def)
  then have "slab_ok ?h3"
    using g(3) by (intro slab_ok_put_block [OF ms(2)]) (simp_all add: ms(3))
  moreover have "msgpack_pack_api objlen (Some v) g h = Inr (ms, b, ?h3)"
    using p used gb blk ms(1,4) w ne by (simp add: msgpack_pack_api_def deref_def)
  ultimately show thesis
    using ms(4) blk(1) g(2) g(4) by (intro that [of ms b ?h3 c old]) (auto simp: put_block_def ms(3))
qed

text \<open>\<open>unpack\<close> on a slice in use with room behind it.\<close>

definition roomy_slice :: "'a slab_scheme \<Rightarrow> MemSlice \<Rightarrow> bool" where
  "roomy_slice h ms \<longleftrightarrow> (\<exists>b. blocks h (ms_mb ms) = Some b \<and> 0 < mb_refcount b \<and>
     ms_slice ms + ms_until ms + 4 \<le> mb_size b)"

lemma mb_init_ok:
  assumes "slab_ok h" "roomy_slice h ms"
  obtains rb where "mprbuf_mb_init (ms_mb ms) (ms_slice ms) (ms_until ms) h = Inr rb"
    "rd_ok (rb, stk, h)" "rb_backed rb h" "rb_ofs rb = 0" "rb_err rb = 0" "\<not> rb_map_keying rb"
    "mprbuf_left rb = ms_until ms" "rb_mb rb = Some (ms_mb ms)" "rb_len rb = ms_until ms"
    "\<And>b. blocks h (ms_mb ms) = Some b \<Longrightarrow>
        rb_data rb = mem_read (mb_bytes b) (ms_slice ms) (mb_size b - ms_slice ms)"
proof -
  obtain b where b: "blocks h (ms_mb ms) = Some b" "0 < mb_refcount b"
      "ms_slice ms + ms_until ms + 4 \<le> mb_size b"
    using assms(2) by (auto simp: roomy_slice_def)
  then show thesis
    using assms(1)
    by (intro that) (auto simp: mprbuf_mb_init_def deref_def rd_ok_def roomy_def rb_in_use_def refs_def
        rb_backed_def mprbuf_left_def)
qed

lemma unpack_api_of:
  assumes "ms_until ms \<noteq> 0"
    and "mprbuf_mb_init (ms_mb ms) (ms_slice ms) (ms_until ms) h = Inr rb0"
    and "mprbuf_unpack_anytype (Suc (mprbuf_left rb0)) (rb0, [lua_int (- 123456), LBuffer ms], h) =
        Inr (rb, v # [lua_int (- 123456), LBuffer ms], h')"
    and "0 < rb_ofs rb" "rb_err rb = 0"
  shows "msgpack_unpack_api ms h = Inr ([lua_int (int (rb_ofs rb)), v], h')"
  using assms by (simp add: msgpack_unpack_api_def lua_replace_def top_results_def)

text \<open>What \<open>unpack\<close> can end in: a fault of the map loop, or one of three result lists.\<close>

definition unpack_result_ok :: "MemSlice \<Rightarrow> 'a slab_scheme \<Rightarrow> lval list \<times> 'a slab_scheme \<Rightarrow> bool" where
  "unpack_result_ok ms h r \<longleftrightarrow> (case r of (vs, h') \<Rightarrow>
     slab_ok h' \<and> only_refs h h' \<and>
     (if ms_until ms = 0 then vs = [LNil]
      else vs = [LNil, LNil] \<or>
        (\<exists>n v. vs = [lua_int (int n), v] \<and> 0 < n \<and> n \<le> ms_until ms \<and>
           (\<forall>a. bufs a v \<le> refs h' a - refs h a))))"

lemma unpack_api_ok:
  assumes "slab_ok h" "roomy_slice h ms"
  shows "res_all (unpack_result_ok ms h) (msgpack_unpack_api ms h)"
proof (cases "ms_until ms = 0")
  case True
  with assms(1) show ?thesis
    by (simp add: msgpack_unpack_api_def unpack_result_ok_def only_refs_refl)
next
  case False
  let ?base = "[lua_int (- 123456), LBuffer ms]"
  obtain rb where rb: "mprbuf_mb_init (ms_mb ms) (ms_slice ms) (ms_until ms) h = Inr rb"
      "rd_ok (rb, ?base, h)" "rb_err rb = 0" "rb_len rb = ms_until ms"
    by (rule mb_init_ok [OF assms])
  from unpack_anytype_ok [OF rb(2), of "Suc (mprbuf_left rb)"]
  have ok: "scalar_ok (rb, ?base, h) (mprbuf_unpack_anytype (Suc (mprbuf_left rb)) (rb, ?base, h))" by simp
  show ?thesis
  proof (cases "mprbuf_unpack_anytype (Suc (mprbuf_left rb)) (rb, ?base, h)")
    case (Inl e)
    with ok rb(1) False show ?thesis by (simp add: msgpack_unpack_api_def scalar_ok_def)
  next
    case (Inr st)
    obtain rb' stk h' where st: "st = (rb', stk, h')" by (cases st)
    from ok Inr st have r: "reads (rb, ?base, h) (rb', stk, h')" and p: "pushes_one (rb, ?base, h) (rb', stk, h')"
      by (simp_all add: scalar_ok_def)
    then have inv: "slab_ok h'" "only_refs h h'" "rb_ofs rb' \<le> ms_until ms"
      and counted: "\<And>a. stack_bufs a stk - stack_bufs a ?base \<le> refs h' a - refs h a"
      by (auto simp: reads_def rb_moved_def counted_def rb(4))
    have "suffix ?base stk" using r by (auto simp: reads_def based_def)
    then obtain top where stk: "stk = top @ ?base" by (auto simp: suffix_def)
    show ?thesis
    proof (cases "0 < rb_ofs rb' \<and> rb_err rb' = 0")
      case True
      with p obtain v where v: "stk = v # ?base" by (auto simp: pushes_one_def)
      have "bufs a v \<le> refs h' a - refs h a" for a using counted [of a] v by simp
      with unpack_api_of [OF False rb(1) _ True [THEN conjunct1] True [THEN conjunct2]] Inr st v inv True False
      show ?thesis by (auto simp: unpack_result_ok_def)
    next
      case False2: False
      have two: "lua_replace 3 (LNil # stk) = Inr (stk[1 := LNil])" "length stk \<ge> 2"
        by (simp_all add: lua_replace_def stk)
      moreover have "lua_replace 2 (LNil # stk[1 := LNil]) = Inr (stk[1 := LNil, 0 := LNil])"
        using two(2) by (auto simp: lua_replace_def)
      moreover have "top_results 2 (stk[1 := LNil, 0 := LNil]) = [LNil, LNil]"
        using two(2) by (cases stk; cases "tl stk") (auto simp: top_results_def numeral_2_eq_2)
      ultimately show ?thesis
        using False2 False Inr st rb(1) inv(1,2) by (auto simp: msgpack_unpack_api_def unpack_result_ok_def)
    qed
  qed
qed

text \<open>\<open>unpack(pack(v))\<close> gives the number of bytes and the value.\<close>

lemma unpack_api_of_packed:
  assumes "slab_ok h" "mp_encodes objlen hs v e" "kept objlen v"
    and "blocks h (ms_mb ms) = Some b" "0 < mb_refcount b" "ms_until ms = length e"
    and "mem_read (mb_bytes b) (ms_slice ms) (length e) = e" "ms_slice ms + length e + 4 \<le> mb_size b"
  shows "\<exists>v' h'. msgpack_unpack_api ms h = Inr ([lua_int (int (length e)), v'], h') \<and> view h' v' = view hs v"
proof -
  let ?base = "[lua_int (- 123456), LBuffer ms]"
  have "roomy_slice h ms" using assms(4-6,8) by (auto simp: roomy_slice_def)
  from mb_init_ok [OF assms(1) this] obtain rb where
    rb: "mprbuf_mb_init (ms_mb ms) (ms_slice ms) (ms_until ms) h = Inr rb" "rd_ok (rb, ?base, h)" "rb_backed rb h"
      "rb_ofs rb = 0" "rb_err rb = 0" "\<not> rb_map_keying rb" "mprbuf_left rb = ms_until ms" "rb_len rb = ms_until ms"
      "rb_data rb = mem_read (mb_bytes b) (ms_slice ms) (mb_size b - ms_slice ms)"
    using assms(4) by metis
  have "length e \<le> mb_size b - ms_slice ms" using assms(8) by linarith
  then have "reads_at rb e"
    using rb(2,4,8,9) assms(6-8) by (simp add: reads_at_def rd_ok_def min_def)
  then have "starts h e (rb, ?base, h)" using rb by (simp add: starts_def only_refs_refl)
  with mp_encodes_decodes [OF assms(2,3), of h] obtain v' h' where
    r: "mprbuf_unpack_anytype (Suc (mprbuf_left rb)) (rb, ?base, h) = Inr (rb_skip (length e) rb, v' # ?base, h')"
      "view h' v' = view hs v"
    unfolding decodes_def by (metis lessI)
  from unpack_api_of [OF _ rb(1) r(1)] mp_encodes_nonempty [OF assms(2)] assms(6) rb(4,5) r(2)
  show ?thesis by simp
qed

text \<open>
  A buffer that ends right after the header of a map that is not empty: the loop does not look at
  the error and calls \<open>lua_rawset\<close> on the buffer.
\<close>

lemma unpack_api_truncated_map:
  assumes "blocks h (ms_mb ms) = Some b" "ms_slice ms + 1 \<le> mb_size b" "ms_until ms = 1"
    and "0x81 \<le> unat (mb_bytes b (ms_slice ms))" "unat (mb_bytes b (ms_slice ms)) \<le> 0x8f"
  shows "msgpack_unpack_api ms h = Inl rawset_fault"
proof -
  define t where "t = mb_bytes b (ms_slice ms)"
  let ?base = "[lua_int (- 123456), LBuffer ms]"
  let ?rb = "\<lparr>rb_mb = Some (ms_mb ms), rb_base = ms_slice ms,
      rb_data = mem_read (mb_bytes b) (ms_slice ms) (mb_size b - ms_slice ms),
      rb_ofs = 0, rb_len = 1, rb_err = 0, rb_map_keying = False\<rparr>"
  have init: "mprbuf_mb_init (ms_mb ms) (ms_slice ms) 1 h = Inr ?rb"
    using assms(1,2) by (simp add: mprbuf_mb_init_def deref_def)
  have "take 1 (mem_read (mb_bytes b) (ms_slice ms) (mb_size b - ms_slice ms)) = [t]"
    using assms(2) by (simp add: mem_read_def t_def upt_rec)
  then have load: "rb_load ?rb 1 = Inr [t]"
    using assms(2) by (simp add: rb_load_def)
  have t: "128 \<le> unat t" "unat t \<le> 143" "0 < unat t mod 16"
    using assms(4,5) mod_nat_eqI [of "unat t - 128" 16 "unat t"] by (auto simp: t_def)
  have left: "mprbuf_left ?rb = 1" "mprbuf_left (rb_skip 1 ?rb) = 0"
    by (simp_all add: mprbuf_left_def)
  have fail: "mprbuf_unpack_anytype (Suc 0) (c, stk, h) = Inr (rb_fail c, stk, h)" if "mprbuf_left c = 0" for c stk
    using that by (simp add: mprbuf_unpack_anytype.simps)
  have "mprbuf_unpack_map (Suc 0) 0 (unat t mod 16) (rb_skip 1 ?rb, LTable [] # ?base, h) = Inl rawset_fault"
    using t(3) fail left(2)
    by (simp add: mprbuf_unpack_map.simps [of _ 0] set_keying_def mprbuf_left_def rb_fail_def rb_skip_def
        stack_rawset_def rawset_fault_def)
  then have "mprbuf_unpack_anytype 2 (?rb, ?base, h) = Inl rawset_fault"
    using t left load by (simp add: mprbuf_unpack_anytype.simps numeral_2_eq_2 push_table_def Let_def del: One_nat_def)
  then show ?thesis
    using init left assms(3) by (simp add: msgpack_unpack_api_def numeral_2_eq_2)
qed

end
