(* ===== verification/Mpack_Unpacker.thy ===== *)
theory Mpack_Unpacker
  imports Mpack_Api
begin

text \<open>
  The incremental reader of \<open>src/lev_mpack.c\<close> (\<open>MP_CONTAINER_TYPE\<close> to
  \<open>msgpack_createUnpacker_api\<close>): bytes are fed in any pieces, a stack of open items finds out
  when a value is complete, and a pull decodes one value with the one-shot reader.
\<close>

datatype MP_CONTAINER_TYPE =
    MPCT_FIXARRAY | MPCT_FIXMAP
  | MPCT_ARRAY16 | MPCT_MAP16 | MPCT_ARRAY32 | MPCT_MAP32
  | MPCT_RAW16 | MPCT_RAW32
  | MPCT_RAW | MPCT_FLOAT | MPCT_DOUBLE | MPCT_UINT8 | MPCT_UINT16 | MPCT_UINT32 | MPCT_UINT64
  | MPCT_INT8 | MPCT_INT16 | MPCT_INT32 | MPCT_INT64

definition MP_CONTAINER_TYPE_is_container :: "MP_CONTAINER_TYPE \<Rightarrow> bool" where
  "MP_CONTAINER_TYPE_is_container t \<longleftrightarrow>
     t \<in> {MPCT_FIXARRAY, MPCT_FIXMAP, MPCT_ARRAY16, MPCT_MAP16, MPCT_ARRAY32, MPCT_MAP32}"

fun MP_CONTAINER_TYPE_to_s :: "MP_CONTAINER_TYPE \<Rightarrow> string" where
  "MP_CONTAINER_TYPE_to_s MPCT_FIXARRAY = ''fixary''"
| "MP_CONTAINER_TYPE_to_s MPCT_FIXMAP = ''fixmap''"
| "MP_CONTAINER_TYPE_to_s MPCT_RAW = ''fixraw''"
| "MP_CONTAINER_TYPE_to_s MPCT_FLOAT = ''float''"
| "MP_CONTAINER_TYPE_to_s MPCT_DOUBLE = ''double''"
| "MP_CONTAINER_TYPE_to_s MPCT_UINT8 = ''u8''"
| "MP_CONTAINER_TYPE_to_s MPCT_UINT16 = ''u16''"
| "MP_CONTAINER_TYPE_to_s MPCT_UINT32 = ''u32''"
| "MP_CONTAINER_TYPE_to_s MPCT_UINT64 = ''u64''"
| "MP_CONTAINER_TYPE_to_s MPCT_INT8 = ''i8''"
| "MP_CONTAINER_TYPE_to_s MPCT_INT16 = ''i16''"
| "MP_CONTAINER_TYPE_to_s MPCT_INT32 = ''i32''"
| "MP_CONTAINER_TYPE_to_s MPCT_INT64 = ''i64''"
| "MP_CONTAINER_TYPE_to_s MPCT_ARRAY16 = ''ary16''"
| "MP_CONTAINER_TYPE_to_s MPCT_MAP16 = ''map16''"
| "MP_CONTAINER_TYPE_to_s MPCT_RAW16 = ''raw16''"
| "MP_CONTAINER_TYPE_to_s MPCT_ARRAY32 = ''ary32''"
| "MP_CONTAINER_TYPE_to_s MPCT_MAP32 = ''map32''"
| "MP_CONTAINER_TYPE_to_s MPCT_RAW32 = ''raw32''"

definition MP_CONTAINER_TYPE_sizesize :: "MP_CONTAINER_TYPE \<Rightarrow> nat" where
  "MP_CONTAINER_TYPE_sizesize t =
     (if t = MPCT_ARRAY16 \<or> t = MPCT_MAP16 \<or> t = MPCT_RAW16 then 2
      else if t = MPCT_ARRAY32 \<or> t = MPCT_MAP32 \<or> t = MPCT_RAW32 then 4
      else 0)"

definition MP_CONTAINER_TYPE_is_map :: "MP_CONTAINER_TYPE \<Rightarrow> bool" where
  "MP_CONTAINER_TYPE_is_map t \<longleftrightarrow> t = MPCT_FIXMAP \<or> t = MPCT_MAP16 \<or> t = MPCT_MAP32"

text \<open>\<open>se_sizebytes\<close> holds the size bytes stored so far; it has \<open>sizesofar\<close> of them.\<close>

record mpstackent =
  se_t :: MP_CONTAINER_TYPE
  se_expect :: nat
  se_sofar :: nat
  se_sizebytes :: "byte list"
  se_sizesize :: nat
  se_sizesofar :: nat

text \<open>
  The stack array is the list of its first \<open>nstacked\<close> entries, the top at the head. The buffer is
  null after the collector has run.
\<close>

record unpacker =
  u_buf :: "mem option"
  u_size :: nat
  u_used :: nat
  u_stack :: "mpstackent list"
  u_resultnum :: nat

definition unpacker_init :: "mem \<Rightarrow> nat \<Rightarrow> unpacker" where
  "unpacker_init fresh maxsize =
     \<lparr>u_buf = Some fresh, u_size = maxsize, u_used = 0, u_stack = [], u_resultnum = 0\<rparr>"

definition mpstackent_init :: "MP_CONTAINER_TYPE \<Rightarrow> nat \<Rightarrow> mpstackent" where
  "mpstackent_init t expect =
     \<lparr>se_t = t, se_expect = expect, se_sofar = 0, se_sizebytes = [],
      se_sizesize = MP_CONTAINER_TYPE_sizesize t, se_sizesofar = 0\<rparr>"

section \<open>One byte forward\<close>

text \<open>Storing a size byte; the last one fixes how many items are expected.\<close>

definition take_size_byte :: "byte \<Rightarrow> mpstackent \<Rightarrow> mpstackent" where
  "take_size_byte ch e =
     (let e' = e\<lparr>se_sizebytes := se_sizebytes e @ [ch], se_sizesofar := se_sizesofar e + 1\<rparr> in
      if se_sizesofar e' = se_sizesize e' then
        e'\<lparr>se_expect := (if MP_CONTAINER_TYPE_is_map (se_t e') then be_val (se_sizebytes e') * 2
                          else be_val (se_sizebytes e'))\<rparr>
      else e')"

text \<open>The loop of \<open>unpacker_progress\<close> from the top of the stack downwards.\<close>

fun progress_loop :: "byte \<Rightarrow> mpstackent list \<Rightarrow> mpstackent list" where
  "progress_loop ch [] = []"
| "progress_loop ch (e # es) =
     (if se_sizesofar e < se_sizesize e then take_size_byte ch e # es
      else
        let e' = e\<lparr>se_sofar := se_sofar e + 1\<rparr> in
        if se_sofar e' < se_expect e' then e' # es else progress_loop ch es)"

definition unpacker_progress :: "unpacker \<Rightarrow> byte \<Rightarrow> int \<times> unpacker" where
  "unpacker_progress u ch =
     (let u' = u\<lparr>u_stack := progress_loop ch (u_stack u)\<rparr> in
      if u_stack u' = [] then (1, u'\<lparr>u_resultnum := u_resultnum u' + 1\<rparr>) else (0, u'))"

definition unpacker_top :: "unpacker \<Rightarrow> mpstackent option" where
  "unpacker_top u = (case u_stack u of [] \<Rightarrow> None | e # _ \<Rightarrow> Some e)"

definition unpacker_progress_datasize :: "unpacker \<Rightarrow> nat \<Rightarrow> unpacker res" where
  "unpacker_progress_datasize u progress =
     (case u_stack u of
        [] \<Rightarrow> Inl (Undefined ''null stack ent'')
      | ent # es \<Rightarrow>
          if progress \<le> sz_sub (se_expect ent) (se_sofar ent) then
            (let ent' = ent\<lparr>se_sofar := se_sofar ent + progress\<rparr> in
             if se_sofar ent' = se_expect ent' then
               Inr (snd (unpacker_progress (u\<lparr>u_stack := ent'\<lparr>se_sofar := se_sofar ent' - 1\<rparr> # es\<rparr>) 0))
             else Inr (u\<lparr>u_stack := ent' # es\<rparr>))
          else Inl Assert_failed)"

text \<open>\<open>None\<close> is the result -1: all 256 entries are taken.\<close>

definition unpacker_push :: "unpacker \<Rightarrow> MP_CONTAINER_TYPE \<Rightarrow> nat \<Rightarrow> unpacker option" where
  "unpacker_push u t expect =
     (if 256 \<le> length (u_stack u) then None
      else
        let u' = u\<lparr>u_stack := mpstackent_init t expect # u_stack u\<rparr> in
        if MP_CONTAINER_TYPE_sizesize t = 0 \<and> expect = 0
        then Some (snd (unpacker_progress u' 0)) else Some u')"

text \<open>\<open>Some n\<close> is the result 1 with \<open>*dataneed = n\<close>.\<close>

definition unpacker_container_needs_bytes :: "unpacker \<Rightarrow> nat option" where
  "unpacker_container_needs_bytes u =
     (case unpacker_top u of None \<Rightarrow> None
      | Some ent \<Rightarrow>
          if se_sizesofar ent < se_sizesize ent then Some 0
          else if se_sofar ent < se_expect ent then
            (if MP_CONTAINER_TYPE_is_container (se_t ent) then None
             else Some (se_expect ent - se_sofar ent))
          else None)"

section \<open>Feeding\<close>

text \<open>The chain of tests on a byte that starts an item; \<open>None\<close> is \<open>return -1\<close>.\<close>

definition feed_byte :: "unpacker \<Rightarrow> byte \<Rightarrow> unpacker option" where
  "feed_byte u b =
     (let ch = unat b; go = Some (snd (unpacker_progress u b)) in
      if ch \<le> 0x7f then go
      else if 0x80 \<le> ch \<and> ch \<le> 0x8f then unpacker_push u MPCT_FIXMAP (ch mod 16 * 2)
      else if 0x90 \<le> ch \<and> ch \<le> 0x9f then unpacker_push u MPCT_FIXARRAY (ch mod 16)
      else if 0xa0 \<le> ch \<and> ch \<le> 0xbf then unpacker_push u MPCT_RAW (ch mod 32)
      else if ch = 0xc0 then go
      else if ch = 0xc1 then None
      else if ch = 0xc2 then go
      else if ch = 0xc3 then go
      else if 0xc4 \<le> ch \<and> ch \<le> 0xc9 then None
      else if ch = 0xca then unpacker_push u MPCT_FLOAT 4
      else if ch = 0xcb then unpacker_push u MPCT_DOUBLE 8
      else if ch = 0xcc then unpacker_push u MPCT_UINT8 1
      else if ch = 0xcd then unpacker_push u MPCT_UINT16 2
      else if ch = 0xce then unpacker_push u MPCT_UINT32 4
      else if ch = 0xcf then unpacker_push u MPCT_UINT64 8
      else if ch = 0xd0 then unpacker_push u MPCT_INT8 1
      else if ch = 0xd1 then unpacker_push u MPCT_INT16 2
      else if ch = 0xd2 then unpacker_push u MPCT_INT32 4
      else if ch = 0xd3 then unpacker_push u MPCT_INT64 8
      else if 0xd4 \<le> ch \<and> ch \<le> 0xd9 then None
      else if ch = 0xda then unpacker_push u MPCT_RAW16 0
      else if ch = 0xdb then unpacker_push u MPCT_RAW32 0
      else if ch = 0xdc then unpacker_push u MPCT_ARRAY16 0
      else if ch = 0xdd then unpacker_push u MPCT_ARRAY32 0
      else if ch = 0xde then unpacker_push u MPCT_MAP16 0
      else if ch = 0xdf then unpacker_push u MPCT_MAP32 0
      else go)"

text \<open>The loop of \<open>unpacker_feed\<close> over the bytes that are left.\<close>

function feed_loop :: "unpacker \<Rightarrow> byte list \<Rightarrow> (int \<times> unpacker) res" where
  "feed_loop u [] = Inr (0, u)"
| "feed_loop u (ch # p) =
     (case unpacker_container_needs_bytes u of
        Some dataneed \<Rightarrow>
          if 0 < dataneed then
            (let progress = min (length (ch # p)) dataneed in
             bind_res (unpacker_progress_datasize u progress) (\<lambda>u'. feed_loop u' (drop progress (ch # p))))
          else feed_loop (snd (unpacker_progress u ch)) p
      | None \<Rightarrow>
          (case feed_byte u ch of None \<Rightarrow> Inr (-1, u) | Some u' \<Rightarrow> feed_loop u' p))"
  by pat_completeness auto
termination by (relation "measure (\<lambda>(u, p). length p)") auto

definition unpacker_feed :: "unpacker \<Rightarrow> byte list \<Rightarrow> (int \<times> unpacker) res" where
  "unpacker_feed u p =
     (if u_size u < u_used u + length p then Inr (-1, u)
      else (case u_buf u of
          None \<Rightarrow> Inl (Undefined ''null buffer'')
        | Some buf \<Rightarrow>
            feed_loop (u\<lparr>u_buf := Some (mem_write buf (u_used u) p), u_used := u_used u + length p\<rparr>) p))"

definition unpacker_shift :: "unpacker \<Rightarrow> nat \<Rightarrow> unpacker res" where
  "unpacker_shift u l =
     (if l \<le> u_used u then
        (case u_buf u of
           None \<Rightarrow> Inl (Undefined ''null buffer'')
         | Some buf \<Rightarrow>
             Inr (u\<lparr>u_buf := Some (mem_write buf 0 (mem_read buf l (u_used u - l))), u_used := u_used u - l\<rparr>))
      else Inl Assert_failed)"

section \<open>The Lua functions\<close>

definition msgpack_unpacker_feed_api :: "unpacker \<Rightarrow> byte list \<Rightarrow> (lval \<times> unpacker) res" where
  "msgpack_unpacker_feed_api u s =
     bind_res (unpacker_feed u s) (\<lambda>(r, u'). Inr (lua_int r, u'))"

text \<open>
  The read buffer of a pull is the used part of the unpacker's buffer, whose object has \<open>u_size\<close>
  bytes; \<open>self\<close> is the unpacker's own value on the stack. The result is what is on the top.
\<close>

definition msgpack_unpacker_pull_api :: "lval \<Rightarrow> unpacker \<Rightarrow> 'a slab_scheme \<Rightarrow> (lval \<times> unpacker \<times> 'a slab_scheme) res" where
  "msgpack_unpacker_pull_api self u h =
     (if u_resultnum u = 0 then Inr (LNil, u, h)
      else
        (case u_buf u of
           None \<Rightarrow> Inl (Undefined ''null buffer'')
         | Some buf \<Rightarrow>
             (let rb = mprbuf_init (mem_read buf 0 (u_size u)) (u_used u) in
              bind_res (mprbuf_unpack_anytype (Suc (mprbuf_left rb)) (rb, [self], h)) (\<lambda>(rb', stk, h').
              bind_res (unpacker_shift u (rb_ofs rb')) (\<lambda>u'.
                Inr (hd stk, u'\<lparr>u_resultnum := u_resultnum u' - 1\<rparr>, h'))))))"

definition msgpack_unpacker_gc_api :: "unpacker \<Rightarrow> unpacker" where
  "msgpack_unpacker_gc_api u = u\<lparr>u_buf := None\<rparr>"

text \<open>The size is a Lua number converted to \<open>size_t\<close>.\<close>

definition msgpack_createUnpacker_api :: "mem \<Rightarrow> lua_Number \<Rightarrow> unpacker res" where
  "msgpack_createUnpacker_api fresh n =
     bind_res (c_to_int 0 (2 ^ 64 - 1) n) (\<lambda>bufsz. Inr (unpacker_init fresh (nat bufsz)))"

section \<open>The pieces do not matter\<close>

lemma needs_data:
  assumes "unpacker_container_needs_bytes u = Some n" "0 < n"
  obtains e es where "u_stack u = e # es" "n = se_expect e - se_sofar e" "se_sofar e < se_expect e"
    "\<not> se_sizesofar e < se_sizesize e" "\<not> MP_CONTAINER_TYPE_is_container (se_t e)"
  using assms
  by (auto simp: unpacker_container_needs_bytes_def unpacker_top_def split: list.splits if_splits)

lemma datasize_part:
  assumes "u_stack u = e # es" "k < se_expect e - se_sofar e"
  shows "unpacker_progress_datasize u k = Inr (u\<lparr>u_stack := e\<lparr>se_sofar := se_sofar e + k\<rparr> # es\<rparr>)"
  using assms by (auto simp: unpacker_progress_datasize_def Let_def)

lemma datasize_add:
  assumes "u_stack u = e # es" "k < se_expect e - se_sofar e"
  shows "unpacker_progress_datasize (u\<lparr>u_stack := e\<lparr>se_sofar := se_sofar e + k\<rparr> # es\<rparr>) j =
    unpacker_progress_datasize u (k + j)"
proof -
  have "j \<le> se_expect e - (se_sofar e + k) \<longleftrightarrow> k + j \<le> se_expect e - se_sofar e"
    using assms(2) by linarith
  with assms show ?thesis by (simp add: unpacker_progress_datasize_def add.assoc Let_def)
qed

definition after_feed :: "(int \<times> unpacker) res \<Rightarrow> byte list \<Rightarrow> (int \<times> unpacker) res" where
  "after_feed r q = bind_res r (\<lambda>(c, u). if c = 0 then feed_loop u q else Inr (c, u))"

lemma feed_loop_append: "feed_loop u (p @ q) = after_feed (feed_loop u p) q"
proof (induction u p rule: feed_loop.induct)
  case (1 u)
  then show ?case by (simp add: after_feed_def)
next
  case (2 u ch p)
  show ?case
  proof (cases "unpacker_container_needs_bytes u")
    case None
    with 2 show ?thesis by (auto simp: after_feed_def split: option.split)
  next
    case (Some n)
    show ?thesis
    proof (cases "0 < n")
      case False
      with Some 2 show ?thesis by simp
    next
      case True
      note IH = "2.IH"(2) [OF Some True]
      show ?thesis
      proof (cases "n \<le> length (ch # p)")
        case le: True
        then have mins: "min (length (ch # p @ q)) n = n" "min (length (ch # p)) n = n" by simp_all
        have "drop n (ch # p @ q) = drop n (ch # p) @ q"
          using le drop_append [of n "ch # p" q] by simp
        with Some True mins IH [OF refl] show ?thesis
          by (cases "unpacker_progress_datasize u n") (simp_all add: after_feed_def Let_def del: drop_Suc_Cons)
      next
        case gt: False
        let ?k = "length (ch # p)"
        obtain e es where e: "u_stack u = e # es" "n = se_expect e - se_sofar e" "se_sofar e < se_expect e"
            "\<not> se_sizesofar e < se_sizesize e" "\<not> MP_CONTAINER_TYPE_is_container (se_t e)"
          by (rule needs_data [OF Some True])
        let ?u = "u\<lparr>u_stack := e\<lparr>se_sofar := se_sofar e + ?k\<rparr> # es\<rparr>"
        have k: "?k < se_expect e - se_sofar e" using gt e(2) by simp
        have p: "feed_loop u (ch # p) = Inr (0, ?u)"
          using Some True gt datasize_part [OF e(1) k] by (simp add: Let_def)
        have nb: "unpacker_container_needs_bytes ?u = Some (n - ?k)" "0 < n - ?k"
          using e k by (simp_all add: unpacker_container_needs_bytes_def unpacker_top_def)
        show ?thesis
        proof (cases q)
          case Nil
          with p show ?thesis by (simp add: after_feed_def)
        next
          case (Cons x q')
          have eq: "?k + min (length q) (n - ?k) = min (length (ch # p @ q)) n" using gt by simp
          have "feed_loop ?u q = bind_res (unpacker_progress_datasize u (min (length (ch # p @ q)) n))
              (\<lambda>u'. feed_loop u' (drop (min (length q) (n - ?k)) q))"
            using nb Cons datasize_add [OF e(1) k, of "min (length q) (n - ?k)"] eq by (simp add: Let_def)
          moreover have "drop (min (length (ch # p @ q)) n) (ch # p @ q) = drop (min (length q) (n - ?k)) q"
            unfolding eq [symmetric] by simp
          ultimately show ?thesis
            using p Some True by (simp add: after_feed_def Let_def del: drop_Suc_Cons)
        qed
      qed
    qed
  qed
qed

text \<open>The loop neither reads nor changes the buffer.\<close>

definition with_buf :: "mem option \<Rightarrow> nat \<Rightarrow> unpacker \<Rightarrow> unpacker" where
  "with_buf x y u = u\<lparr>u_buf := x, u_used := y\<rparr>"

lemma with_buf_sel [simp]:
  "u_stack (with_buf x y u) = u_stack u" "u_resultnum (with_buf x y u) = u_resultnum u"
  "u_size (with_buf x y u) = u_size u" "u_buf (with_buf x y u) = x" "u_used (with_buf x y u) = y"
  "with_buf x y u\<lparr>u_stack := st\<rparr> = with_buf x y (u\<lparr>u_stack := st\<rparr>)"
  "with_buf x y u\<lparr>u_resultnum := n\<rparr> = with_buf x y (u\<lparr>u_resultnum := n\<rparr>)"
  by (simp_all add: with_buf_def)

lemma with_buf_ops [simp]:
  "unpacker_progress (with_buf x y u) ch = apsnd (with_buf x y) (unpacker_progress u ch)"
  "unpacker_push (with_buf x y u) t n = map_option (with_buf x y) (unpacker_push u t n)"
  "unpacker_progress_datasize (with_buf x y u) n = map_sum id (with_buf x y) (unpacker_progress_datasize u n)"
  "unpacker_container_needs_bytes (with_buf x y u) = unpacker_container_needs_bytes u"
proof -
  show p: "unpacker_progress (with_buf x y u) ch = apsnd (with_buf x y) (unpacker_progress u ch)" for u ch
    by (simp add: unpacker_progress_def Let_def)
  show "unpacker_push (with_buf x y u) t n = map_option (with_buf x y) (unpacker_push u t n)"
    by (simp add: unpacker_push_def Let_def p)
  show "unpacker_progress_datasize (with_buf x y u) n = map_sum id (with_buf x y) (unpacker_progress_datasize u n)"
    by (simp add: unpacker_progress_datasize_def Let_def p split: list.split)
  show "unpacker_container_needs_bytes (with_buf x y u) = unpacker_container_needs_bytes u"
    by (simp add: unpacker_container_needs_bytes_def unpacker_top_def)
qed

lemma feed_byte_with_buf [simp]: "feed_byte (with_buf x y u) b = map_option (with_buf x y) (feed_byte u b)"
  by (simp add: feed_byte_def Let_def)

lemma feed_loop_with_buf: "feed_loop (with_buf x y u) p = map_sum id (apsnd (with_buf x y)) (feed_loop u p)"
proof (induction u p rule: feed_loop.induct)
  case (2 u ch p)
  show ?case
  proof (cases "unpacker_container_needs_bytes u")
    case None
    with 2 show ?thesis by (auto split: option.split)
  next
    case (Some n)
    with 2 show ?thesis
      by (cases "unpacker_progress_datasize u (min (length (ch # p)) n)") (auto simp: Let_def)
  qed
qed simp

lemma unpacker_feed_eq:
  assumes "u_buf u = Some buf" "u_used u + length p \<le> u_size u"
  shows "unpacker_feed u p = map_sum id
    (apsnd (with_buf (Some (mem_write buf (u_used u) p)) (u_used u + length p))) (feed_loop u p)"
  using assms feed_loop_with_buf [of _ _ u p] by (simp add: unpacker_feed_def with_buf_def)

text \<open>A byte that starts an item is refused, moves the stack, or opens an item.\<close>

definition byte_outcome :: "unpacker \<Rightarrow> byte \<Rightarrow> unpacker option \<Rightarrow> bool" where
  "byte_outcome u b r \<longleftrightarrow> r = None \<or> r = Some (snd (unpacker_progress u b)) \<or> (\<exists>t n. r = unpacker_push u t n)"

lemma byte_outcome_intros:
  "byte_outcome u b None" "byte_outcome u b (Some (snd (unpacker_progress u b)))"
  "byte_outcome u b (unpacker_push u t n)"
  "byte_outcome u b r \<Longrightarrow> byte_outcome u b r' \<Longrightarrow> byte_outcome u b (if c then r else r')"
  by (auto simp: byte_outcome_def)

lemma feed_byte_outcome: "byte_outcome u b (feed_byte u b)"
  unfolding feed_byte_def Let_def by (intro byte_outcome_intros)

text \<open>The loop keeps the buffer size.\<close>

lemma progress_size [simp]: "u_size (snd (unpacker_progress u ch)) = u_size u"
  by (simp add: unpacker_progress_def Let_def)

lemma push_size: "unpacker_push u t n = Some u1 \<Longrightarrow> u_size u1 = u_size u"
  by (auto simp: unpacker_push_def Let_def split: if_splits)

lemma feed_byte_size: "feed_byte u ch = Some u1 \<Longrightarrow> u_size u1 = u_size u"
  using feed_byte_outcome [of u ch] progress_size [of u ch] unfolding byte_outcome_def
  by (metis option.distinct(1) option.inject push_size)

lemma datasize_size: "unpacker_progress_datasize u n = Inr u1 \<Longrightarrow> u_size u1 = u_size u"
  by (auto simp: unpacker_progress_datasize_def Let_def split: list.splits if_splits)

lemma feed_loop_size: "feed_loop u p = Inr (c, u') \<Longrightarrow> u_size u' = u_size u"
proof (induction u p arbitrary: c u' rule: feed_loop.induct)
  case (2 u ch p)
  show ?case
  proof (cases "unpacker_container_needs_bytes u")
    case None
    show ?thesis
    proof (cases "feed_byte u ch")
      case (Some u1)
      with "2.prems" None have "feed_loop u1 p = Inr (c, u')" by simp
      from "2.IH"(1) [OF None Some this] feed_byte_size [OF Some] show ?thesis by (rule trans)
    qed (use None "2.prems" in simp)
  next
    case (Some n)
    show ?thesis
    proof (cases "0 < n")
      case True
      with Some "2.prems" obtain u1 where
        u1: "unpacker_progress_datasize u (min (length (ch # p)) n) = Inr u1"
          "feed_loop u1 (drop (min (length (ch # p)) n) (ch # p)) = Inr (c, u')"
        by (auto simp: Let_def bind_res_Inr_iff)
      from "2.IH"(2) [OF Some True refl u1] datasize_size [OF u1(1)] show ?thesis by (rule trans)
    next
      case False
      with Some "2.prems" have "feed_loop (snd (unpacker_progress u ch)) p = Inr (c, u')" by simp
      from "2.IH"(3) [OF Some False this] show ?thesis by simp
    qed
  qed
qed simp

lemma unpacker_feed_append:
  assumes "unpacker_feed u p = Inr (0, u')" "u_used u + length (p @ q) \<le> u_size u" "u_buf u \<noteq> None"
  shows "unpacker_feed u (p @ q) = unpacker_feed u' q"
proof -
  obtain buf where buf: "u_buf u = Some buf" using assms(3) by auto
  have fit: "u_used u + length p \<le> u_size u" using assms(2) by simp
  let ?m = "mem_write buf (u_used u) p"
  from assms(1) obtain u1 where u1: "feed_loop u p = Inr (0, u1)"
      "u' = with_buf (Some ?m) (u_used u + length p) u1"
    unfolding unpacker_feed_eq [OF buf fit] by (cases "feed_loop u p") auto
  have "u_size u1 = u_size u" using feed_loop_size u1(1) by blast
  then have "unpacker_feed u' q = map_sum id
      (apsnd (with_buf (Some (mem_write ?m (u_used u + length p) q)) (u_used u + length p + length q)))
      (map_sum id (apsnd (with_buf (Some ?m) (u_used u + length p))) (feed_loop u1 q))"
    using unpacker_feed_eq [of u' ?m q] assms(2) u1(2) feed_loop_with_buf by simp
  also have "\<dots> = map_sum id
      (apsnd (with_buf (Some (mem_write buf (u_used u) (p @ q))) (u_used u + length (p @ q)))) (feed_loop u1 q)"
    by (cases "feed_loop u1 q") (auto simp: mem_write_append with_buf_def add.assoc)
  finally show ?thesis
    unfolding unpacker_feed_eq [OF buf assms(2)] by (simp add: feed_loop_append after_feed_def u1(1))
qed

section \<open>Feeding the encoding of a value\<close>

text \<open>
  Between values every open item is a container that knows its size and waits for more items. Then
  a byte that is a whole value moves every stack in the same way, whatever the byte is.
\<close>

definition ready_ent :: "mpstackent \<Rightarrow> bool" where
  "ready_ent e \<longleftrightarrow> se_sizesofar e = se_sizesize e \<and> MP_CONTAINER_TYPE_is_container (se_t e) \<and>
     se_sofar e < se_expect e"

definition ready :: "unpacker \<Rightarrow> bool" where
  "ready u \<longleftrightarrow> list_all ready_ent (u_stack u)"

definition one_value :: "unpacker \<Rightarrow> unpacker" where
  "one_value u = snd (unpacker_progress u 0)"

lemma progress_loop_ready:
  assumes "list_all ready_ent es"
  shows "progress_loop ch es = progress_loop 0 es" "list_all ready_ent (progress_loop 0 es)"
    "length (progress_loop 0 es) \<le> length es"
proof -
  have "progress_loop ch es = progress_loop 0 es \<and> list_all ready_ent (progress_loop 0 es) \<and>
      length (progress_loop 0 es) \<le> length es"
    using assms by (induction es) (auto simp: ready_ent_def Let_def)
  then show "progress_loop ch es = progress_loop 0 es" "list_all ready_ent (progress_loop 0 es)"
    "length (progress_loop 0 es) \<le> length es" by auto
qed

lemma progress_ready: "ready u \<Longrightarrow> snd (unpacker_progress u ch) = one_value u"
  using progress_loop_ready(1) [of "u_stack u" ch]
  by (simp add: ready_def one_value_def unpacker_progress_def Let_def)

lemma ready_one_value: "ready u \<Longrightarrow> ready (one_value u)"
  "ready u \<Longrightarrow> length (u_stack (one_value u)) \<le> length (u_stack u)"
  using progress_loop_ready(2,3) [of "u_stack u"]
  by (simp_all add: ready_def one_value_def unpacker_progress_def Let_def)

lemma ready_needs_None: "ready u \<Longrightarrow> unpacker_container_needs_bytes u = None"
  by (auto simp: ready_def ready_ent_def unpacker_container_needs_bytes_def unpacker_top_def split: list.splits)

text \<open>An item on the top that is complete counts as one value for what is below it.\<close>

lemma one_value_pop:
  assumes "\<not> se_sizesofar e < se_sizesize e" "se_expect e \<le> Suc (se_sofar e)"
  shows "one_value (u\<lparr>u_stack := e # es\<rparr>) = one_value (u\<lparr>u_stack := es\<rparr>)"
  using assms by (simp add: one_value_def unpacker_progress_def Let_def)

definition feeds :: "nat \<Rightarrow> byte list \<Rightarrow> bool" where
  "feeds d e \<longleftrightarrow> (\<forall>u q. ready u \<longrightarrow> length (u_stack u) + d \<le> 256 \<longrightarrow>
     feed_loop u (e @ q) = feed_loop (one_value u) q)"

lemma feeds_byte:
  assumes "\<And>u. feed_byte u b = Some (snd (unpacker_progress u b))"
  shows "feeds d [b]"
  unfolding feeds_def using assms by (simp add: ready_needs_None progress_ready)

text \<open>An item with \<open>n\<close> bytes of payload, once its size is known.\<close>

lemma feed_payload:
  assumes "\<not> se_sizesofar e < se_sizesize e" "\<not> MP_CONTAINER_TYPE_is_container (se_t e)" "se_sofar e = 0"
    "se_expect e = length pl" "pl \<noteq> []"
  shows "feed_loop (u\<lparr>u_stack := e # es\<rparr>) (pl @ q) = feed_loop (one_value (u\<lparr>u_stack := es\<rparr>)) q"
proof -
  let ?u = "u\<lparr>u_stack := e # es\<rparr>"
  obtain x pl' where pl: "pl = x # pl'" using assms(5) by (cases pl) auto
  have nb: "unpacker_container_needs_bytes ?u = Some (length pl)"
    using assms by (simp add: unpacker_container_needs_bytes_def unpacker_top_def)
  have "unpacker_progress_datasize ?u (length pl) =
      Inr (one_value (u\<lparr>u_stack := e\<lparr>se_sofar := length pl - 1\<rparr> # es\<rparr>))"
    using assms by (simp add: unpacker_progress_datasize_def Let_def one_value_def)
  also have "one_value (u\<lparr>u_stack := e\<lparr>se_sofar := length pl - 1\<rparr> # es\<rparr>) = one_value (u\<lparr>u_stack := es\<rparr>)"
    using assms by (intro one_value_pop) simp_all
  finally have d: "unpacker_progress_datasize ?u (length pl) = Inr (one_value (u\<lparr>u_stack := es\<rparr>))" .
  have "feed_loop ?u (pl @ q) =
      bind_res (unpacker_progress_datasize ?u (min (length (pl @ q)) (length pl)))
        (\<lambda>u'. feed_loop u' (drop (min (length (pl @ q)) (length pl)) (pl @ q)))"
    using nb unfolding pl by (simp add: Let_def del: min_Suc_Suc)
  also have "min (length (pl @ q)) (length pl) = length pl" by simp
  finally show ?thesis using d by simp
qed

lemma push_open:
  assumes "length (u_stack u) < 256" "MP_CONTAINER_TYPE_sizesize t \<noteq> 0 \<or> n \<noteq> 0"
  shows "unpacker_push u t n = Some (u\<lparr>u_stack := mpstackent_init t n # u_stack u\<rparr>)"
  using assms by (auto simp: unpacker_push_def Let_def)

lemma feeds_empty:
  assumes "\<And>u. feed_byte u b = unpacker_push u t 0" "MP_CONTAINER_TYPE_sizesize t = 0" "0 < d"
  shows "feeds d [b]"
  unfolding feeds_def
proof (intro allI impI)
  fix u q assume r: "ready u" and len: "length (u_stack u) + d \<le> 256"
  have "one_value (u\<lparr>u_stack := mpstackent_init t 0 # u_stack u\<rparr>) = one_value (u\<lparr>u_stack := u_stack u\<rparr>)"
    using assms(2) by (intro one_value_pop) (simp_all add: mpstackent_init_def)
  with assms r len show "feed_loop u ([b] @ q) = feed_loop (one_value u) q"
    by (simp add: ready_needs_None unpacker_push_def one_value_def)
qed

lemma feeds_fixed:
  assumes "\<And>u. feed_byte u b = unpacker_push u t (length pl)" "MP_CONTAINER_TYPE_sizesize t = 0"
    "\<not> MP_CONTAINER_TYPE_is_container t" "0 < d"
  shows "feeds d (b # pl)"
proof (cases "pl = []")
  case True
  with assms show ?thesis by (auto intro: feeds_empty)
next
  case False
  show ?thesis
    unfolding feeds_def
  proof (intro allI impI)
    fix u q assume r: "ready u" and len: "length (u_stack u) + d \<le> 256"
    have "unpacker_push u t (length pl) = Some (u\<lparr>u_stack := mpstackent_init t (length pl) # u_stack u\<rparr>)"
      using len assms(4) False by (intro push_open) auto
    with False assms r feed_payload [where e = "mpstackent_init t (length pl)"
        and pl = pl and u = u and es = "u_stack u" and q = q]
    show "feed_loop u ((b # pl) @ q) = feed_loop (one_value u) q"
      by (simp add: ready_needs_None mpstackent_init_def)
  qed
qed

text \<open>Size bytes go to the top entry; the last one sets how much is expected.\<close>

definition sized :: "mpstackent \<Rightarrow> byte list \<Rightarrow> mpstackent" where
  "sized e bs = e\<lparr>se_sizebytes := se_sizebytes e @ bs, se_sizesofar := se_sizesofar e + length bs,
     se_expect := (if MP_CONTAINER_TYPE_is_map (se_t e) then be_val (se_sizebytes e @ bs) * 2
                   else be_val (se_sizebytes e @ bs))\<rparr>"

lemma feed_size_bytes:
  assumes "se_sizesofar e + length bs = se_sizesize e" "bs \<noteq> []"
  shows "feed_loop (u\<lparr>u_stack := e # es\<rparr>) (bs @ q) = feed_loop (u\<lparr>u_stack := sized e bs # es\<rparr>) q"
  using assms
proof (induction bs arbitrary: e)
  case (Cons b bs)
  have nb: "unpacker_container_needs_bytes (u\<lparr>u_stack := e # es\<rparr>) = Some 0"
    using Cons.prems(1) by (simp add: unpacker_container_needs_bytes_def unpacker_top_def)
  have p: "snd (unpacker_progress (u\<lparr>u_stack := e # es\<rparr>) b) = u\<lparr>u_stack := take_size_byte b e # es\<rparr>"
    using Cons.prems(1) by (simp add: unpacker_progress_def Let_def)
  show ?case
  proof (cases "bs = []")
    case True
    with nb p Cons.prems(1) show ?thesis by (simp add: take_size_byte_def sized_def Let_def)
  next
    case False
    let ?e = "take_size_byte b e"
    have e: "?e = e\<lparr>se_sizebytes := se_sizebytes e @ [b], se_sizesofar := se_sizesofar e + 1\<rparr>"
      using Cons.prems(1) False by (cases bs) (auto simp: take_size_byte_def Let_def)
    have "sized ?e bs = sized e (b # bs)" by (simp add: e sized_def)
    with nb p Cons.IH [of ?e] Cons.prems(1) False show ?thesis by (simp add: e)
  qed
qed simp

lemma feeds_sized_raw:
  assumes "\<And>u. feed_byte u b = unpacker_push u t 0" "MP_CONTAINER_TYPE_sizesize t = k" "0 < k"
    "\<not> MP_CONTAINER_TYPE_is_container t" "\<not> MP_CONTAINER_TYPE_is_map t"
    "length pl < 256 ^ k" "pl \<noteq> []" "0 < d"
  shows "feeds d (b # be_bytes k (length pl) @ pl)"
  unfolding feeds_def
proof (intro allI impI)
  fix u q assume r: "ready u" and len: "length (u_stack u) + d \<le> 256"
  let ?e = "mpstackent_init t 0" and ?bs = "be_bytes k (length pl)"
  have "unpacker_push u t 0 = Some (u\<lparr>u_stack := ?e # u_stack u\<rparr>)"
    using len assms(2,3,8) by (intro push_open) auto
  then have "feed_loop u ((b # ?bs @ pl) @ q) = feed_loop (u\<lparr>u_stack := ?e # u_stack u\<rparr>) (?bs @ pl @ q)"
    using assms(1) r by (simp add: ready_needs_None)
  also have "\<dots> = feed_loop (u\<lparr>u_stack := sized ?e ?bs # u_stack u\<rparr>) (pl @ q)"
    using assms(2,3) by (intro feed_size_bytes) (auto simp: mpstackent_init_def simp flip: length_0_conv)
  also have "\<dots> = feed_loop (one_value (u\<lparr>u_stack := u_stack u\<rparr>)) q"
    using assms by (intro feed_payload) (simp_all add: sized_def mpstackent_init_def)
  finally show "feed_loop u ((b # ?bs @ pl) @ q) = feed_loop (one_value u) q" by simp
qed

text \<open>The bytes that open a container waiting for \<open>n\<close> items.\<close>

definition opens :: "byte list \<Rightarrow> nat \<Rightarrow> bool" where
  "opens hdr n \<longleftrightarrow> (\<forall>u q. ready u \<longrightarrow> length (u_stack u) < 256 \<longrightarrow>
     (\<exists>e. ready_ent e \<and> se_sofar e = 0 \<and> se_expect e = n \<and>
        feed_loop u (hdr @ q) = feed_loop (u\<lparr>u_stack := e # u_stack u\<rparr>) q))"

lemma opens_fix:
  assumes "\<And>u. feed_byte u b = unpacker_push u t n" "MP_CONTAINER_TYPE_sizesize t = 0"
    "MP_CONTAINER_TYPE_is_container t" "0 < n"
  shows "opens [b] n"
  unfolding opens_def
proof (intro allI impI)
  fix u q assume r: "ready u" and len: "length (u_stack u) < 256"
  from push_open [OF len, of t n] assms r
  show "\<exists>e. ready_ent e \<and> se_sofar e = 0 \<and> se_expect e = n \<and>
        feed_loop u ([b] @ q) = feed_loop (u\<lparr>u_stack := e # u_stack u\<rparr>) q"
    by (intro exI [of _ "mpstackent_init t n"]) (simp add: ready_needs_None ready_ent_def mpstackent_init_def)
qed

lemma opens_sized:
  assumes "\<And>u. feed_byte u b = unpacker_push u t 0" "MP_CONTAINER_TYPE_sizesize t = k" "0 < k"
    "MP_CONTAINER_TYPE_is_container t" "l < 256 ^ k" "0 < l"
  shows "opens (b # be_bytes k l) (if MP_CONTAINER_TYPE_is_map t then l * 2 else l)"
  unfolding opens_def
proof (intro allI impI)
  fix u q assume r: "ready u" and len: "length (u_stack u) < 256"
  let ?e = "mpstackent_init t 0"
  have "unpacker_push u t 0 = Some (u\<lparr>u_stack := ?e # u_stack u\<rparr>)"
    using len assms(2,3) by (intro push_open) auto
  then have "feed_loop u ((b # be_bytes k l) @ q) = feed_loop (u\<lparr>u_stack := ?e # u_stack u\<rparr>) (be_bytes k l @ q)"
    using assms(1) r by (simp add: ready_needs_None)
  also have "\<dots> = feed_loop (u\<lparr>u_stack := sized ?e (be_bytes k l) # u_stack u\<rparr>) q"
    using assms(2,3) by (intro feed_size_bytes) (auto simp: mpstackent_init_def simp flip: length_0_conv)
  finally show "\<exists>e. ready_ent e \<and> se_sofar e = 0 \<and>
        se_expect e = (if MP_CONTAINER_TYPE_is_map t then l * 2 else l) \<and>
        feed_loop u ((b # be_bytes k l) @ q) = feed_loop (u\<lparr>u_stack := e # u_stack u\<rparr>) q"
    using assms by (intro exI [of _ "sized ?e (be_bytes k l)"]) (simp add: ready_ent_def sized_def mpstackent_init_def)
qed

text \<open>The items of a container: the last one closes it, which counts as one value below.\<close>

lemma feed_items:
  assumes "list_all (feeds d) es" "se_sofar e + length es = se_expect e" "ready_ent e"
    "ready (u\<lparr>u_stack := st\<rparr>)" "Suc (length st) + d \<le> 256"
  shows "feed_loop (u\<lparr>u_stack := e # st\<rparr>) (concat es @ q) = feed_loop (one_value (u\<lparr>u_stack := st\<rparr>)) q"
  using assms
proof (induction es arbitrary: e)
  case Nil
  then show ?case by (simp add: ready_ent_def)
next
  case (Cons x es)
  let ?u = "u\<lparr>u_stack := e # st\<rparr>"
  have "ready ?u" using Cons.prems(3,4) by (simp add: ready_def)
  then have step: "feed_loop ?u (concat (x # es) @ q) = feed_loop (one_value ?u) (concat es @ q)"
    using Cons.prems(1,5) by (simp add: feeds_def)
  show ?case
  proof (cases "es = []")
    case True
    then have "one_value ?u = one_value (u\<lparr>u_stack := st\<rparr>)"
      using Cons.prems(2,3) by (intro one_value_pop) (simp_all add: ready_ent_def)
    with step True show ?thesis by simp
  next
    case False
    let ?e = "e\<lparr>se_sofar := se_sofar e + 1\<rparr>"
    have lt: "Suc (se_sofar e) < se_expect e" using Cons.prems(2) False by (cases es) auto
    then have "one_value ?u = u\<lparr>u_stack := ?e # st\<rparr>"
      using Cons.prems(3) by (simp add: one_value_def unpacker_progress_def ready_ent_def Let_def)
    moreover have "ready_ent ?e" using Cons.prems(3) lt by (simp add: ready_ent_def)
    ultimately show ?thesis
      using step Cons.IH [of ?e] Cons.prems by simp
  qed
qed

lemma feeds_container:
  assumes "opens hdr (length es)" "list_all (feeds d) es"
  shows "feeds (Suc d) (hdr @ concat es)"
  unfolding feeds_def
proof (intro allI impI)
  fix u q assume r: "ready u" and len: "length (u_stack u) + Suc d \<le> 256"
  from assms(1) r len obtain e where e: "ready_ent e" "se_sofar e = 0" "se_expect e = length es"
      "feed_loop u (hdr @ concat es @ q) = feed_loop (u\<lparr>u_stack := e # u_stack u\<rparr>) (concat es @ q)"
    unfolding opens_def by fastforce
  have "ready (u\<lparr>u_stack := u_stack u\<rparr>)" using r by simp
  from feed_items [OF assms(2) _ e(1) this, of q] e(2-4) len
  show "feed_loop u ((hdr @ concat es) @ q) = feed_loop (one_value u) q" by simp
qed

section \<open>Every value the writer produces is recognised\<close>

lemma feed_byte_fix:
  "unat b < 0x80 \<or> 0xe0 \<le> unat b \<Longrightarrow> feed_byte u b = Some (snd (unpacker_progress u b))"
  by (auto simp: feed_byte_def Let_def)

lemmas feed_byte_forms = feed_byte_def Let_def MP_CONTAINER_TYPE_sizesize_def
  MP_CONTAINER_TYPE_is_container_def MP_CONTAINER_TYPE_is_map_def

lemma feeds_long_long:
  assumes "- (2 ^ 63) \<le> k" "k < 2 ^ 63" "0 < d"
  shows "feeds d (long_long_bytes k)"
proof -
  have fixd: "feeds d (b # pl)" if "\<And>u. feed_byte u b = unpacker_push u t n" "n = length pl"
      "MP_CONTAINER_TYPE_sizesize t = 0" "\<not> MP_CONTAINER_TYPE_is_container t" for b pl t n
    using that assms(3) by (intro feeds_fixed) simp_all
  have num: "feeds d [b]" if "unat b < 0x80 \<or> 0xe0 \<le> unat b" for b
    using feed_byte_fix [OF that] by (rule feeds_byte)
  have neg: "224 \<le> unat ((0xe0 :: byte) OR word_of_int k)" if "- 32 \<le> k" "k < 0"
    using negative_fixnum_byte [OF that] that by simp
  show ?thesis
    unfolding long_long_bytes_def
    by (auto simp: unat_word_of_int_byte nat_less_iff neg simp del: be_bytes.simps
        intro!: num fixd [of "0xcc" MPCT_UINT8 1] fixd [of "0xcd" MPCT_UINT16 2] fixd [of "0xce" MPCT_UINT32 4]
          fixd [of "0xcf" MPCT_UINT64 8] fixd [of "0xd0" MPCT_INT8 1] fixd [of "0xd1" MPCT_INT16 2]
          fixd [of "0xd2" MPCT_INT32 4] fixd [of "0xd3" MPCT_INT64 8])
       (auto simp: feed_byte_forms)
qed

lemma feeds_number:
  assumes "number_bytes n = Inr e" "0 < d"
  shows "feeds d e"
proof -
  have dbl: "feeds d (0xcb # pl)" if "length pl = 8" for pl
    using that assms(2) by (intro feeds_fixed [where t = MPCT_DOUBLE]) (auto simp: feed_byte_forms)
  show ?thesis
  proof (cases "isinf n \<or> isnan n \<or> dbl_int n = None")
    case True
    with assms(1) dbl show ?thesis
      by (auto simp: number_bytes_def split: if_splits simp del: be_bytes.simps)
  next
    case False
    then obtain k where k: "dbl_int n = Some k" by auto
    with False assms(1) have "- (2 ^ 63) \<le> k" "k < 2 ^ 63" "e = long_long_bytes k"
      by (auto simp: number_bytes_def c_to_int_def dbl_int_trunc [OF k] split: if_splits)
    with assms(2) show ?thesis by (simp add: feeds_long_long)
  qed
qed

lemma feeds_string:
  assumes "length s < 4294967295" "0 < d"
  shows "feeds d (string_header (length s) @ s)"
proof -
  consider "length s < 32" | "32 \<le> length s" "length s < 65536" | "65536 \<le> length s" by linarith
  then show ?thesis
  proof cases
    case 1
    have "(5 * 32 + length s) mod 32 = length s mod 32" by (rule mod_mult_self3)
    with 1 have m: "(160 + length s) mod 32 = length s" by simp
    have "feeds d ((0xa0 OR word_of_nat (length s)) # s)"
      using assms(2) 1 fixraw_byte [OF 1] m
      by (intro feeds_fixed [where t = MPCT_RAW]) (simp_all add: feed_byte_forms)
    with 1 show ?thesis by (simp add: string_header_def)
  next
    case 2
    have "feeds d (0xda # be_bytes 2 (length s) @ s)"
      using assms(2) 2 by (intro feeds_sized_raw [where t = MPCT_RAW16]) (auto simp: feed_byte_forms)
    with 2 show ?thesis by (simp add: string_header_def del: be_bytes.simps)
  next
    case 3
    have "feeds d (0xdb # be_bytes 4 (length s) @ s)"
      using assms 3 by (intro feeds_sized_raw [where t = MPCT_RAW32]) (auto simp: feed_byte_forms)
    with 3 show ?thesis by (simp add: string_header_def del: be_bytes.simps)
  qed
qed

lemma opens_array:
  assumes "0 < l" "l < 4294967295"
  shows "opens (header_bytes 0x90 0xdc 0xdd l) l"
proof -
  consider "l < 16" | "16 \<le> l" "l < 65536" | "65536 \<le> l" by linarith
  then show ?thesis
  proof cases
    case 1
    have "opens [0x90 OR word_of_nat l] l"
      using 1 assms fix_header_byte [OF 1]
      by (intro opens_fix [where t = MPCT_FIXARRAY]) (simp_all add: feed_byte_forms)
    with 1 show ?thesis by (simp add: header_bytes_def)
  next
    case 2
    have "opens (0xdc # be_bytes 2 l) (if MP_CONTAINER_TYPE_is_map MPCT_ARRAY16 then l * 2 else l)"
      using assms 2 by (intro opens_sized) (simp_all add: feed_byte_forms)
    with 2 show ?thesis by (simp add: header_bytes_def MP_CONTAINER_TYPE_is_map_def del: be_bytes.simps)
  next
    case 3
    have "opens (0xdd # be_bytes 4 l) (if MP_CONTAINER_TYPE_is_map MPCT_ARRAY32 then l * 2 else l)"
      using assms 3 by (intro opens_sized) (simp_all add: feed_byte_forms)
    with 3 show ?thesis by (simp add: header_bytes_def MP_CONTAINER_TYPE_is_map_def del: be_bytes.simps)
  qed
qed

lemma opens_map:
  assumes "0 < l" "l < 4294967295"
  shows "opens (header_bytes 0x80 0xde 0xdf l) (l * 2)"
proof -
  consider "l < 16" | "16 \<le> l" "l < 65536" | "65536 \<le> l" by linarith
  then show ?thesis
  proof cases
    case 1
    have "opens [0x80 OR word_of_nat l] (l * 2)"
      using 1 assms fix_header_byte [OF 1]
      by (intro opens_fix [where t = MPCT_FIXMAP]) (simp_all add: feed_byte_forms)
    with 1 show ?thesis by (simp add: header_bytes_def)
  next
    case 2
    have "opens (0xde # be_bytes 2 l) (if MP_CONTAINER_TYPE_is_map MPCT_MAP16 then l * 2 else l)"
      using assms 2 by (intro opens_sized) (simp_all add: feed_byte_forms)
    with 2 show ?thesis by (simp add: header_bytes_def MP_CONTAINER_TYPE_is_map_def del: be_bytes.simps)
  next
    case 3
    have "opens (0xdf # be_bytes 4 l) (if MP_CONTAINER_TYPE_is_map MPCT_MAP32 then l * 2 else l)"
      using assms 3 by (intro opens_sized) (simp_all add: feed_byte_forms)
    with 3 show ?thesis by (simp add: header_bytes_def MP_CONTAINER_TYPE_is_map_def del: be_bytes.simps)
  qed
qed

text \<open>How many entries of the stack a value needs: one per level of nesting, and one for a scalar.\<close>

fun depth :: "lval \<Rightarrow> nat" where
  "depth (LTable kvs) = Suc (foldr (\<lambda>(k, v) m. max (max (depth k) (depth v)) m) kvs 1)"
| "depth _ = 1"

lemma depth_entry:
  assumes "(k, v) \<in> set kvs"
  shows "Suc (depth k) \<le> depth (LTable kvs)" "Suc (depth v) \<le> depth (LTable kvs)"
  using assms by (induction kvs) auto

lemma depth_pos: "Suc 0 \<le> depth v" "Suc (Suc 0) \<le> depth (LTable kvs)"
proof -
  have "Suc 0 \<le> foldr (\<lambda>(k, v) m. max (max (depth k) (depth v)) m) kvs 1" for kvs
    by (induction kvs) auto
  then show "Suc (Suc 0) \<le> depth (LTable kvs)" by simp
  show "Suc 0 \<le> depth v" by (cases v) simp_all
qed

lemma depth_rawgeti: "Suc (depth (lua_rawgeti kvs i)) \<le> depth (LTable kvs)"
proof (cases "map_of kvs (norm_key (lua_int (int i)))")
  case None
  with depth_pos(2) [of kvs] show ?thesis by (simp add: lua_rawgeti_def lua_rawget_def del: depth.simps(1))
next
  case (Some v)
  with depth_entry(2) [OF map_of_SomeD [OF Some]] show ?thesis
    by (simp add: lua_rawgeti_def lua_rawget_def del: depth.simps(1))
qed

lemma length_entries_seq: "length (entries_seq kvs) = length kvs * 2"
  by (induction kvs) (auto simp: entries_seq_def)

lemma mp_encodes_feeds: "mp_encodes objlen h v e \<Longrightarrow> depth v \<le> d \<Longrightarrow> feeds d e"
proof (induction arbitrary: d rule: mp_encodes.induct)
  case enc_nil
  show ?case by (rule feeds_byte) (simp add: feed_byte_def Let_def)
next
  case (enc_boolean i)
  show ?case by (rule feeds_byte) (simp add: feed_byte_def Let_def)
next
  case (enc_number n e)
  then show ?case by (intro feeds_number) auto
next
  case (enc_string s)
  then show ?case by (intro feeds_string) auto
next
  case (enc_buffer ms s)
  then show ?case by (intro feeds_string) auto
next
  case (enc_array kvs es)
  from enc_array.prems depth_pos(2) [of kvs] obtain d' where d: "d = Suc d'" by (cases d) auto
  have "list_all (feeds d') es"
    unfolding list_all_length
  proof (intro allI impI)
    fix i assume i: "i < length es"
    let ?j = "[1..<Suc (objlen kvs)] ! i"
    have "depth (lua_rawgeti kvs ?j) \<le> d'" using depth_rawgeti [of kvs ?j] enc_array.prems d by simp
    with list_all2_nthD2 [OF enc_array.IH i] list_all2_lengthD [OF enc_array.IH] i
    show "feeds d' (es ! i)" by (simp del: upt_Suc)
  qed
  moreover have "length es = objlen kvs" using list_all2_lengthD [OF enc_array.IH] by (simp del: upt_Suc)
  ultimately show ?case
    using enc_array(1,2) opens_array [of "objlen kvs"] unfolding d by (intro feeds_container) simp_all
next
  case (enc_map kvs es)
  from enc_map.prems depth_pos(2) [of kvs] obtain d' where d: "d = Suc d'" by (cases d) auto
  have len: "length es = length kvs * 2"
    using list_all2_lengthD [OF enc_map.IH] by (simp add: length_entries_seq)
  have "list_all (feeds d') es"
    unfolding list_all_length
  proof (intro allI impI)
    fix i assume i: "i < length es"
    then have "entries_seq kvs ! i \<in> set (entries_seq kvs)"
      using list_all2_lengthD [OF enc_map.IH] by simp
    then have "depth (entries_seq kvs ! i) \<le> d'"
      using depth_entry [of _ _ kvs] enc_map.prems d
      by (fastforce simp: entries_seq_def simp del: depth.simps(1))
    with list_all2_nthD2 [OF enc_map.IH i] show "feeds d' (es ! i)" by simp
  qed
  moreover have "feeds d (header_bytes 0x80 0xde 0xdf 0)"
    unfolding header_bytes_def using d
    by (simp, intro feeds_empty [where t = MPCT_FIXMAP]) (simp_all add: feed_byte_forms)
  ultimately show ?case
    using enc_map(2) opens_map [of "length kvs"] len unfolding d
    by (cases "kvs = []") (simp, intro feeds_container, simp_all)
qed

text \<open>As an instance of the contract: a feed that does not return 0 counts as a failure.\<close>

definition feed_whole :: "unpacker \<Rightarrow> byte list \<Rightarrow> unpacker option" where
  "feed_whole u p =
     (case unpacker_feed u p of Inl _ \<Rightarrow> None | Inr (c, u') \<Rightarrow> if c = 0 then Some u' else None)"

definition unpacker_ok :: "unpacker \<Rightarrow> bool" where
  "unpacker_ok u \<longleftrightarrow> u_buf u \<noteq> None \<and> u_used u \<le> u_size u"

lemma unpacker_feed_inv:
  assumes "unpacker_feed u p = Inr (0, u')"
  shows "u_buf u \<noteq> None" "u_used u + length p \<le> u_size u" "u_used u' = u_used u + length p"
    "u_size u' = u_size u" "u_buf u' \<noteq> None" "\<exists>u1. feed_loop u p = Inr (0, u1)"
proof -
  show fit: "u_used u + length p \<le> u_size u" and buf: "u_buf u \<noteq> None"
    using assms by (auto simp: unpacker_feed_def split: if_splits option.splits)
  then obtain b where b: "u_buf u = Some b" by auto
  from assms obtain u1 where u1: "feed_loop u p = Inr (0, u1)"
      "u' = with_buf (Some (mem_write b (u_used u) p)) (u_used u + length p) u1"
    unfolding unpacker_feed_eq [OF b fit] by (cases "feed_loop u p") auto
  then show "\<exists>u1. feed_loop u p = Inr (0, u1)" "u_used u' = u_used u + length p" "u_buf u' \<noteq> None"
    "u_size u' = u_size u"
    using feed_loop_size [OF u1(1)] by auto
qed

lemma feed_whole_append:
  assumes "unpacker_ok u"
  shows "feed_whole u (p @ q) = (case feed_whole u p of None \<Rightarrow> None | Some u' \<Rightarrow> feed_whole u' q)"
proof (cases "\<exists>u'. unpacker_feed u p = Inr (0, u')")
  case True
  then obtain u' where u': "unpacker_feed u p = Inr (0, u')" by blast
  note inv = unpacker_feed_inv [OF u']
  show ?thesis
  proof (cases "u_used u + length (p @ q) \<le> u_size u")
    case fit: True
    from unpacker_feed_append [OF u' fit inv(1)] u' show ?thesis by (simp add: feed_whole_def)
  next
    case False
    with inv(3,4) u' show ?thesis by (simp add: feed_whole_def unpacker_feed_def)
  qed
next
  case False
  then have p: "feed_whole u p = None"
    by (auto simp: feed_whole_def split: sum.split)
  have "feed_whole u (p @ q) = None"
  proof (rule ccontr)
    assume "feed_whole u (p @ q) \<noteq> None"
    then obtain u' where u': "unpacker_feed u (p @ q) = Inr (0, u')"
      by (auto simp: feed_whole_def split: sum.splits if_splits)
    note inv = unpacker_feed_inv [OF u']
    obtain b where b: "u_buf u = Some b" using inv(1) by auto
    have fit: "u_used u + length p \<le> u_size u" using inv(2) by simp
    obtain u1 where "feed_loop u p = Inr (0, u1)"
      using inv(6) by (auto simp: feed_loop_append after_feed_def bind_res_Inr_iff split: if_splits)
    with False show False by (simp add: unpacker_feed_eq [OF b fit])
  qed
  with p show ?thesis by simp
qed

interpretation unp: chunked unpacker_ok feed_whole
proof
  fix u p q u'
  assume ok: "unpacker_ok u"
  show "feed_whole u [] = Some u"
    using ok by (auto simp: feed_whole_def unpacker_feed_def unpacker_ok_def)
  show "feed_whole u (p @ q) = (case feed_whole u p of None \<Rightarrow> None | Some u' \<Rightarrow> feed_whole u' q)"
    by (rule feed_whole_append [OF ok])
  assume "feed_whole u p = Some u'"
  then have "unpacker_feed u p = Inr (0, u')"
    by (auto simp: feed_whole_def split: sum.splits if_splits)
  from unpacker_feed_inv [OF this] show "unpacker_ok u'" by (simp add: unpacker_ok_def)
qed

section \<open>A queue of values\<close>

text \<open>
  The abstract state of an unpacker between values: the values that are complete and not yet
  pulled, oldest first. Four spare bytes behind them keep the loads of the 32-bit forms inside
  the buffer.
\<close>

definition holds :: "(ltable \<Rightarrow> nat) \<Rightarrow> 'a slab_scheme \<Rightarrow> lval list \<Rightarrow> unpacker \<Rightarrow> bool" where
  "holds objlen hs vs u \<longleftrightarrow> u_stack u = [] \<and> u_resultnum u = length vs \<and> u_used u + 4 \<le> u_size u \<and>
     (\<exists>buf es. u_buf u = Some buf \<and> list_all2 (mp_encodes objlen hs) vs es \<and>
        u_used u = length (concat es) \<and> mem_read buf 0 (u_used u) = concat es)"

lemma holds_init: "4 \<le> n \<Longrightarrow> holds objlen hs [] (unpacker_init fresh n)"
  by (simp add: holds_def unpacker_init_def)

lemma feed_values:
  assumes "list_all2 (\<lambda>v e. mp_encodes objlen hs v e \<and> depth v \<le> 256) vs es" "ready u" "u_stack u = []"
  shows "feed_loop u (concat es) = Inr (0, u\<lparr>u_resultnum := u_resultnum u + length vs\<rparr>)"
  using assms
proof (induction vs es arbitrary: u rule: list_all2_induct)
  case (Cons v vs e es)
  have one: "one_value u = u\<lparr>u_resultnum := u_resultnum u + 1\<rparr>"
    using Cons.prems(2) by (simp add: one_value_def unpacker_progress_def)
  have "feeds 256 e" using Cons.hyps(1) mp_encodes_feeds by blast
  with Cons.prems have "feed_loop u (concat (e # es)) = feed_loop (one_value u) (concat es)"
    by (simp add: feeds_def)
  with Cons.IH [of "one_value u"] Cons.prems show ?case by (simp add: one ready_def)
qed simp

lemma feed_holds:
  assumes "holds objlen hs vs u" "list_all2 (\<lambda>v e. mp_encodes objlen hs v e \<and> depth v \<le> 256) ws es"
    and "u_used u + length (concat es) + 4 \<le> u_size u"
  obtains u' where "unpacker_feed u (concat es) = Inr (0, u')" "holds objlen hs (vs @ ws) u'"
    "u_size u' = u_size u"
proof -
  obtain buf fs where b: "u_buf u = Some buf" "list_all2 (mp_encodes objlen hs) vs fs"
      "u_used u = length (concat fs)" "mem_read buf 0 (u_used u) = concat fs"
    using assms(1) by (auto simp: holds_def)
  have r: "ready u" "u_stack u = []" using assms(1) by (simp_all add: holds_def ready_def)
  have fit: "u_used u + length (concat es) \<le> u_size u" using assms(3) by simp
  let ?u' = "with_buf (Some (mem_write buf (u_used u) (concat es))) (u_used u + length (concat es))
      (u\<lparr>u_resultnum := u_resultnum u + length ws\<rparr>)"
  have "unpacker_feed u (concat es) = Inr (0, ?u')"
    unfolding unpacker_feed_eq [OF b(1) fit] by (simp add: feed_values [OF assms(2) r])
  moreover have "mem_read (mem_write buf (u_used u) (concat es)) 0 (u_used u + length (concat es)) = concat (fs @ es)"
    using mem_read_write_prefix [of buf 0 "u_used u" "concat es"] b(4) by simp
  moreover have "list_all2 (mp_encodes objlen hs) (vs @ ws) (fs @ es)"
    using b(2) assms(2) by (auto intro!: list_all2_appendI elim: list_all2_mono)
  ultimately show thesis
    using assms(1,3) b(3) by (intro that [of ?u']) (auto simp: holds_def intro!: exI [of _ "fs @ es"])
qed

text \<open>A pull gives the oldest value.\<close>

lemma pull_holds:
  assumes "holds objlen hs (v # vs) u" "kept objlen v" "slab_ok h"
  obtains v' u' h' where "msgpack_unpacker_pull_api self u h = Inr (v', u', h')"
    "view h' v' = view hs v" "holds objlen hs vs u'" "u_size u' = u_size u" "slab_ok h'" "only_refs h h'"
proof -
  obtain buf e es where b: "u_buf u = Some buf" "mp_encodes objlen hs v e" "list_all2 (mp_encodes objlen hs) vs es"
      "u_used u = length e + length (concat es)" "mem_read buf 0 (u_used u) = e @ concat es"
    using assms(1) by (auto simp: holds_def list_all2_Cons1)
  have room: "u_used u + 4 \<le> u_size u" "u_resultnum u = Suc (length vs)" "u_stack u = []"
    using assms(1) by (simp_all add: holds_def)
  let ?rb = "mprbuf_init (mem_read buf 0 (u_size u)) (u_used u)"
  have roomy: "roomy ?rb" using room by (simp add: roomy_def mprbuf_init_def)
  have "take (length e) (mem_read buf 0 (u_used u)) = e" using b(5) by simp
  then have "reads_at ?rb e"
    using b(4) room(1) roomy by (simp add: reads_at_def mprbuf_init_def min_def split: if_splits)
  then have st: "starts h e (?rb, [self], h)"
    using roomy assms(3)
    by (simp add: starts_def only_refs_refl rd_ok_def rb_in_use_def rb_backed_def mprbuf_init_def)
  with mp_encodes_decodes [OF b(2) assms(2), of h] obtain v' h' where
    r: "mprbuf_unpack_anytype (Suc (mprbuf_left ?rb)) (?rb, [self], h) = Inr (rb_skip (length e) ?rb, v' # [self], h')"
      "view h' v' = view hs v"
    unfolding decodes_def by (metis lessI)
  have "rd_ok (?rb, [self], h)" using st by (simp add: starts_def)
  from unpack_anytype_ok [OF this, of "Suc (mprbuf_left ?rb)"] r(1) have ok': "slab_ok h'" "only_refs h h'"
    by (simp_all add: scalar_ok_def reads_def)
  let ?m = "mem_write buf 0 (mem_read buf (length e) (u_used u - length e))"
  let ?u' = "u\<lparr>u_buf := Some ?m, u_used := u_used u - length e, u_resultnum := u_resultnum u - 1\<rparr>"
  have rest: "mem_read buf (length e) (length (concat es)) = concat es"
    using arg_cong [OF b(5), of "drop (length e)"] b(4) by simp
  have "holds objlen hs vs ?u'"
    using b(3,4) room mem_read_write_same [of buf 0 "concat es"]
    by (auto simp: holds_def rest intro!: exI [of _ es])
  moreover have "msgpack_unpacker_pull_api self u h = Inr (v', ?u', h')"
    using r(1) room(2) b(1,4)
    by (simp add: msgpack_unpacker_pull_api_def Let_def unpacker_shift_def mprbuf_init_def)
  ultimately show thesis using r(2) ok' by (intro that [of v' ?u' h']) simp_all
qed

text \<open>Pulling several values.\<close>

fun pull_all :: "lval \<Rightarrow> nat \<Rightarrow> unpacker \<Rightarrow> 'a slab_scheme \<Rightarrow> (lval list \<times> unpacker \<times> 'a slab_scheme) res" where
  "pull_all self 0 u h = Inr ([], u, h)"
| "pull_all self (Suc n) u h =
     bind_res (msgpack_unpacker_pull_api self u h) (\<lambda>(v, u', h').
     bind_res (pull_all self n u' h') (\<lambda>(vs, u'', h''). Inr (v # vs, u'', h'')))"

lemma pull_all_holds:
  assumes "holds objlen hs vs u" "list_all (kept objlen) vs" "slab_ok h"
  shows "\<exists>vs' u' h'. pull_all self (length vs) u h = Inr (vs', u', h') \<and>
    list_all2 (\<lambda>v v'. view h' v' = view hs v) vs vs' \<and> holds objlen hs [] u' \<and> only_refs h h'"
  using assms
proof (induction vs arbitrary: u h)
  case Nil
  then show ?case by (simp add: only_refs_refl)
next
  case (Cons v vs)
  obtain v1 u1 h1 where p: "msgpack_unpacker_pull_api self u h = Inr (v1, u1, h1)"
      "view h1 v1 = view hs v" "holds objlen hs vs u1" "slab_ok h1" "only_refs h h1"
    by (rule pull_holds [OF Cons.prems(1) _ Cons.prems(3), where self = self])
       (use Cons.prems(2) in auto)
  obtain vs' u' h' where q: "pull_all self (length vs) u1 h1 = Inr (vs', u', h')"
      "list_all2 (\<lambda>v v'. view h' v' = view hs v) vs vs'" "holds objlen hs [] u'" "only_refs h1 h'"
    using Cons.IH [OF p(3) _ p(4)] Cons.prems(2) by auto
  from p(1,2) q view_only_refs [OF q(4), of v1] only_refs_trans [OF p(5) q(4)] show ?case by auto
qed

text \<open>No feed opens more than 256 items.\<close>

lemma progress_loop_length: "length (progress_loop ch es) \<le> length es"
  by (induction es) (auto simp: Let_def)

lemma feed_loop_stack:
  "feed_loop u p = Inr (c, u') \<Longrightarrow> length (u_stack u) \<le> 256 \<Longrightarrow> length (u_stack u') \<le> 256"
proof (induction u p arbitrary: c u' rule: feed_loop.induct)
  case (2 u ch p)
  have prog: "length (u_stack (snd (unpacker_progress u1 ch1))) \<le> 256"
    if "length (u_stack u1) \<le> 256" for u1 ch1
    using progress_loop_length [of ch1 "u_stack u1"] that by (simp add: unpacker_progress_def Let_def)
  have push: "length (u_stack u1) \<le> 256" if "unpacker_push u t n = Some u1" for t n u1
    using that prog [of "u\<lparr>u_stack := mpstackent_init t n # u_stack u\<rparr>" 0]
    by (auto simp: unpacker_push_def Let_def split: if_splits)
  show ?case
  proof (cases "unpacker_container_needs_bytes u")
    case None
    show ?thesis
    proof (cases "feed_byte u ch")
      case (Some u1)
      with "2.prems" None have r: "feed_loop u1 p = Inr (c, u')" by simp
      have "length (u_stack u1) \<le> 256"
        using feed_byte_outcome [of u ch] Some prog [OF "2.prems"(2), of ch] push
        unfolding byte_outcome_def by (metis option.distinct(1) option.inject)
      from "2.IH"(1) [OF None Some r this] show ?thesis .
    qed (use None "2.prems" in simp)
  next
    case (Some n)
    show ?thesis
    proof (cases "0 < n")
      case True
      with Some "2.prems" obtain u1 where
        u1: "unpacker_progress_datasize u (min (length (ch # p)) n) = Inr u1"
          "feed_loop u1 (drop (min (length (ch # p)) n) (ch # p)) = Inr (c, u')"
        by (auto simp: Let_def bind_res_Inr_iff)
      obtain e es where e: "u_stack u = e # es" using needs_data [OF Some True] .
      then have "length (u_stack u1) \<le> 256"
        using u1(1) "2.prems"(2) prog [of "u\<lparr>u_stack := _ # es\<rparr>" 0]
        by (auto simp: unpacker_progress_datasize_def Let_def split: if_splits)
      from "2.IH"(2) [OF Some True refl u1 this] show ?thesis .
    next
      case False
      with Some "2.prems" have "feed_loop (snd (unpacker_progress u ch)) p = Inr (c, u')" by simp
      from "2.IH"(3) [OF Some False this prog [OF "2.prems"(2)]] show ?thesis .
    qed
  qed
qed simp

end
