(* ===== verification/Lev_Buffer.thy ===== *)
theory Lev_Buffer
  imports Lev_MemSlice
begin

text \<open>
  The Lua methods of \<open>lev.buffer\<close> (\<open>src/lev_new_buffer.c\<close> from \<open>buffer_new\<close> to
  \<open>buffer_debug\<close>). A method gets its arguments as a list and the heap; it returns its results and
  the heap, or raises a Lua error, or is undefined. The Lua library's conversions between strings
  and numbers are the parameters \<open>str2num\<close> and \<open>num2str\<close>.
\<close>

unbundle bit_operations_syntax

record lua_lib =
  str2num :: "byte list \<Rightarrow> lua_Number option"
  num2str :: "lua_Number \<Rightarrow> byte list"

section \<open>Arguments\<close>

text \<open>An absent argument is converted like nil.\<close>

definition arg :: "lval list \<Rightarrow> nat \<Rightarrow> lval" where
  "arg args i = (if 1 \<le> i \<and> i \<le> length args then args ! (i - 1) else LNil)"

definition lua_tonumber :: "lua_lib \<Rightarrow> lval \<Rightarrow> lua_Number option" where
  "lua_tonumber L v = (case v of LNumber n \<Rightarrow> Some n | LString s \<Rightarrow> str2num L s | _ \<Rightarrow> None)"

text \<open>A \<open>lua_Integer\<close> has 64 bits; what is no number gives 0.\<close>

definition lua_tointeger :: "lua_lib \<Rightarrow> lval \<Rightarrow> int res" where
  "lua_tointeger L v =
     (case lua_tonumber L v of None \<Rightarrow> Inr 0 | Some n \<Rightarrow> c_to_int (- (2 ^ 63)) (2 ^ 63 - 1) n)"

definition arg_size :: "lua_lib \<Rightarrow> lval list \<Rightarrow> nat \<Rightarrow> nat res" where
  "arg_size L args i = bind_res (lua_tointeger L (arg args i)) (\<lambda>k. Inr (to_size_t k))"

definition luaL_checknumber :: "lua_lib \<Rightarrow> lval \<Rightarrow> lua_Number res" where
  "luaL_checknumber L v =
     (case lua_tonumber L v of None \<Rightarrow> Inl (Lua_error ''number expected'') | Some n \<Rightarrow> Inr n)"

text \<open>\<open>luaL_checkint\<close>: through \<open>lua_Integer\<close>, then the low 32 bits.\<close>

definition luaL_checkint :: "lua_lib \<Rightarrow> lval \<Rightarrow> int res" where
  "luaL_checkint L v =
     bind_res (luaL_checknumber L v) (\<lambda>n.
       bind_res (c_to_int (- (2 ^ 63)) (2 ^ 63 - 1) n) (\<lambda>k. Inr (to_int k)))"

definition check_buffer :: "lval \<Rightarrow> MemSlice res" where
  "check_buffer v = (case v of LBuffer ms \<Rightarrow> Inr ms | _ \<Rightarrow> Inl (Lua_error ''lev.buffer expected''))"

text \<open>\<open>lua_tolstring\<close>: the null pointer for what is no string and no number.\<close>

definition lua_tolstring :: "lua_lib \<Rightarrow> lval \<Rightarrow> byte list option" where
  "lua_tolstring L v = (case v of LString s \<Rightarrow> Some s | LNumber n \<Rightarrow> Some (num2str L n) | _ \<Rightarrow> None)"

definition arg_error :: "nat \<Rightarrow> string \<Rightarrow> 'a res" where
  "arg_error i msg = Inl (Lua_error msg)"

text \<open>\<open>_BUFFER_GETOFFSET\<close>: the subtraction of the width wraps.\<close>

definition buffer_getoffset :: "lua_lib \<Rightarrow> lval list \<Rightarrow> nat \<Rightarrow> nat \<Rightarrow> nat \<Rightarrow> nat res" where
  "buffer_getoffset L args idx buffer_len extbound =
     bind_res (arg_size L args idx) (\<lambda>index.
       if index < 1 \<or> sz_sub buffer_len extbound < index - 1 then arg_error idx ''Index out of bounds''
       else Inr index)"

type_synonym 'h ret = "(lval list \<times> 'h) res"

section \<open>Making buffers\<close>

text \<open>A string is followed by a null byte.\<close>

definition buffer_new :: "lua_lib \<Rightarrow> lval list \<Rightarrow> 'a lev_heap_scheme \<Rightarrow> 'a lev_heap_scheme ret" where
  "buffer_new L args h =
     (let init_idx = (case arg args 1 of LTable _ \<Rightarrow> 2 | _ \<Rightarrow> 1) in
      bind_res
        (case arg args init_idx of
           LNumber _ \<Rightarrow> bind_res (arg_size L args init_idx) (\<lambda>n. Inr (n, None))
         | LString s \<Rightarrow> Inr (length s, Some (s @ [0]))
         | _ \<Rightarrow> arg_error init_idx ''Must be of type Number or String'')
        (\<lambda>(buffer_size, lua_temp).
          bind_res (lev_buffer_new buffer_size lua_temp 0 h) (\<lambda>(ms, h'). Inr ([LBuffer ms], h'))))"

definition buffer_isbuffer :: "lval list \<Rightarrow> lval" where
  "buffer_isbuffer args = LBoolean (case arg args 1 of LBuffer _ \<Rightarrow> True | _ \<Rightarrow> False)"

section \<open>Whole ranges\<close>

text \<open>An offset argument with the default 1, and its check.\<close>

definition buffer_offset :: "lua_lib \<Rightarrow> lval list \<Rightarrow> nat \<Rightarrow> nat \<Rightarrow> nat res" where
  "buffer_offset L args i buffer_len =
     bind_res (arg_size L args i) (\<lambda>n.
       let offset = (if n = 0 then 1 else n) in
       if offset < 1 \<or> buffer_len < offset then arg_error i ''Offset out of bounds'' else Inr offset)"

definition buffer_length :: "lua_lib \<Rightarrow> lval list \<Rightarrow> nat \<Rightarrow> nat \<Rightarrow> nat res" where
  "buffer_length L args i rest =
     bind_res (arg_size L args i) (\<lambda>n.
       let len = (if n = 0 then rest else n) in
       if rest < len then arg_error i ''length out of bounds'' else Inr len)"

definition buffer_tostring :: "lua_lib \<Rightarrow> lval list \<Rightarrow> 'a slab_scheme \<Rightarrow> 'a slab_scheme ret" where
  "buffer_tostring L args h =
     bind_res (check_buffer (arg args 1)) (\<lambda>ms.
     bind_res (buffer_offset L args 2 (ms_until ms)) (\<lambda>offset.
     bind_res (buffer_length L args 3 (ms_until ms - (offset - 1))) (\<lambda>len.
     bind_res (block_read h (ms_mb ms) (ms_slice ms + (offset - 1)) len) (\<lambda>s.
       Inr ([LString s], h)))))"

definition buffer_slice :: "lua_lib \<Rightarrow> lval list \<Rightarrow> 'a slab_scheme \<Rightarrow> 'a slab_scheme ret" where
  "buffer_slice L args h =
     bind_res (check_buffer (arg args 1)) (\<lambda>ms.
     bind_res (buffer_offset L args 2 (ms_until ms)) (\<lambda>offset.
     bind_res (buffer_length L args 3 (ms_until ms - (offset - 1))) (\<lambda>len.
     bind_res (lev_slab_incRef (Some (ms_mb ms)) h) (\<lambda>(_, h').
       Inr ([LBuffer \<lparr>ms_mb = ms_mb ms, ms_slice = ms_slice ms + (offset - 1), ms_until = len\<rparr>], h')))))"

text \<open>
  The value to fill with: the low byte of a number (the test \<open>value > 255\<close> on a \<open>uint8_t\<close> never
  holds), or the first byte of a string, its terminating null when it is empty.
\<close>

definition fill_value :: "lua_lib \<Rightarrow> lval \<Rightarrow> byte res" where
  "fill_value L v =
     (case v of
        LNumber _ \<Rightarrow> bind_res (lua_tointeger L v) (\<lambda>k.
          let value = (word_of_int k :: byte) in
          if 255 < unat value then arg_error 2 ''0 < Value < 255'' else Inr value)
      | LString s \<Rightarrow> Inr (case s of [] \<Rightarrow> 0 | c # _ \<Rightarrow> c)
      | _ \<Rightarrow> arg_error 2 ''Value is not of type String or Number'')"

definition buffer_fill :: "lua_lib \<Rightarrow> lval list \<Rightarrow> 'a slab_scheme \<Rightarrow> 'a slab_scheme ret" where
  "buffer_fill L args h =
     bind_res (check_buffer (arg args 1)) (\<lambda>ms.
     bind_res (buffer_offset L args 3 (ms_until ms)) (\<lambda>offset.
     bind_res (arg_size L args 4) (\<lambda>n.
       let len = (if n = 0 then ms_until ms else n) in
       if len < offset \<or> ms_until ms < len then arg_error 4 ''length out of bounds''
       else
         bind_res (fill_value L (arg args 2)) (\<lambda>value.
         bind_res (slice_store ms (offset - 1) (replicate (len - (offset - 1)) value) h) (\<lambda>h'.
           Inr ([], h'))))))"

section \<open>Searching\<close>

text \<open>\<open>memchr\<close> and the loop of \<open>my_memmem\<close>, as offsets from where the search started.\<close>

fun memchr :: "byte list \<Rightarrow> byte \<Rightarrow> nat \<Rightarrow> nat option" where
  "memchr [] c i = None"
| "memchr (x # xs) c i = (if x = c then Some i else memchr xs c (Suc i))"

fun memmem_loop :: "byte list \<Rightarrow> byte list \<Rightarrow> nat \<Rightarrow> nat option" where
  "memmem_loop [] s i = None"
| "memmem_loop (x # xs) s i =
     (if length (x # xs) < length s then None
      else if x = hd s \<and> take (length s) (x # xs) = s then Some i
      else memmem_loop xs s (Suc i))"

definition my_memmem :: "byte list \<Rightarrow> byte list \<Rightarrow> nat option" where
  "my_memmem l s =
     (if length l = 0 \<or> length s = 0 then None
      else if length l < length s then None
      else if length s = 1 then memchr l (hd s) 0
      else memmem_loop l s 0)"

definition buffer_find :: "lua_lib \<Rightarrow> lval list \<Rightarrow> 'a slab_scheme \<Rightarrow> 'a slab_scheme ret" where
  "buffer_find L args h =
     bind_res (check_buffer (arg args 1)) (\<lambda>ms.
     case lua_tolstring L (arg args 2) of
       None \<Rightarrow> arg_error 2 ''String is Required''
     | Some delimiter \<Rightarrow>
         if length delimiter = 0 then Inr ([LNil], h)
         else bind_res (slice_bytes h ms) (\<lambda>buffer.
           Inr ([case my_memmem buffer delimiter of None \<Rightarrow> LNil | Some found \<Rightarrow> lua_int (int (found + 1))], h)))"

definition buffer_upuntil :: "lua_lib \<Rightarrow> lval list \<Rightarrow> 'a slab_scheme \<Rightarrow> 'a slab_scheme ret" where
  "buffer_upuntil L args h =
     bind_res (check_buffer (arg args 1)) (\<lambda>ms.
     case lua_tolstring L (arg args 2) of
       None \<Rightarrow> arg_error 2 ''Delimiter String is Required''
     | Some delimiter \<Rightarrow>
         if length delimiter = 0 then Inr ([LString []], h)
         else
           bind_res (buffer_offset L args 3 (ms_until ms)) (\<lambda>offset.
           bind_res (block_read h (ms_mb ms) (ms_slice ms + (offset - 1)) (ms_until ms - (offset - 1))) (\<lambda>rest.
             Inr ([LString (case my_memmem rest delimiter of None \<Rightarrow> rest | Some found \<Rightarrow> take found rest)], h))))"

text \<open>ASCII text as bytes.\<close>

definition ascii :: "string \<Rightarrow> byte list" where
  "ascii s = map of_char s"

definition hex_digit :: "nat \<Rightarrow> byte" where
  "hex_digit d = ascii ''0123456789ABCDEF'' ! d"

definition buffer_inspect :: "lval list \<Rightarrow> 'a slab_scheme \<Rightarrow> 'a slab_scheme ret" where
  "buffer_inspect args h =
     bind_res (check_buffer (arg args 1)) (\<lambda>ms.
     bind_res (slice_bytes h ms) (\<lambda>buffer.
       Inr ([LString (ascii ''<Buffer '' @
               concat (map (\<lambda>b. [hex_digit (unat b div 16), hex_digit (unat b mod 16), of_char (CHR '' '')]) buffer) @
               ascii ''>'')], h)))"

section \<open>Numbers in a buffer\<close>

text \<open>The helpers of the same names; a load on the little-endian target is \<open>le_val\<close>.\<close>

definition bswap16 :: "16 word \<Rightarrow> 16 word" where
  "bswap16 a = push_bit 8 a OR drop_bit 8 a"

definition bswap32 :: "32 word \<Rightarrow> 32 word" where
  "bswap32 x = push_bit 24 x OR push_bit 8 (x AND 0xff00) OR (drop_bit 8 x AND 0xff00) OR drop_bit 24 x"

definition le_val :: "byte list \<Rightarrow> nat" where
  "le_val bs = be_val (rev bs)"

definition le_bytes :: "nat \<Rightarrow> nat \<Rightarrow> byte list" where
  "le_bytes n x = rev (be_bytes n x)"

text \<open>
  A read of \<open>w\<close> bytes at the index: the check allows for \<open>extbound\<close> bytes. \<open>conv\<close> turns the loaded
  value into the number pushed.
\<close>

definition buffer_read :: "nat \<Rightarrow> nat \<Rightarrow> (byte list \<Rightarrow> int) \<Rightarrow> lua_lib \<Rightarrow> lval list \<Rightarrow> 'a slab_scheme \<Rightarrow> 'a slab_scheme ret" where
  "buffer_read extbound w conv L args h =
     bind_res (check_buffer (arg args 1)) (\<lambda>ms.
     bind_res (buffer_getoffset L args 2 (ms_until ms) extbound) (\<lambda>index.
     bind_res (block_read h (ms_mb ms) (ms_slice ms + (index - 1)) w) (\<lambda>bs.
       Inr ([lua_int (conv bs)], h))))"

definition buffer_readUInt8 :: "lua_lib \<Rightarrow> lval list \<Rightarrow> 'a slab_scheme \<Rightarrow> 'a slab_scheme ret" where
  "buffer_readUInt8 = buffer_read 0 1 (\<lambda>bs. int (le_val bs))"

definition buffer_readInt8 :: "lua_lib \<Rightarrow> lval list \<Rightarrow> 'a slab_scheme \<Rightarrow> 'a slab_scheme ret" where
  "buffer_readInt8 = buffer_read 0 1 (\<lambda>bs. to_signed 8 (int (le_val bs)))"

definition buffer_readUInt16BE :: "lua_lib \<Rightarrow> lval list \<Rightarrow> 'a slab_scheme \<Rightarrow> 'a slab_scheme ret" where
  "buffer_readUInt16BE = buffer_read 2 2 (\<lambda>bs. uint (bswap16 (word_of_nat (le_val bs))))"

definition buffer_readUInt16LE :: "lua_lib \<Rightarrow> lval list \<Rightarrow> 'a slab_scheme \<Rightarrow> 'a slab_scheme ret" where
  "buffer_readUInt16LE = buffer_read 2 2 (\<lambda>bs. int (le_val bs))"

definition buffer_readUInt32BE :: "lua_lib \<Rightarrow> lval list \<Rightarrow> 'a slab_scheme \<Rightarrow> 'a slab_scheme ret" where
  "buffer_readUInt32BE = buffer_read 4 4 (\<lambda>bs. uint (bswap32 (word_of_nat (le_val bs))))"

definition buffer_readUInt32LE :: "lua_lib \<Rightarrow> lval list \<Rightarrow> 'a slab_scheme \<Rightarrow> 'a slab_scheme ret" where
  "buffer_readUInt32LE = buffer_read 4 4 (\<lambda>bs. int (le_val bs))"

definition buffer_readInt32BE :: "lua_lib \<Rightarrow> lval list \<Rightarrow> 'a slab_scheme \<Rightarrow> 'a slab_scheme ret" where
  "buffer_readInt32BE = buffer_read 4 4 (\<lambda>bs. sint (bswap32 (word_of_nat (le_val bs))))"

definition buffer_readInt32LE :: "lua_lib \<Rightarrow> lval list \<Rightarrow> 'a slab_scheme \<Rightarrow> 'a slab_scheme ret" where
  "buffer_readInt32LE = buffer_read 4 4 (\<lambda>bs. to_signed 32 (int (le_val bs)))"

text \<open>
  A write: the number is converted to an integer type with the values \<open>lo..hi\<close> (undefined outside)
  and \<open>conv\<close> gives the value stored, of which the \<open>w\<close> low bytes are written. The C standard leaves the
  conversion of a double outside \<open>lo..hi\<close> undefined. For \<open>uint32_t\<close> the standard's range is 0 to 2^32 - 1, but
  the 64-bit target has no such instruction: it converts to a signed 64-bit integer and keeps the low
  32 bits, which is what \<open>writeInt32BE\<close> needs for negative numbers (\<open>tests/test-buffer.lua\<close> writes one), so
  \<open>lo..hi\<close> of the three \<open>uint32_t\<close> methods are the values of that integer.
\<close>

definition buffer_write ::
    "nat \<Rightarrow> nat \<Rightarrow> int \<Rightarrow> int \<Rightarrow> (int \<Rightarrow> int) \<Rightarrow> lua_lib \<Rightarrow> lval list \<Rightarrow> 'a slab_scheme \<Rightarrow> 'a slab_scheme ret" where
  "buffer_write extbound w lo hi conv L args h =
     bind_res (check_buffer (arg args 1)) (\<lambda>ms.
     bind_res (buffer_getoffset L args 3 (ms_until ms) extbound) (\<lambda>index.
     bind_res (luaL_checknumber L (arg args 2)) (\<lambda>n.
     bind_res (c_to_int lo hi n) (\<lambda>k.
     bind_res (slice_store ms (index - 1) (le_bytes w (nat (conv k mod 256 ^ w))) h) (\<lambda>h'. Inr ([], h'))))))"

definition buffer_writeUInt8 :: "lua_lib \<Rightarrow> lval list \<Rightarrow> 'a slab_scheme \<Rightarrow> 'a slab_scheme ret" where
  "buffer_writeUInt8 = buffer_write 0 1 0 255 (\<lambda>k. k)"

definition buffer_writeInt8 :: "lua_lib \<Rightarrow> lval list \<Rightarrow> 'a slab_scheme \<Rightarrow> 'a slab_scheme ret" where
  "buffer_writeInt8 = buffer_write 0 1 (- 128) 127 (\<lambda>k. k)"

definition buffer_writeUInt16BE :: "lua_lib \<Rightarrow> lval list \<Rightarrow> 'a slab_scheme \<Rightarrow> 'a slab_scheme ret" where
  "buffer_writeUInt16BE = buffer_write 2 2 0 65535 (\<lambda>k. uint (bswap16 (word_of_int k)))"

definition buffer_writeUInt16LE :: "lua_lib \<Rightarrow> lval list \<Rightarrow> 'a slab_scheme \<Rightarrow> 'a slab_scheme ret" where
  "buffer_writeUInt16LE = buffer_write 2 2 0 65535 (\<lambda>k. k)"

definition buffer_writeUInt32BE :: "lua_lib \<Rightarrow> lval list \<Rightarrow> 'a slab_scheme \<Rightarrow> 'a slab_scheme ret" where
  "buffer_writeUInt32BE = buffer_write 4 4 (- (2 ^ 63)) (2 ^ 63 - 1) (\<lambda>k. uint (bswap32 (word_of_int k)))"

definition buffer_writeUInt32LE :: "lua_lib \<Rightarrow> lval list \<Rightarrow> 'a slab_scheme \<Rightarrow> 'a slab_scheme ret" where
  "buffer_writeUInt32LE = buffer_write 4 4 (- (2 ^ 63)) (2 ^ 63 - 1) (\<lambda>k. k)"

text \<open>The argument of \<open>__bswap32\<close> is unsigned here too.\<close>

definition buffer_writeInt32BE :: "lua_lib \<Rightarrow> lval list \<Rightarrow> 'a slab_scheme \<Rightarrow> 'a slab_scheme ret" where
  "buffer_writeInt32BE = buffer_write 4 4 (- (2 ^ 63)) (2 ^ 63 - 1) (\<lambda>k. uint (bswap32 (word_of_int k)))"

definition buffer_writeInt32LE :: "lua_lib \<Rightarrow> lval list \<Rightarrow> 'a slab_scheme \<Rightarrow> 'a slab_scheme ret" where
  "buffer_writeInt32LE = buffer_write 4 4 (- 2147483648) 2147483647 (\<lambda>k. k)"

section \<open>Hexadecimal text\<close>

text \<open>\<open>snprintf\<close> with \<open>%zx\<close> and \<open>%zX\<close>.\<close>

fun hex_digits :: "string \<Rightarrow> nat \<Rightarrow> byte list" where
  "hex_digits digits n =
     (if n < 16 then [of_char (digits ! n)] else hex_digits digits (n div 16) @ [of_char (digits ! (n mod 16))])"

declare hex_digits.simps [simp del]

definition buffer_write_hex :: "string \<Rightarrow> lua_lib \<Rightarrow> lval list \<Rightarrow> 'a slab_scheme \<Rightarrow> 'a slab_scheme ret" where
  "buffer_write_hex digits L args h =
     bind_res (check_buffer (arg args 1)) (\<lambda>ms.
     bind_res (luaL_checkint L (arg args 2)) (\<lambda>k.
       let tmp = hex_digits digits (to_size_t k); out_int = length tmp in
       bind_res (arg_size L args 3) (\<lambda>index.
         if index < 1 \<or> sz_sub (ms_until ms) out_int < index - 1 then arg_error 3 ''Index out of bounds''
         else bind_res (slice_store ms (index - 1) tmp h) (\<lambda>h'. Inr ([lua_int (int out_int)], h')))))"

definition buffer_write_hex_lower :: "lua_lib \<Rightarrow> lval list \<Rightarrow> 'a slab_scheme \<Rightarrow> 'a slab_scheme ret" where
  "buffer_write_hex_lower = buffer_write_hex ''0123456789abcdef''"

definition buffer_write_hex_upper :: "lua_lib \<Rightarrow> lval list \<Rightarrow> 'a slab_scheme \<Rightarrow> 'a slab_scheme ret" where
  "buffer_write_hex_upper = buffer_write_hex ''0123456789ABCDEF''"

section \<open>Metamethods\<close>

definition buffer__gc :: "lval list \<Rightarrow> 'a slab_scheme \<Rightarrow> 'a slab_scheme ret" where
  "buffer__gc args h =
     bind_res (check_buffer (arg args 1)) (\<lambda>ms.
     bind_res (lev_slab_decRef (Some (ms_mb ms)) h) (\<lambda>(_, h'). Inr ([], h')))"

definition buffer__eq :: "lval list \<Rightarrow> 'a slab_scheme \<Rightarrow> 'a slab_scheme ret" where
  "buffer__eq args h =
     bind_res (check_buffer (arg args 1)) (\<lambda>ms1.
     bind_res (check_buffer (arg args 2)) (\<lambda>ms2.
       if ms_until ms1 \<noteq> ms_until ms2 then Inr ([LBoolean False], h)
       else
         bind_res (slice_bytes h ms1) (\<lambda>s1.
         bind_res (slice_bytes h ms2) (\<lambda>s2. Inr ([LBoolean (s1 = s2)], h)))))"

definition buffer__len :: "lval list \<Rightarrow> 'a slab_scheme \<Rightarrow> 'a slab_scheme ret" where
  "buffer__len args h =
     bind_res (check_buffer (arg args 1)) (\<lambda>ms. Inr ([lua_int (int (ms_until ms))], h))"

text \<open>\<open>methods\<close> is the metatable.\<close>

definition buffer__index :: "lua_lib \<Rightarrow> (byte list \<Rightarrow> lval) \<Rightarrow> lval list \<Rightarrow> 'a slab_scheme \<Rightarrow> 'a slab_scheme ret" where
  "buffer__index L methods args h =
     (case arg args 2 of
        LNumber _ \<Rightarrow> buffer_readUInt8 L args h
      | k \<Rightarrow>
          (case lua_tolstring L k of
             None \<Rightarrow> Inl (Undefined ''null key string'')
           | Some key \<Rightarrow>
               if takeWhile (\<lambda>c. c \<noteq> 0) key = ascii ''length''
               then bind_res (check_buffer (arg args 1)) (\<lambda>ms. Inr ([lua_int (int (ms_until ms))], h))
               else Inr ([methods key], h)))"

text \<open>
  The operands of a concatenation: a slice with the bytes from its start to the end of its block,
  or a string with its null byte. The first operand, when it is a string, is read from stack index
  2; \<open>lua_tolstring\<close> of a buffer is the null pointer and the length 0.
\<close>

type_synonym operand = "MemSlice option \<times> byte list option \<times> nat"

definition slice_operand :: "'a slab_scheme \<Rightarrow> MemSlice \<Rightarrow> operand res" where
  "slice_operand h ms =
     bind_res (deref h (Some (ms_mb ms))) (\<lambda>b.
       Inr (Some ms, Some (mem_read (mb_bytes b) (ms_slice ms) (mb_size b - ms_slice ms)), ms_until ms))"

definition string_operand :: "lua_lib \<Rightarrow> lval \<Rightarrow> operand" where
  "string_operand L v =
     (case lua_tolstring L v of None \<Rightarrow> (None, None, 0) | Some s \<Rightarrow> (None, Some (s @ [0]), length s))"

text \<open>
  \<open>lua_tolstring\<close> turns a number on the stack into its string, so when the first operand is a string
  and the second a number the second one is a string from then on.
\<close>

definition concat_args :: "lua_lib \<Rightarrow> lval list \<Rightarrow> lval list" where
  "concat_args L args =
     (case (arg args 1, arg args 2) of
        (LString _, LNumber n) \<Rightarrow> args[1 := LString (num2str L n)]
      | _ \<Rightarrow> args)"

definition concat_operand :: "lua_lib \<Rightarrow> lval list \<Rightarrow> nat \<Rightarrow> 'a slab_scheme \<Rightarrow> operand res" where
  "concat_operand L args i h =
     (case arg args i of
        LBuffer ms \<Rightarrow> slice_operand h ms
      | LUserdata _ _ \<Rightarrow> Inl (Lua_error ''lev.buffer expected'')
      | LString _ \<Rightarrow> Inr (string_operand L (arg args 2))
      | _ \<Rightarrow> arg_error i ''Must be of type String or cBuffer'')"

text \<open>The copy of the second operand behind the first one.\<close>

definition concat_copy :: "MemSlice \<Rightarrow> nat \<Rightarrow> byte list option \<Rightarrow> nat \<Rightarrow> 'a slab_scheme \<Rightarrow> 'a slab_scheme res" where
  "concat_copy new_ms first_len second second_len h =
     (case second of
        None \<Rightarrow> if second_len = 0 then Inr h else Inl (Undefined ''null source'')
      | Some src \<Rightarrow>
          if second_len \<le> length src then slice_store new_ms first_len (take second_len src) h
          else Inl (Undefined ''read past the source''))"

definition buffer__concat :: "lua_lib \<Rightarrow> lval list \<Rightarrow> 'a lev_heap_scheme \<Rightarrow> 'a lev_heap_scheme ret" where
  "buffer__concat L args h =
     bind_res (concat_operand L args 1 h) (\<lambda>(first_ms, first, first_len).
     bind_res (concat_operand L (concat_args L args) 2 h) (\<lambda>(second_ms, second, second_len).
       let back_to_back =
         (case (first_ms, second_ms) of
            (Some m1, Some m2) \<Rightarrow>
              Inr (ms_mb m1 = ms_mb m2 \<and>
                 ((ms_slice m2 < ms_slice m1 \<and> ms_slice m2 + ms_until m2 = ms_slice m1) \<or>
                  (ms_slice m1 < ms_slice m2 \<and> ms_slice m1 + ms_until m1 = ms_slice m2)))
          | (None, None) \<Rightarrow> Inl (Undefined ''null MemSlice'')
          | _ \<Rightarrow> Inr False)
       in bind_res back_to_back (\<lambda>union.
         if union then
           bind_res (lev_pushbuffer_from_mb (Some (ms_mb (the first_ms)))
               (ms_until (the first_ms) + ms_until (the second_ms))
               (Some (min (ms_slice (the first_ms)) (ms_slice (the second_ms)))) h)
             (\<lambda>(ms, h'). Inr ([LBuffer ms], h'))
         else
           bind_res
             (case first_ms of
                None \<Rightarrow> Inr False
              | Some m1 \<Rightarrow>
                  bind_res (deref h (Some (ms_mb m1))) (\<lambda>b.
                    Inr (ms_until m1 \<le> mb_nbytes b \<and> mb_nbytes b - ms_until m1 = ms_slice m1 \<and>
                         second_len \<le> sz_sub (mb_size b) (mb_nbytes b))))
             (\<lambda>room.
               if room then
                 bind_res (lev_pushbuffer_from_mb (Some (ms_mb (the first_ms)))
                     (ms_until (the first_ms) + second_len) (Some (ms_slice (the first_ms))) h)
                   (\<lambda>(ms, h1).
                 bind_res (deref h1 (Some (ms_mb (the first_ms)))) (\<lambda>b.
                   let h2 = put_block (ms_mb (the first_ms)) (b\<lparr>mb_nbytes := mb_nbytes b + second_len\<rparr>) h1 in
                   bind_res (concat_copy (the first_ms) first_len second second_len h2)
                     (\<lambda>h3. Inr ([LBuffer ms], h3))))
               else
                 bind_res (lev_buffer_new (first_len + second_len) first first_len h) (\<lambda>(ms, h1).
                 bind_res (concat_copy ms first_len second second_len h1)
                   (\<lambda>h2. Inr ([LBuffer ms], h2)))))))"

text \<open>
  Assignment to an index. A string or buffer goes through \<open>lev_memslice_append_mem\<close>, which may grow
  the slice that is assigned to: the first component is the userdata afterwards. The bytes of a
  buffer are read after the growing.
\<close>

definition buffer__newindex :: "lua_lib \<Rightarrow> lval list \<Rightarrow> 'a slab_scheme \<Rightarrow> (MemSlice \<times> 'a slab_scheme) res" where
  "buffer__newindex L args h =
     (case arg args 2 of
        LNumber _ \<Rightarrow>
          bind_res (check_buffer (arg args 1)) (\<lambda>ms.
          bind_res (buffer_getoffset L args 2 (ms_until ms) 0) (\<lambda>index.
            case arg args 3 of
              LBuffer value_ms \<Rightarrow>
                bind_res (lev_memslice_ensure_empty_length ms (index - 1 + ms_until value_ms) h) (\<lambda>(ms', h1).
                bind_res (slice_bytes h1 value_ms) (\<lambda>s.
                bind_res (slice_store ms' (index - 1) s h1) (\<lambda>h2. Inr (ms', h2))))
            | LUserdata _ _ \<Rightarrow> Inl (Lua_error ''lev.buffer expected'')
            | LString s \<Rightarrow> lev_memslice_append_mem ms (index - 1) s h
            | LNumber _ \<Rightarrow>
                bind_res (arg_size L args 3) (\<lambda>v.
                  if 255 < v then arg_error 3 ''0 < Value < 255''
                  else bind_res (slice_store ms (index - 1) [word_of_nat v] h) (\<lambda>h'. Inr (ms, h')))
            | _ \<Rightarrow> arg_error 3 ''Must be of type String, Number or cBuffer''))
      | _ \<Rightarrow> arg_error 1 ''We only support setting indices by type Number'')"

text \<open>\<open>buffer_debug\<close> prints and changes nothing.\<close>

definition buffer_debug :: "lval list \<Rightarrow> 'a slab_scheme \<Rightarrow> 'a slab_scheme ret" where
  "buffer_debug args h =
     bind_res (check_buffer (arg args 1)) (\<lambda>ms. bind_res (deref h (Some (ms_mb ms))) (\<lambda>_. Inr ([], h)))"

end
