(* ===== verification/Lev_Buffer_Facts.thy ===== *)
theory Lev_Buffer_Facts
  imports Lev_Buffer "HOL-Library.Sublist"
begin

text \<open>
  What the methods of \<open>lev.buffer\<close> do: searching finds the first occurrence, reads and writes of
  numbers, the life of buffers on shared blocks, and where growing a slice goes wrong.
\<close>

section \<open>Searching\<close>

text \<open>The first position where \<open>s\<close> occurs in \<open>l\<close>.\<close>

definition first_occurrence :: "byte list \<Rightarrow> byte list \<Rightarrow> nat option" where
  "first_occurrence l s = (if s = [] then None else find (\<lambda>i. prefix s (drop i l)) [0..<length l])"

lemma memchr_shift: "memchr l c (k + i) = map_option ((+) k) (memchr l c i)"
  by (induction l arbitrary: i) (auto simp flip: add_Suc_right)

lemma memmem_loop_shift: "memmem_loop l s (k + i) = map_option ((+) k) (memmem_loop l s i)"
  by (induction l arbitrary: i) (auto simp flip: add_Suc_right)

lemma memmem_loop_memchr: "memmem_loop l [c] i = memchr l c i"
  by (induction l arbitrary: i) auto

lemma find_shift: "find P [Suc i..<Suc j] = map_option Suc (find (\<lambda>k. P (Suc k)) [i..<j])"
proof -
  have "find P (map Suc xs) = map_option Suc (find (\<lambda>k. P (Suc k)) xs)" for xs
    by (induction xs) auto
  from this [of "[i..<j]"] show ?thesis by (simp only: map_Suc_upt)
qed

lemma first_occurrence_Cons:
  "s \<noteq> [] \<Longrightarrow> first_occurrence (x # l) s =
     (if prefix s (x # l) then Some 0 else map_option Suc (first_occurrence l s))"
  by (simp add: first_occurrence_def upt_conv_Cons find_shift del: upt_Suc)

lemma prefix_length_iff: "prefix s l \<longleftrightarrow> length s \<le> length l \<and> take (length s) l = s"
  by (metis append_eq_conv_conj prefix_def prefix_length_le)

lemma memmem_loop_first: "s \<noteq> [] \<Longrightarrow> memmem_loop l s 0 = first_occurrence l s"
proof (induction l)
  case Nil
  then show ?case by (simp add: first_occurrence_def)
next
  case (Cons x l)
  have short: "first_occurrence (x # l) s = None" if "length (x # l) < length s"
    using that prefix_length_le by (fastforce simp: first_occurrence_def find_None_iff)
  have hd: "x = hd s" if "take (length s) (x # l) = s"
    using that Cons.prems by (cases s) auto
  have "(+) (Suc 0) = Suc" by (rule ext) simp
  then show ?case
    using Cons short hd memmem_loop_shift [of l s 1 0]
    by (auto simp: first_occurrence_Cons prefix_length_iff)
qed

lemma my_memmem_first: "my_memmem l s = first_occurrence l s"
proof (cases "s = []")
  case False
  have "first_occurrence l s = None" if "length l < length s"
    using that prefix_length_le by (fastforce simp: first_occurrence_def find_None_iff)
  moreover have "memchr l (hd s) 0 = memmem_loop l s 0" if "length s = 1"
    using that by (cases s) (simp_all add: memmem_loop_memchr)
  ultimately show ?thesis
    using False by (auto simp: my_memmem_def memmem_loop_first first_occurrence_def)
qed (simp add: my_memmem_def first_occurrence_def)

lemma first_occurrence_SomeD:
  assumes "first_occurrence l s = Some i"
  shows "l = take i l @ s @ drop (i + length s) l" "\<And>j. j < i \<Longrightarrow> \<not> prefix s (drop j l)"
proof -
  from assms have i: "prefix s (drop i l)" "\<And>j. j < i \<Longrightarrow> \<not> prefix s (drop j l)"
    by (auto simp: first_occurrence_def find_Some_iff split: if_splits) 
  from i(1) show "l = take i l @ s @ drop (i + length s) l"
    by (metis append_eq_conv_conj append_take_drop_id drop_drop add.commute prefix_def)
  show "\<And>j. j < i \<Longrightarrow> \<not> prefix s (drop j l)" by (rule i(2))
qed

lemma first_occurrence_None: "first_occurrence l s = None \<Longrightarrow> s = [] \<or> \<not> sublist s l"
proof (rule ccontr)
  assume none: "first_occurrence l s = None" and "\<not> (s = [] \<or> \<not> sublist s l)"
  then obtain ps ss where s: "s \<noteq> []" "l = ps @ s @ ss" by (auto simp: sublist_def)
  then have "length ps < length l" "prefix s (drop (length ps) l)" by simp_all
  with none s(1) show False by (auto simp: first_occurrence_def find_None_iff)
qed

section \<open>Integer arguments\<close>

lemma arg_simps [simp]: "arg (a # as) 1 = a" "arg (a # as) (Suc 0) = a" "arg (a # b # as) 2 = b"
    "arg (a # b # c # as) 3 = c" "arg (a # b # c # d # as) 4 = d"
  by (simp_all add: arg_def)

lemma tonumber_int [simp]: "lua_tonumber L (LNumber n) = Some n" "lua_tonumber L LNil = None"
  by (simp_all add: lua_tonumber_def)

lemma c_to_int_int: "\<bar>k\<bar> < 2 ^ 53 \<Longrightarrow> c_to_int lo hi (dbl_of_int k) =
    (if lo \<le> k \<and> k \<le> hi then Inr k else c_to_int lo hi (dbl_of_int k))"
  by (auto intro: c_to_int_dbl_int [OF dbl_int_dbl_of_int])

lemma tointeger_int: "\<bar>k\<bar> < 2 ^ 53 \<Longrightarrow> lua_tointeger L (lua_int k) = Inr k"
  by (simp add: lua_tointeger_def c_to_int_dbl_int [OF dbl_int_dbl_of_int])

lemma tointeger_nil [simp]: "lua_tointeger L LNil = Inr 0"
  by (simp add: lua_tointeger_def)

lemma to_size_t_nat [simp]: "0 \<le> k \<Longrightarrow> k < 2 ^ 64 \<Longrightarrow> to_size_t k = nat k"
  by (simp add: to_size_t_def)

text \<open>A negative argument becomes a length that no buffer has.\<close>

lemma to_size_t_neg: "k < 0 \<Longrightarrow> \<bar>k\<bar> < 2 ^ 53 \<Longrightarrow> 2 ^ 63 < to_size_t k"
proof -
  assume k: "k < 0" "\<bar>k\<bar> < 2 ^ 53"
  have "(k + 2 ^ 64) mod 2 ^ 64 = k + 2 ^ 64"
    by (rule mod_pos_pos_trivial) (use k in simp_all)
  then have "k mod 2 ^ 64 = k + 2 ^ 64" by (simp only: mod_add_self2)
  with k show ?thesis by (simp add: to_size_t_def)
qed

lemma arg_size_int: "arg args i = lua_int k \<Longrightarrow> \<bar>k\<bar> < 2 ^ 53 \<Longrightarrow> arg_size L args i = Inr (to_size_t k)"
  by (simp add: arg_size_def tointeger_int)

lemma buffer_offset_int:
  assumes "arg args i = lua_int k" "\<bar>k\<bar> < 2 ^ 53" "n < 2 ^ 53"
  shows "buffer_offset L args i n =
    (if 0 \<le> k \<and> max 1 (nat k) \<le> n then Inr (max 1 (nat k)) else Inl (Lua_error ''Offset out of bounds''))"
proof (cases "k < 0")
  case True
  with to_size_t_neg [of k] assms show ?thesis
    by (simp add: buffer_offset_def arg_size_int [OF assms(1)] arg_error_def)
next
  case False
  with assms show ?thesis
    by (auto simp: buffer_offset_def arg_size_int [OF assms(1)] arg_error_def Let_def)
qed

lemma buffer_length_int:
  assumes "arg args i = lua_int k" "\<bar>k\<bar> < 2 ^ 53" "n < 2 ^ 53"
  shows "buffer_length L args i n =
    (if 0 \<le> k \<and> nat k \<le> n then Inr (if k = 0 then n else nat k) else Inl (Lua_error ''length out of bounds''))"
proof (cases "k < 0")
  case True
  with to_size_t_neg [of k] assms show ?thesis
    by (simp add: buffer_length_def arg_size_int [OF assms(1)] arg_error_def)
next
  case False
  with assms show ?thesis
    by (auto simp: buffer_length_def arg_size_int [OF assms(1)] arg_error_def Let_def)
qed

text \<open>The index check when the slice is at least as long as the access.\<close>

lemma buffer_getoffset_int:
  assumes "arg args i = lua_int k" "\<bar>k\<bar> < 2 ^ 53" "n < 2 ^ 53" "w \<le> n"
  shows "buffer_getoffset L args i n w =
    (if 1 \<le> k \<and> nat k - 1 + w \<le> n then Inr (nat k) else Inl (Lua_error ''Index out of bounds''))"
proof (cases "k < 0")
  case True
  with to_size_t_neg [of k] assms show ?thesis
    by (auto simp: buffer_getoffset_def arg_size_int [OF assms(1)] arg_error_def)
next
  case False
  with assms show ?thesis
    by (auto simp: buffer_getoffset_def arg_size_int [OF assms(1)] arg_error_def)
qed

section \<open>Byte order\<close>

lemma le_val_Nil [simp]: "le_val [] = 0"
  by (simp add: le_val_def)

lemma le_val_Cons [simp]: "le_val (b # bs) = le_val bs * 256 + unat b"
  by (simp add: le_val_def)

lemma le_val_le_bytes [simp]: "x < 256 ^ n \<Longrightarrow> le_val (le_bytes n x) = x"
  by (simp add: le_val_def le_bytes_def)

lemma length_le_bytes [simp, bytes_simps]: "length (le_bytes n x) = n"
  by (simp add: le_bytes_def)

lemma le_bytes_le_val: "le_bytes (length bs) (le_val bs) = bs"
  using be_bytes_be_val [of "rev bs"] by (simp add: le_val_def le_bytes_def)

lemma le_val_bound: "le_val bs < 256 ^ length bs"
  using be_val_bound [of "rev bs"] by (simp add: le_val_def)

lemma bit_le_val: "bit (le_val bs) n \<longleftrightarrow> n div 8 < length bs \<and> bit (bs ! (n div 8)) (n mod 8)"
proof (induction bs arbitrary: n)
  case (Cons b bs)
  have b: "unat b < 256" using unsigned_less [of b, where ?'a = nat] by simp
  show ?case
  proof (cases "n < 8")
    case True
    have "take_bit 8 (le_val (b # bs)) = unat b" using b by (simp add: take_bit_eq_mod)
    then have "bit (le_val (b # bs)) n \<longleftrightarrow> bit (unat b) n"
      using True by (metis bit_take_bit_iff)
    with True show ?thesis by (simp add: bit_unsigned_iff)
  next
    case False
    then obtain k where k: "n = k + 8" by (metis add.commute le_Suc_ex not_less)
    have "drop_bit 8 (le_val (b # bs)) = le_val bs" using b by (simp add: drop_bit_eq_div)
    then have "bit (le_val (b # bs)) n \<longleftrightarrow> bit (le_val bs) k"
      by (metis k add.commute bit_drop_bit_eq comp_apply)
    moreover have "n div 8 = Suc (k div 8)" "n mod 8 = k mod 8" by (simp_all add: k)
    ultimately show ?thesis using Cons by simp
  qed
qed simp

lemma bit_of_nat_word: "bit (word_of_nat k :: 'a::len word) n \<longleftrightarrow> n < LENGTH('a) \<and> bit k n"
  by (metis bit_of_nat_iff_bit bit_word_of_int_iff of_int_of_nat_eq)

lemma bit_0xff00: "bit (0xff00 :: 32 word) n \<longleftrightarrow> 8 \<le> n \<and> n < 16"
proof -
  have "(0xff00 :: 32 word) = push_bit 8 (mask 8)" by (simp add: push_bit_eq_mult mask_eq_exp_minus_1)
  then show ?thesis
    by (simp only: bit_push_bit_iff bit_mask_iff possible_bit_word) auto
qed

lemma bit_bswap32_or:
  "n < 32 \<Longrightarrow> bit (bswap32 x) n \<longleftrightarrow>
     24 \<le> n \<and> bit x (n - 24) \<or> 16 \<le> n \<and> n < 24 \<and> bit x (n - 8) \<or>
     8 \<le> n \<and> n < 16 \<and> bit x (8 + n) \<or> bit x (24 + n)"
  unfolding bswap32_def bit_or_iff bit_and_iff bit_push_bit_iff bit_drop_bit_eq comp_apply bit_0xff00
    possible_bit_word
  by auto

lemma bit_bswap32: "n < 32 \<Longrightarrow> bit (bswap32 x) n \<longleftrightarrow> bit x (8 * (3 - n div 8) + n mod 8)"
proof -
  assume n: "n < 32"
  define q r where "q = n div 8" and "r = n mod 8"
  have nq: "n = 8 * q + r" "r < 8" "q < 4" using n by (simp_all add: q_def r_def)
  then consider "q = 0" | "q = 1" | "q = 2" | "q = 3" by linarith
  moreover have "\<not> bit x (32 + r)" "\<not> bit x (40 + r)" "\<not> bit x (48 + r)"
    using bit_imp_le_length [of x] by fastforce+
  ultimately have "bit (bswap32 x) n \<longleftrightarrow> bit x (8 * (3 - q) + r)"
    unfolding bit_bswap32_or [OF n]
    using nq by cases auto
  then show ?thesis by (simp add: q_def r_def)
qed

lemma bit_bswap16: "n < 16 \<Longrightarrow> bit (bswap16 x) n \<longleftrightarrow> bit x (8 * (1 - n div 8) + n mod 8)"
proof -
  assume n: "n < 16"
  define q r where "q = n div 8" and "r = n mod 8"
  have nq: "n = 8 * q + r" "r < 8" "q < 2" using n by (simp_all add: q_def r_def)
  then consider "q = 0" | "q = 1" by linarith
  moreover have "\<not> bit x (16 + r)" using bit_imp_le_length [of x] by fastforce
  ultimately have "bit (bswap16 x) n \<longleftrightarrow> bit x (8 * (1 - q) + r)"
    unfolding bswap16_def bit_or_iff bit_push_bit_iff bit_drop_bit_eq comp_apply possible_bit_word
    using nq n by cases auto
  then show ?thesis by (simp add: q_def r_def)
qed

text \<open>Swapping the bytes of a little-endian load gives the big-endian value, and back.\<close>

lemma bswap32_le_val: "length bs = 4 \<Longrightarrow> bswap32 (word_of_nat (le_val bs)) = word_of_nat (be_val bs)"
proof (rule bit_word_eqI)
  fix n assume bs: "length bs = 4" and n: "n < LENGTH(32)"
  have be: "be_val bs = le_val (rev bs)" by (simp add: le_val_def)
  have "8 * (3 - n div 8) + n mod 8 < 32" "n div 8 < 4" using n by (simp_all add: div_less_iff_less_mult)
  then show "bit (bswap32 (word_of_nat (le_val bs))) n = bit (word_of_nat (be_val bs) :: 32 word) n"
    using bs n by (simp add: bit_bswap32 bit_of_nat_word be bit_le_val rev_nth)
qed

lemma bswap16_le_val: "length bs = 2 \<Longrightarrow> bswap16 (word_of_nat (le_val bs)) = word_of_nat (be_val bs)"
proof (rule bit_word_eqI)
  fix n assume bs: "length bs = 2" and n: "n < LENGTH(16)"
  have be: "be_val bs = le_val (rev bs)" by (simp add: le_val_def)
  have "8 * (1 - n div 8) + n mod 8 < 16" "n div 8 < 2" using n by (simp_all add: div_less_iff_less_mult)
  then show "bit (bswap16 (word_of_nat (le_val bs))) n = bit (word_of_nat (be_val bs) :: 16 word) n"
    using bs n by (simp add: bit_bswap16 bit_of_nat_word be bit_le_val rev_nth)
qed

section \<open>Methods on a slice in use\<close>

abbreviation slice_part :: "'a slab_scheme \<Rightarrow> MemSlice \<Rightarrow> nat \<Rightarrow> nat \<Rightarrow> byte list" where
  "slice_part h ms k n \<equiv> map (slice_mem h ms) [k..<k + n]"

lemma memslice_size: "slab_ok h \<Longrightarrow> memslice_ok h ms \<Longrightarrow> ms_until ms \<le> 1048576"
proof -
  assume "slab_ok h" "memslice_ok h ms"
  then obtain b where "blocks h (ms_mb ms) = Some b" "ms_until ms \<le> mb_size b"
    by (fastforce simp: memslice_ok_def)
  with slab_ok_size [OF \<open>slab_ok h\<close>] show ?thesis by (cases "mb_allocator b") fastforce+
qed

lemma memslice_small: "slab_ok h \<Longrightarrow> memslice_ok h ms \<Longrightarrow> ms_until ms < 2 ^ 53"
  using memslice_size by fastforce

lemma slice_read:
  assumes "memslice_ok h ms" "k + n \<le> ms_until ms"
  shows "block_read h (ms_mb ms) (ms_slice ms + k) n = Inr (slice_part h ms k n)"
proof -
  obtain b where b: "blocks h (ms_mb ms) = Some b" "ms_slice ms + ms_until ms \<le> mb_size b"
    by (rule memslice_okE [OF assms(1)])
  have "mem_read (mb_bytes b) (ms_slice ms + k) n = slice_part h ms k n"
    by (rule nth_equalityI) (simp_all add: slice_mem_def b add.assoc)
  with b assms(2) show ?thesis by (simp add: block_read_def deref_def)
qed

lemma check_buffer_simps [simp]: "check_buffer (LBuffer ms) = Inr ms"
  by (simp add: check_buffer_def)

text \<open>A read and a write of \<open>w\<close> bytes on a slice of at least \<open>w\<close> bytes.\<close>

lemma buffer_read_eq:
  assumes "slab_ok h" "memslice_ok h ms" "\<bar>i\<bar> < 2 ^ 53" "w \<le> ms_until ms"
  shows "buffer_read w w conv L [LBuffer ms, lua_int i] h =
    (if 1 \<le> i \<and> nat i - 1 + w \<le> ms_until ms then Inr ([lua_int (conv (slice_part h ms (nat i - 1) w))], h)
     else Inl (Lua_error ''Index out of bounds''))"
proof -
  note off = buffer_getoffset_int [of "[LBuffer ms, lua_int i]" 2 i "ms_until ms" w L,
      OF _ assms(3) memslice_small [OF assms(1,2)] assms(4)]
  show ?thesis
    using slice_read [OF assms(2), of "nat i - 1" w]
    by (cases "1 \<le> i \<and> nat i - 1 + w \<le> ms_until ms") (simp_all add: buffer_read_def off)
qed

lemma buffer_read_in:
  assumes "slab_ok h" "memslice_ok h ms" "ext \<le> w" "1 \<le> i" "nat i - 1 + w \<le> ms_until ms"
  shows "buffer_read ext w conv L [LBuffer ms, lua_int i] h = Inr ([lua_int (conv (slice_part h ms (nat i - 1) w))], h)"
proof -
  have small: "\<bar>i\<bar> < 2 ^ 53" using memslice_small [OF assms(1,2)] assms(4,5) memslice_size [OF assms(1,2)] by simp
  note off = buffer_getoffset_int [of "[LBuffer ms, lua_int i]" 2 i "ms_until ms" ext L,
      OF _ small memslice_small [OF assms(1,2)]]
  show ?thesis
    using slice_read [OF assms(2,5)] assms(3-5) by (simp add: buffer_read_def off)
qed

lemma buffer_write_in:
  assumes "slab_ok h" "memslice_ok h ms" "ext \<le> w"
    and "\<bar>k\<bar> < 2 ^ 53" "lo \<le> k" "k \<le> hi" "1 \<le> i" "nat i - 1 + w \<le> ms_until ms"
  obtains h' where "buffer_write ext w lo hi conv L [LBuffer ms, lua_int k, lua_int i] h = Inr ([], h')"
    "slab_ok h'" "memslice_ok h' ms" "refs h' = refs h"
    "slice_mem h' ms = mem_write (slice_mem h ms) (nat i - 1) (le_bytes w (nat (conv k mod 256 ^ w)))"
proof -
  have small: "\<bar>i\<bar> < 2 ^ 53" using memslice_size [OF assms(1,2)] assms(7,8) by simp
  let ?bs = "le_bytes w (nat (conv k mod 256 ^ w))"
  note off = buffer_getoffset_int [of "[LBuffer ms, lua_int k, lua_int i]" 3 i "ms_until ms" ext L,
      OF _ small memslice_small [OF assms(1,2)]]
  obtain h' where "slice_store ms (nat i - 1) ?bs h = Inr h'" "slab_ok h'" "memslice_ok h' ms"
      "refs h' = refs h" "slice_mem h' ms = mem_write (slice_mem h ms) (nat i - 1) ?bs"
    by (rule slice_store_ok [OF assms(1,2), of "nat i - 1" ?bs]) (use assms(8) in simp_all)
  then show thesis
    using assms(3,5-8)
    by (intro that [of h'])
       (simp_all add: buffer_write_def off luaL_checknumber_def c_to_int_dbl_int [OF dbl_int_dbl_of_int [OF assms(4)]])
qed

lemma slice_part_written:
  "slice_mem h' ms = mem_write m k bs \<Longrightarrow> n = length bs \<Longrightarrow> slice_part h' ms k n = bs"
  by (rule nth_equalityI) (simp_all add: mem_write_def)

text \<open>The conversions of the two directions undo each other.\<close>

lemma signed_of_mod: "0 < w \<Longrightarrow> - (2 ^ (w - 1)) \<le> k \<Longrightarrow> k < 2 ^ (w - 1) \<Longrightarrow> to_signed w (k mod 2 ^ w) = k"
  using to_signed_id [of w k] by (simp add: to_signed_def mod_add_left_eq)

lemma uint_bswap_le:
  "length bs = 4 \<Longrightarrow> uint (bswap32 (word_of_nat (le_val bs))) = int (be_val bs)"
  "length bs = 2 \<Longrightarrow> uint (bswap16 (word_of_nat (le_val bs))) = int (be_val bs)"
  using be_val_bound [of bs] by (simp_all add: bswap32_le_val bswap16_le_val unsigned_of_nat take_bit_nat_eq_self)

lemma sint_bswap_le:
  "length bs = 4 \<Longrightarrow> sint (bswap32 (word_of_nat (le_val bs))) = to_signed 32 (int (be_val bs))"
  using uint_bswap_le(1) [of bs]
  by (simp add: sint_uint signed_take_bit_eq_take_bit_shift to_signed_def take_bit_eq_mod)

lemma bswap32_bswap32: "bswap32 (bswap32 x) = x"
proof (rule bit_word_eqI)
  fix n assume "n < LENGTH(32)"
  then have n: "n < 32" "n div 8 < 4" "8 * (3 - n div 8) + n mod 8 < 32" by (simp_all add: div_less_iff_less_mult)
  have "(8 * (3 - n div 8) + n mod 8) div 8 = 3 - n div 8" by simp
  then have "8 * (3 - (8 * (3 - n div 8) + n mod 8) div 8) + (8 * (3 - n div 8) + n mod 8) mod 8 = n"
    using n(2) by simp
  then show "bit (bswap32 (bswap32 x)) n = bit x n" by (simp only: bit_bswap32 [OF n(1)] bit_bswap32 [OF n(3)])
qed

lemma bswap16_bswap16: "bswap16 (bswap16 x) = x"
proof (rule bit_word_eqI)
  fix n assume "n < LENGTH(16)"
  then have n: "n < 16" "n div 8 < 2" "8 * (1 - n div 8) + n mod 8 < 16" by (simp_all add: div_less_iff_less_mult)
  have "(8 * (1 - n div 8) + n mod 8) div 8 = 1 - n div 8" by simp
  then have "8 * (1 - (8 * (1 - n div 8) + n mod 8) div 8) + (8 * (1 - n div 8) + n mod 8) mod 8 = n"
    using n(2) by simp
  then show "bit (bswap16 (bswap16 x)) n = bit x n" by (simp only: bit_bswap16 [OF n(1)] bit_bswap16 [OF n(3)])
qed

text \<open>What a write method stores and the read method of the same name loads.\<close>

lemma le_val_stored: "le_val (le_bytes w (nat (k mod 256 ^ w))) = nat (k mod 256 ^ w)"
proof (rule le_val_le_bytes)
  have "k mod 256 ^ w < 256 ^ w" by simp
  then show "nat (k mod 256 ^ w) < 256 ^ w" by (metis nat_less_iff of_nat_numeral of_nat_power pos_mod_sign zero_less_numeral zero_less_power)
qed

lemma stored_unsigned: "0 \<le> k \<Longrightarrow> k < 256 ^ w \<Longrightarrow> int (le_val (le_bytes w (nat (k mod 256 ^ w)))) = k"
  by (simp add: le_val_stored)

lemma stored_signed:
  "0 < w \<Longrightarrow> - (2 ^ (8 * w - 1)) \<le> k \<Longrightarrow> k < 2 ^ (8 * w - 1) \<Longrightarrow>
    to_signed (8 * w) (int (le_val (le_bytes w (nat (k mod 256 ^ w))))) = k"
  using signed_of_mod [of "8 * w" k] by (simp add: le_val_stored power_mult)

lemma stored_bswap32: "
    bswap32 (word_of_nat (le_val (le_bytes 4 (nat (uint (bswap32 (word_of_int k)) mod 256 ^ 4))))) = word_of_int k"
  using uint_lt2p [of "bswap32 (word_of_int k)"] by (simp only: le_val_stored) (simp add: bswap32_bswap32)

lemma stored_bswap16: "0 \<le> k \<Longrightarrow> k < 2 ^ 16 \<Longrightarrow>
    bswap16 (word_of_nat (le_val (le_bytes 2 (nat (uint (bswap16 (word_of_int k)) mod 256 ^ 2))))) = word_of_int k"
  using uint_lt2p [of "bswap16 (word_of_int k)"] by (simp only: le_val_stored) (simp add: bswap16_bswap16)

lemma buffer_tostring_eq:
  assumes "slab_ok h" "memslice_ok h ms" "\<bar>i\<bar> < 2 ^ 53" "\<bar>j\<bar> < 2 ^ 53"
  shows "buffer_tostring L [LBuffer ms, lua_int i, lua_int j] h =
    (let off = max 1 (nat i); rest = ms_until ms - (off - 1); len = (if j = 0 then rest else nat j) in
     if i < 0 \<or> ms_until ms < off then Inl (Lua_error ''Offset out of bounds'')
     else if j < 0 \<or> rest < len then Inl (Lua_error ''length out of bounds'')
     else Inr ([LString (slice_part h ms (off - 1) len)], h))"
proof -
  note small = memslice_small [OF assms(1,2)]
  define off where "off = max 1 (nat i)"
  define rest where "rest = ms_until ms - (off - 1)"
  have lt: "rest < 2 ^ 53" unfolding rest_def by (rule le_less_trans [OF diff_le_self small])
  have o: "buffer_offset L [LBuffer ms, lua_int i, lua_int j] 2 (ms_until ms) =
      (if i < 0 \<or> ms_until ms < off then Inl (Lua_error ''Offset out of bounds'') else Inr off)"
    by (subst buffer_offset_int [OF _ assms(3) small]) (auto simp: off_def)
  have l: "buffer_length L [LBuffer ms, lua_int i, lua_int j] 3 rest =
      (if j < 0 \<or> rest < nat j then Inl (Lua_error ''length out of bounds'')
       else Inr (if j = 0 then rest else nat j))"
    by (subst buffer_length_int [OF _ assms(4) lt]) auto
  have fits: "off - 1 + len \<le> ms_until ms" if "off \<le> ms_until ms" "len \<le> rest" for len
    using that by (simp add: rest_def)
  show ?thesis
  proof (cases "i < 0 \<or> ms_until ms < off")
    case True
    then show ?thesis
      unfolding buffer_tostring_def arg_simps check_buffer_simps bind_res_simps o Let_def off_def [symmetric]
      by simp
  next
    case False
    note unf = buffer_tostring_def arg_simps check_buffer_simps bind_res_simps o Let_def off_def [symmetric]
      if_not_P [OF False] rest_def [symmetric] l
    show ?thesis
    proof (cases "j < 0 \<or> rest < nat j")
      case True
      then show ?thesis unfolding unf by auto
    next
      case len: False
      then have "(if j = 0 then rest else nat j) \<le> rest" by simp
      with slice_read [OF assms(2) fits [OF _ this]] False len show ?thesis
        unfolding unf if_not_P [OF len] by simp
    qed
  qed
qed

lemma incRef_held:
  assumes "slab_ok h" "memslice_ok h ms"
  obtains b where "blocks h (ms_mb ms) = Some b" "refs h (ms_mb ms) = mb_refcount b"
    "ms_slice ms + ms_until ms \<le> mb_size b"
    "lev_slab_incRef (Some (ms_mb ms)) h =
       Inr (mb_refcount b + 1, put_block (ms_mb ms) (b\<lparr>mb_refcount := mb_refcount b + 1\<rparr>) h)"
proof -
  obtain b where b: "blocks h (ms_mb ms) = Some b" "0 < mb_refcount b" "refs h (ms_mb ms) = mb_refcount b"
      "ms_slice ms + ms_until ms \<le> mb_size b"
    by (rule memslice_okE [OF assms(2)])
  have "\<not> pooled h (ms_mb ms)" using referenced_not_pooled [OF assms(1)] b by simp
  from incRef_block [OF assms(1) b(1) this] that [OF b(1,3,4)] show thesis by metis
qed

text \<open>A slice of a slice: the same bytes of the same block, with one more reference.\<close>

lemma buffer_slice_eq:
  assumes "slab_ok h" "memslice_ok h ms" "\<bar>i\<bar> < 2 ^ 53" "\<bar>j\<bar> < 2 ^ 53"
  shows "buffer_slice L [LBuffer ms, lua_int i, lua_int j] h =
    (let off = max 1 (nat i); rest = ms_until ms - (off - 1); len = (if j = 0 then rest else nat j) in
     if i < 0 \<or> ms_until ms < off then Inl (Lua_error ''Offset out of bounds'')
     else if j < 0 \<or> rest < len then Inl (Lua_error ''length out of bounds'')
     else Inr ([LBuffer \<lparr>ms_mb = ms_mb ms, ms_slice = ms_slice ms + (off - 1), ms_until = len\<rparr>],
       put_block (ms_mb ms) (the (blocks h (ms_mb ms))\<lparr>mb_refcount := refs h (ms_mb ms) + 1\<rparr>) h))"
proof -
  note small = memslice_small [OF assms(1,2)]
  define off where "off = max 1 (nat i)"
  define rest where "rest = ms_until ms - (off - 1)"
  have lt: "rest < 2 ^ 53" unfolding rest_def by (rule le_less_trans [OF diff_le_self small])
  have o: "buffer_offset L [LBuffer ms, lua_int i, lua_int j] 2 (ms_until ms) =
      (if i < 0 \<or> ms_until ms < off then Inl (Lua_error ''Offset out of bounds'') else Inr off)"
    by (subst buffer_offset_int [OF _ assms(3) small]) (auto simp: off_def)
  have l: "buffer_length L [LBuffer ms, lua_int i, lua_int j] 3 rest =
      (if j < 0 \<or> rest < nat j then Inl (Lua_error ''length out of bounds'')
       else Inr (if j = 0 then rest else nat j))"
    by (subst buffer_length_int [OF _ assms(4) lt]) auto
  obtain b where b: "blocks h (ms_mb ms) = Some b" "refs h (ms_mb ms) = mb_refcount b"
    "lev_slab_incRef (Some (ms_mb ms)) h =
       Inr (mb_refcount b + 1, put_block (ms_mb ms) (b\<lparr>mb_refcount := mb_refcount b + 1\<rparr>) h)"
    by (rule incRef_held [OF assms(1,2)])
  show ?thesis
  proof (cases "i < 0 \<or> ms_until ms < off")
    case True
    then show ?thesis
      unfolding buffer_slice_def arg_simps check_buffer_simps bind_res_simps o Let_def off_def [symmetric]
      by simp
  next
    case False
    then show ?thesis
      unfolding buffer_slice_def arg_simps check_buffer_simps bind_res_simps o Let_def off_def [symmetric]
        if_not_P [OF False] rest_def [symmetric] l b
      by auto
  qed
qed

text \<open>Filling is one store inside the slice, with the Lua-style end position as the last argument.\<close>

lemma buffer_fill_store:
  assumes "slab_ok h" "memslice_ok h ms" "\<bar>i\<bar> < 2 ^ 53" "\<bar>j\<bar> < 2 ^ 53"
    and "buffer_fill L [LBuffer ms, v, lua_int i, lua_int j] h = Inr (vs, h')"
  shows "\<exists>value. fill_value L v = Inr value \<and> vs = [] \<and>
    (let off = max 1 (nat i); last = (if j = 0 then ms_until ms else nat j) in
     0 \<le> i \<and> 0 \<le> j \<and> off \<le> last \<and> last \<le> ms_until ms \<and>
     slice_store ms (off - 1) (replicate (last - (off - 1)) value) h = Inr h')"
proof -
  note small = memslice_small [OF assms(1,2)]
  define off where "off = max 1 (nat i)"
  have o: "buffer_offset L [LBuffer ms, v, lua_int i, lua_int j] 3 (ms_until ms) =
      (if i < 0 \<or> ms_until ms < off then Inl (Lua_error ''Offset out of bounds'') else Inr off)"
    by (subst buffer_offset_int [OF _ assms(3) small]) (auto simp: off_def)
  have a: "arg_size L [LBuffer ms, v, lua_int i, lua_int j] 4 = Inr (to_size_t j)"
    by (rule arg_size_int [OF _ assms(4)]) simp
  have i: "0 \<le> i" "off \<le> ms_until ms"
    using assms(5) by (auto simp: buffer_fill_def o split: if_splits)
  have neg: "0 \<le> j \<and> to_size_t j = nat j" if "to_size_t j \<le> ms_until ms"
  proof -
    have "0 \<le> j" using to_size_t_neg [of j] assms(4) that small by (cases "j < 0") auto
    with assms(4) show ?thesis by simp
  qed
  show ?thesis
    using assms(5) i neg unfolding Let_def off_def [symmetric]
    by (cases "to_size_t j = 0"; cases "fill_value L v")
       (auto simp: buffer_fill_def o a Let_def arg_error_def bind_res_Inr_iff split: if_splits)
qed

section \<open>The integer methods in pairs\<close>

text \<open>
  Each write method with the read method of the same name, its width in bytes and the numbers it
  stores without loss: all the numbers of the type it is named after.
\<close>

definition integer_methods ::
    "((lua_lib \<Rightarrow> lval list \<Rightarrow> 'a slab_scheme \<Rightarrow> 'a slab_scheme ret) \<times>
      (lua_lib \<Rightarrow> lval list \<Rightarrow> 'a slab_scheme \<Rightarrow> 'a slab_scheme ret) \<times> nat \<times> int \<times> int) list" where
  "integer_methods =
    [(buffer_writeUInt8, buffer_readUInt8, 1, 0, 255), (buffer_writeInt8, buffer_readInt8, 1, - 128, 127),
     (buffer_writeUInt16BE, buffer_readUInt16BE, 2, 0, 65535), (buffer_writeUInt16LE, buffer_readUInt16LE, 2, 0, 65535),
     (buffer_writeUInt32BE, buffer_readUInt32BE, 4, 0, 4294967295), (buffer_writeUInt32LE, buffer_readUInt32LE, 4, 0, 4294967295),
     (buffer_writeInt32BE, buffer_readInt32BE, 4, - 2147483648, 2147483647),
     (buffer_writeInt32LE, buffer_readInt32LE, 4, - 2147483648, 2147483647)]"

lemma write_read:
  assumes "slab_ok h" "memslice_ok h ms" "ext \<le> w" "\<bar>k\<bar> < 2 ^ 53" "lo \<le> k" "k \<le> hi" "1 \<le> i"
    and "nat i - 1 + w \<le> ms_until ms" "rconv (le_bytes w (nat (conv k mod 256 ^ w))) = k"
  shows "\<exists>h'. buffer_write ext w lo hi conv L [LBuffer ms, lua_int k, lua_int i] h = Inr ([], h') \<and>
    buffer_read ext w rconv L [LBuffer ms, lua_int i] h' = Inr ([lua_int k], h')"
proof -
  obtain h' where h': "buffer_write ext w lo hi conv L [LBuffer ms, lua_int k, lua_int i] h = Inr ([], h')"
    "slab_ok h'" "memslice_ok h' ms"
    "slice_mem h' ms = mem_write (slice_mem h ms) (nat i - 1) (le_bytes w (nat (conv k mod 256 ^ w)))"
    by (rule buffer_write_in [OF assms(1-8)])
  have "slice_part h' ms (nat i - 1) w = le_bytes w (nat (conv k mod 256 ^ w))"
    by (rule slice_part_written [OF h'(4)]) simp
  with h' buffer_read_in [OF h'(2,3) assms(3,7,8), of rconv L] assms(9) show ?thesis by simp
qed

lemma integer_methods_write_read:
  fixes h :: "'a slab_scheme"
  assumes "slab_ok h" "memslice_ok h ms" "(wr, rd, w, lo, hi) \<in> set (integer_methods :: _ list)"
    and "lo \<le> k" "k \<le> hi" "1 \<le> i" "nat i - 1 + w \<le> ms_until ms"
  shows "\<exists>h'. wr L [LBuffer ms, lua_int k, lua_int i] h = Inr ([], h') \<and>
    rd L [LBuffer ms, lua_int i] h' = Inr ([lua_int k], h')"
proof -
  from assms(3) consider
      "wr = buffer_writeUInt8 \<and> rd = buffer_readUInt8 \<and> w = 1 \<and> lo = 0 \<and> hi = 255"
    | "wr = buffer_writeInt8 \<and> rd = buffer_readInt8 \<and> w = 1 \<and> lo = - 128 \<and> hi = 127"
    | "wr = buffer_writeUInt16BE \<and> rd = buffer_readUInt16BE \<and> w = 2 \<and> lo = 0 \<and> hi = 65535"
    | "wr = buffer_writeUInt16LE \<and> rd = buffer_readUInt16LE \<and> w = 2 \<and> lo = 0 \<and> hi = 65535"
    | "wr = buffer_writeUInt32BE \<and> rd = buffer_readUInt32BE \<and> w = 4 \<and> lo = 0 \<and> hi = 4294967295"
    | "wr = buffer_writeUInt32LE \<and> rd = buffer_readUInt32LE \<and> w = 4 \<and> lo = 0 \<and> hi = 4294967295"
    | "wr = buffer_writeInt32BE \<and> rd = buffer_readInt32BE \<and> w = 4 \<and> lo = - 2147483648 \<and> hi = 2147483647"
    | "wr = buffer_writeInt32LE \<and> rd = buffer_readInt32LE \<and> w = 4 \<and> lo = - 2147483648 \<and> hi = 2147483647"
    unfolding integer_methods_def list.set insert_iff empty_iff prod.inject by argo
  then show ?thesis
  proof cases
    case 1
    show ?thesis unfolding 1 [THEN conjunct1] 1 [THEN conjunct2, THEN conjunct1] buffer_writeUInt8_def buffer_readUInt8_def
      by (rule write_read [OF assms(1,2)]) (use 1 assms(4-7) stored_unsigned [of k 1] in simp_all)
  next
    case 2
    show ?thesis unfolding 2 [THEN conjunct1] 2 [THEN conjunct2, THEN conjunct1] buffer_writeInt8_def buffer_readInt8_def
      by (rule write_read [OF assms(1,2)]) (use 2 assms(4-7) stored_signed [of 1 k] in simp_all)
  next
    case 3
    show ?thesis unfolding 3 [THEN conjunct1] 3 [THEN conjunct2, THEN conjunct1] buffer_writeUInt16BE_def buffer_readUInt16BE_def
      by (rule write_read [OF assms(1,2)]) (use 3 assms(4-7) stored_bswap16 [of k] in \<open>simp_all add: unsigned_of_int take_bit_int_eq_self\<close>)
  next
    case 4
    show ?thesis unfolding 4 [THEN conjunct1] 4 [THEN conjunct2, THEN conjunct1] buffer_writeUInt16LE_def buffer_readUInt16LE_def
      by (rule write_read [OF assms(1,2)]) (use 4 assms(4-7) stored_unsigned [of k 2] in simp_all)
  next
    case 5
    have "uint (bswap32 (word_of_nat (le_val (le_bytes 4 (nat (uint (bswap32 (word_of_int k)) mod 256 ^ 4)))))) = k"
      using 5 assms(4,5) unfolding stored_bswap32 by (simp add: unsigned_of_int take_bit_int_eq_self)
    with 5 assms(4-7) show ?thesis
      unfolding 5 [THEN conjunct1] 5 [THEN conjunct2, THEN conjunct1] buffer_writeUInt32BE_def buffer_readUInt32BE_def
      by (intro write_read [OF assms(1,2)]) simp_all
  next
    case 6
    with assms(4-7) stored_unsigned [of k 4] show ?thesis
      unfolding 6 [THEN conjunct1] 6 [THEN conjunct2, THEN conjunct1] buffer_writeUInt32LE_def buffer_readUInt32LE_def
      by (intro write_read [OF assms(1,2)]) simp_all
  next
    case 7
    have "sint (bswap32 (word_of_nat (le_val (le_bytes 4 (nat (uint (bswap32 (word_of_int k)) mod 256 ^ 4)))))) = k"
      using 7 assms(4,5) unfolding stored_bswap32 by (simp add: signed_of_int signed_take_bit_int_eq_self)
    with 7 assms(4-7) show ?thesis
      unfolding 7 [THEN conjunct1] 7 [THEN conjunct2, THEN conjunct1] buffer_writeInt32BE_def buffer_readInt32BE_def
      by (intro write_read [OF assms(1,2)]) simp_all
  next
    case 8
    show ?thesis unfolding 8 [THEN conjunct1] 8 [THEN conjunct2, THEN conjunct1] buffer_writeInt32LE_def buffer_readInt32LE_def
      by (rule write_read [OF assms(1,2)]) (use 8 assms(4-7) stored_signed [of 4 k] in simp_all)
  qed
qed

end
