(* ===== verification/Buffer_Life.thy ===== *)
theory Buffer_Life
  imports Lev_Buffer_Facts
begin

text \<open>
  The life of buffers: small buffers share the current block of \<open>lev_buffer_new\<close>, slices share the
  block of their parent, and the collector drops one reference per buffer. The invariant says that
  the reference count of every block is exactly the number of live buffers on it (plus the one the
  allocator of buffers keeps on its current block), and that every live buffer lies inside its block.
\<close>

section \<open>Cutting a buffer off the shared block\<close>

definition static_refs :: "'a lev_heap_scheme \<Rightarrow> addr \<Rightarrow> int" where
  "static_refs h a = (if buf_static_mb h = Some a then 1 else 0)"

definition static_ok :: "'a lev_heap_scheme \<Rightarrow> bool" where
  "static_ok h \<longleftrightarrow> (\<forall>a. buf_static_mb h = Some a \<longrightarrow>
     (\<exists>b. blocks h a = Some b \<and> 1 \<le> mb_refcount b \<and> 1 \<le> mb_nbytes b \<and> mb_nbytes b \<le> mb_size b))"

lemma static_blind [simp]:
  "slab_ok (h\<lparr>buf_static_mb := p\<rparr>) = slab_ok h" "refs (h\<lparr>buf_static_mb := p\<rparr>) = refs h"
  "pooled (h\<lparr>buf_static_mb := p\<rparr>) = pooled h"
  for h :: "'a lev_heap_scheme"
  by (simp_all add: slab_ok_def refs_def pooled_def fun_eq_iff)

lemma put_block_static [simp]:
  "buf_static_mb (put_block a b h) = buf_static_mb h"
  "put_block a b (h\<lparr>buf_static_mb := p\<rparr>) = (put_block a b h)\<lparr>buf_static_mb := p\<rparr>"
  "put_block a b (put_block a b' h) = put_block a b h"
  for h :: "'a lev_heap_scheme"
  by (simp_all add: put_block_def)

lemma refs_put_block [simp]: "refs (put_block a b h) = (refs h)(a := mb_refcount b)"
  by (simp add: refs_def put_block_def fun_eq_iff)

lemma blocks_put_block [simp]: "blocks (put_block a b h) = (blocks h)(a \<mapsto> b)"
  by (simp add: put_block_def)

text \<open>
  The block the bytes come from: it has room, it is either new or the current one, and the blocks
  others hold are as before.
\<close>

definition block_ready :: "nat \<Rightarrow> 'a lev_heap_scheme \<Rightarrow> 'a lev_heap_scheme \<Rightarrow> addr \<Rightarrow> MemBlock \<Rightarrow> bool" where
  "block_ready sz h h1 a b \<longleftrightarrow>
     slab_ok h1 \<and> buf_static_mb h1 = Some a \<and> blocks h1 a = Some b \<and> \<not> pooled h1 a \<and>
     mb_nbytes b + sz \<le> mb_size b \<and>
     (mb_refcount b = 0 \<and> mb_nbytes b = 0 \<and> refs h a = static_refs h a \<or>
      1 \<le> mb_refcount b \<and> 1 \<le> mb_nbytes b \<and> h1 = h) \<and>
     (\<forall>x. refs h1 x = refs h x - static_refs h x + (if x = a \<and> 0 < mb_refcount b then 1 else 0)) \<and>
     (\<forall>x bx. blocks h x = Some bx \<and> static_refs h x < refs h x \<longrightarrow>
        (\<exists>r. blocks h1 x = Some (bx\<lparr>mb_refcount := r\<rparr>)))"

lemma fresh_block_ready:
  assumes "slab_ok h0" "sz \<le> 1048576" "\<And>x. refs h0 x = refs h x - static_refs h x"
    and "\<And>x bx. blocks h x = Some bx \<Longrightarrow> static_refs h x < refs h x \<Longrightarrow>
      \<exists>r. blocks h0 x = Some (bx\<lparr>mb_refcount := r\<rparr>)"
  shows "\<exists>a h2. lev_slab_getBlock sz h0 = (Some a, h2) \<and>
    (\<exists>b. block_ready sz h (h2\<lparr>buf_static_mb := Some a\<rparr>) a b)"
proof -
  obtain a h2 where g: "lev_slab_getBlock sz h0 = (Some a, h2)"
    using getBlock_None_iff [of sz h0] assms(2) by (cases "lev_slab_getBlock sz h0") auto
  note gb = getBlock_Some [OF assms(1) g]
  obtain c old where b: "sz \<le> class_size c" "blocks h2 a = Some \<lparr>mb_allocator = c, mb_refcount = 0,
      mb_size = class_size c, mb_nbytes = 0, mb_bytes = old\<rparr>" using gb(5) by blast
  have "refs h2 x = refs h x - static_refs h x" for x
  proof (cases "x = a")
    case True
    with gb(2) assms(3) b(2) show ?thesis by (simp add: refs_def)
  next
    case False
    with gb(4) [of x] assms(3) show ?thesis by (simp add: refs_def)
  qed
  moreover have "\<exists>r. blocks h2 x = Some (bx\<lparr>mb_refcount := r\<rparr>)"
    if "blocks h x = Some bx" "static_refs h x < refs h x" for x bx
  proof -
    have "x \<noteq> a" using gb(2) assms(3) [of x] that(2) by auto
    with gb(4) assms(4) [OF that] show ?thesis by simp
  qed
  moreover have "refs h a = static_refs h a" using gb(2) assms(3) [of a] by simp
  ultimately show ?thesis
    using g gb(1,3) b
    by (intro exI [of _ a] exI [of _ h2] conjI
         exI [of _ "\<lparr>mb_allocator = c, mb_refcount = 0, mb_size = class_size c, mb_nbytes = 0, mb_bytes = old\<rparr>"])
       (auto simp: block_ready_def)
qed

lemma same_record: "\<exists>r. bx = bx\<lparr>mb_refcount := r\<rparr>"
  by (intro exI [of _ "mb_refcount bx"]) simp

lemma same_block: "blocks h x = Some bx \<Longrightarrow> \<exists>r. blocks h x = Some (bx\<lparr>mb_refcount := r\<rparr>)"
  by (intro exI [of _ "mb_refcount bx"]) simp

lemma lev_buffer_block_ready:
  fixes h :: "'a lev_heap_scheme"
  assumes "slab_ok h" "static_ok h" "sz \<le> 1048576"
  obtains h1 a b where "lev_buffer_block sz h = Inr h1" "block_ready sz h h1 a b"
proof (cases "buf_static_mb h")
  case None
  then have "static_refs h x = 0" for x by (simp add: static_refs_def)
  then obtain a h2 b where "lev_slab_getBlock sz h = (Some a, h2)" "block_ready sz h (h2\<lparr>buf_static_mb := Some a\<rparr>) a b"
    using fresh_block_ready [OF assms(1,3), of h] same_block [of h] by (simp add: same_record, blast)
  with None show thesis by (intro that) (simp_all add: lev_buffer_block_def)
next
  case (Some s)
  then obtain bs where bs: "blocks h s = Some bs" "1 \<le> mb_refcount bs" "1 \<le> mb_nbytes bs" "mb_nbytes bs \<le> mb_size bs"
    using assms(2) by (auto simp: static_ok_def)
  have pos: "0 < refs h s" using bs by (simp add: refs_def)
  show thesis
  proof (cases "mb_size bs - mb_nbytes bs < sz")
    case True
    obtain r h0 where d: "lev_slab_decRefCount (Some s) 1 h = Inr (r, h0)" "slab_ok h0" "refs h0 s = refs h s - 1"
        "\<And>x. x \<noteq> s \<Longrightarrow> blocks h0 x = blocks h x"
        "1 < refs h s \<Longrightarrow> \<exists>b. blocks h s = Some b \<and>
           blocks h0 s = Some (b\<lparr>mb_refcount := mb_refcount b - 1\<rparr>) \<and> \<not> pooled h0 s"
      by (rule decRef_ok [OF assms(1) pos, where k = 1]) blast
    have "refs h0 x = refs h x - static_refs h x" for x
      using d(3) d(4) [of x] Some by (cases "x = s") (simp_all add: static_refs_def refs_def)
    moreover have "\<exists>r. blocks h0 x = Some (bx\<lparr>mb_refcount := r\<rparr>)"
      if x: "blocks h x = Some bx" "static_refs h x < refs h x" for x bx
    proof (cases "x = s")
      case True
      with x Some d(5) show ?thesis by (auto simp: static_refs_def)
    next
      case False
      with d(4) x(1) show ?thesis by (intro same_block) simp
    qed
    ultimately obtain a h2 b where "lev_slab_getBlock sz h0 = (Some a, h2)"
        "block_ready sz h (h2\<lparr>buf_static_mb := Some a\<rparr>) a b"
      using fresh_block_ready [OF d(2) assms(3), of h] by blast
    with Some True d(1) bs show thesis
      by (intro that) (simp_all add: lev_buffer_block_def deref_def)
  next
    case False
    with Some bs have "lev_buffer_block sz h = Inr h" by (simp add: lev_buffer_block_def deref_def)
    moreover have "block_ready sz h h s bs"
      using assms(1) Some bs False referenced_not_pooled [OF assms(1) pos]
      by (auto simp: block_ready_def static_refs_def intro: same_block same_record)
    ultimately show thesis by (rule that)
  qed
qed

text \<open>
  The source of the bytes: nothing, which stands for null bytes, or at least as many bytes as are
  copied.
\<close>

definition new_bytes :: "nat \<Rightarrow> byte list option \<Rightarrow> nat \<Rightarrow> byte list" where
  "new_bytes sz temp temp_size =
     (case temp of None \<Rightarrow> replicate sz 0
      | Some src \<Rightarrow> take (if temp_size = 0 then sz else min temp_size sz) src)"

definition source_ok :: "nat \<Rightarrow> byte list option \<Rightarrow> nat \<Rightarrow> bool" where
  "source_ok sz temp temp_size \<longleftrightarrow>
     (case temp of None \<Rightarrow> True
      | Some src \<Rightarrow> (if temp_size = 0 then sz else min temp_size sz) \<le> length src)"

lemma length_new_bytes: "length (new_bytes sz temp ts) \<le> sz"
  by (auto simp: new_bytes_def min.coboundedI2 split: option.split)

lemma lev_buffer_new_eq:
  fixes h :: "'a lev_heap_scheme"
  assumes "lev_buffer_block sz h = Inr h1" "block_ready sz h h1 a b" "1 \<le> sz" "source_ok sz temp ts"
  shows "lev_buffer_new sz temp ts h = Inr (\<lparr>ms_mb = a, ms_slice = mb_nbytes b, ms_until = sz\<rparr>,
    put_block a (b\<lparr>mb_refcount := (if sz = mb_size b then 1 else max 1 (mb_refcount b) + 1),
                   mb_bytes := mem_write (mb_bytes b) (mb_nbytes b) (new_bytes sz temp ts),
                   mb_nbytes := mb_nbytes b + sz\<rparr>) h1
      \<lparr>buf_static_mb := (if sz = mb_size b then None else Some a)\<rparr>)"
proof -
  define n where "n = (if ts = 0 then sz else min ts sz)"
  have n: "(if (if ts = 0 then sz else ts) < sz then (if ts = 0 then sz else ts) else sz) = n" "n \<le> sz"
    by (auto simp: n_def)
  note ready = assms(2) [unfolded block_ready_def]
  have a: "buf_static_mb h1 = Some a" "blocks h1 a = Some b" "mb_nbytes b + sz \<le> mb_size b"
    using ready by auto
  have r: "mb_refcount b = 0" if "sz = mb_size b" using ready that by auto
  have pos: "max 1 (mb_refcount b) = (if mb_refcount b = 0 then 1 else mb_refcount b)" using ready by auto
  have store: "(case temp of
       None \<Rightarrow> block_write a k (replicate sz 0) g
     | Some src \<Rightarrow> (if n \<le> length src then block_write a k (take n src) g
             else Inl (Undefined ''read past the source''))) =
     block_write a k (new_bytes sz temp ts) g" for k and g :: "'a lev_heap_scheme"
    using assms(4) by (auto simp: new_bytes_def source_ok_def n_def split: option.split)
  note fits = le_trans [OF add_left_mono [OF length_new_bytes [of sz temp ts]] a(3)]
  show ?thesis
  proof (cases "sz = mb_size b")
    case True
    then show ?thesis
      unfolding lev_buffer_new_def assms(1) bind_res_simps Let_def a(1) option.sel n(1) store
      using a(2) r [OF True] assms(3) fits
      by (simp add: deref_def lev_pushbuffer_from_mb_def lev_slab_incRef_def block_write_def)
  next
    case False
    then show ?thesis
      unfolding lev_buffer_new_def assms(1) bind_res_simps Let_def a(1) option.sel n(1) store pos
      using a(1,2) assms(3) fits
      by (simp add: deref_def lev_pushbuffer_from_mb_def lev_slab_incRef_def block_write_def)
  qed
qed

section \<open>The invariant of all live buffers\<close>

definition holders :: "MemSlice list \<Rightarrow> addr \<Rightarrow> int" where
  "holders ls a = int (count_list (map ms_mb ls) a)"

definition live_ok :: "'a lev_heap_scheme \<Rightarrow> MemSlice \<Rightarrow> bool" where
  "live_ok h m \<longleftrightarrow> 1 \<le> ms_until m \<and>
     (\<exists>b. blocks h (ms_mb m) = Some b \<and> ms_slice m + ms_until m \<le> mb_size b \<and>
        (buf_static_mb h = Some (ms_mb m) \<longrightarrow> ms_slice m + ms_until m \<le> mb_nbytes b))"

definition buffers_ok :: "'a lev_heap_scheme \<Rightarrow> MemSlice list \<Rightarrow> bool" where
  "buffers_ok h ls \<longleftrightarrow> slab_ok h \<and> static_ok h \<and>
     (\<forall>a. refs h a = holders ls a + static_refs h a) \<and> (\<forall>m \<in> set ls. live_ok h m)"

lemma holders_simps [simp]:
  "holders [] a = 0" "holders (m # ls) a = holders ls a + (if ms_mb m = a then 1 else 0)"
  by (simp_all add: holders_def)

lemma holders_nonneg [simp]: "0 \<le> holders ls a"
  by (simp add: holders_def)

lemma holders_pos: "m \<in> set ls \<Longrightarrow> 1 \<le> holders ls (ms_mb m)"
  by (induction ls) (auto intro: add_increasing2)

lemma holders_remove1:
  "m \<in> set ls \<Longrightarrow> holders (remove1 m ls) a = holders ls a - (if ms_mb m = a then 1 else 0)"
  by (induction ls) auto

lemma static_refs_le: "0 \<le> static_refs h a" "static_refs h a \<le> 1"
  by (simp_all add: static_refs_def)

lemma buffers_okD:
  assumes "buffers_ok h ls"
  shows buffers_slab: "slab_ok h" and buffers_static: "static_ok h"
    and buffers_refs: "refs h a = holders ls a + static_refs h a"
    and buffers_live: "m \<in> set ls \<Longrightarrow> live_ok h m"
    and buffers_memslice: "m \<in> set ls \<Longrightarrow> memslice_ok h m"
proof -
  show "slab_ok h" "static_ok h" "refs h a = holders ls a + static_refs h a"
      "m \<in> set ls \<Longrightarrow> live_ok h m" for a
    using assms by (auto simp: buffers_ok_def)
  assume m: "m \<in> set ls"
  have "0 < refs h (ms_mb m)"
    using assms holders_pos [OF m] static_refs_le(1) [of h "ms_mb m"] by (auto simp: buffers_ok_def)
  with assms m show "memslice_ok h m" by (auto simp: buffers_ok_def live_ok_def memslice_ok_def)
qed

lemma lev_buffer_new_life:
  fixes h :: "'a lev_heap_scheme"
  assumes "buffers_ok h ls" "1 \<le> sz" "sz \<le> 1048576" "source_ok sz temp ts"
  obtains m h' where "lev_buffer_new sz temp ts h = Inr (m, h')" "buffers_ok h' (m # ls)" "ms_until m = sz"
    "slice_part h' m 0 (length (new_bytes sz temp ts)) = new_bytes sz temp ts"
    "\<And>m'. m' \<in> set ls \<Longrightarrow> slice_part h' m' 0 (ms_until m') = slice_part h m' 0 (ms_until m')"
proof -
  note ok = buffers_okD [OF assms(1)]
  obtain h1 a b where blk: "lev_buffer_block sz h = Inr h1" "block_ready sz h h1 a b"
    by (rule lev_buffer_block_ready [OF ok(1,2) assms(3)])
  note ready = blk(2) [unfolded block_ready_def]
  define w where "w = new_bytes sz temp ts"
  define m where "m = \<lparr>ms_mb = a, ms_slice = mb_nbytes b, ms_until = sz\<rparr>"
  define b' where "b' = b\<lparr>mb_refcount := (if sz = mb_size b then 1 else max 1 (mb_refcount b) + 1),
      mb_bytes := mem_write (mb_bytes b) (mb_nbytes b) w, mb_nbytes := mb_nbytes b + sz\<rparr>"
  define h' where "h' = put_block a b' h1\<lparr>buf_static_mb := (if sz = mb_size b then None else Some a)\<rparr>"
  have new: "lev_buffer_new sz temp ts h = Inr (m, h')"
    using lev_buffer_new_eq [OF blk assms(2,4)] by (simp add: m_def h'_def b'_def w_def)
  have b: "slab_ok h1" "blocks h1 a = Some b" "\<not> pooled h1 a" "0 \<le> mb_refcount b" using ready by auto
  have "slab_ok (put_block a b' h1)"
    using slab_okD(6) [OF b(1,2)] b(4)
    by (intro slab_ok_put_block [OF b(1-3)]) (auto simp: b'_def)
  then have slab: "slab_ok h'" by (simp add: h'_def)
  have static: "static_ok h'"
    using ready assms(2) by (auto simp: static_ok_def h'_def b'_def)
  have none: "holders ls a = 0" if "mb_refcount b = 0"
    using ready ok(3) [of a] that by auto
  have same: "h1 = h" "buf_static_mb h = Some a" "1 \<le> mb_nbytes b" if "mb_refcount b \<noteq> 0"
    using ready that by auto
  have refs: "refs h' x = holders (m # ls) x + static_refs h' x" for x
  proof (cases "x = a")
    case True
    show ?thesis
    proof (cases "mb_refcount b = 0")
      case True
      with \<open>x = a\<close> none show ?thesis by (auto simp: h'_def b'_def m_def static_refs_def)
    next
      case False
      note s = same [OF False]
      have "mb_refcount b = holders ls a + 1"
        using ok(3) [of a] s ready by (simp add: refs_def static_refs_def)
      moreover have "sz \<noteq> mb_size b" using s(3) ready by auto
      ultimately show ?thesis using \<open>x = a\<close> by (simp add: h'_def b'_def m_def static_refs_def)
    qed
  next
    case False
    with ready ok(3) [of x] show ?thesis by (simp add: h'_def m_def static_refs_def)
  qed
  have keep: "live_ok h' m' \<and> slice_part h' m' 0 (ms_until m') = slice_part h m' 0 (ms_until m')"
    if m': "m' \<in> set ls" for m'
  proof -
    obtain bx where bx: "1 \<le> ms_until m'" "blocks h (ms_mb m') = Some bx"
        "ms_slice m' + ms_until m' \<le> mb_size bx"
        "buf_static_mb h = Some (ms_mb m') \<Longrightarrow> ms_slice m' + ms_until m' \<le> mb_nbytes bx"
      using ok(4) [OF m'] by (auto simp: live_ok_def)
    have held: "static_refs h (ms_mb m') < refs h (ms_mb m')"
      using ok(3) [of "ms_mb m'"] holders_pos [OF m'] by simp
    show ?thesis
    proof (cases "ms_mb m' = a")
      case True
      then have "mb_refcount b \<noteq> 0" using none holders_pos [OF m'] by auto
      note s = same [OF this]
      have "bx = b" using bx(2) s(1) True ready by simp
      with bx True s(2) show ?thesis
        by (auto simp: live_ok_def h'_def b'_def slice_mem_def mem_write_def m_def)
    next
      case False
      obtain r where "blocks h1 (ms_mb m') = Some (bx\<lparr>mb_refcount := r\<rparr>)"
        using ready bx(2) held by blast
      with bx False show ?thesis by (auto simp: live_ok_def h'_def slice_mem_def m_def)
    qed
  qed
  have "live_ok h' m"
    using assms(2) ready by (auto simp: live_ok_def m_def h'_def b'_def)
  with slab static refs keep have "buffers_ok h' (m # ls)" by (auto simp: buffers_ok_def)
  moreover have "slice_part h' m 0 (length w) = w"
    by (rule nth_equalityI) (simp_all add: slice_mem_def m_def h'_def b'_def mem_write_def)
  ultimately show thesis
    using new keep by (intro that [of m h']) (auto simp: m_def w_def)
qed

text \<open>Changing the counter or the bytes of a block that is held.\<close>

lemma buffers_put_grow:
  assumes "buffers_ok h ls" "blocks h a = Some b" "0 < refs h a"
    and "mb_size b' = mb_size b" "mb_allocator b' = mb_allocator b" "mb_nbytes b \<le> mb_nbytes b'"
    and "buf_static_mb h = Some a \<Longrightarrow> mb_nbytes b' \<le> mb_size b"
    and "1 \<le> mb_refcount b'" "\<And>x. ((refs h)(a := mb_refcount b')) x = holders ls' x + static_refs h x"
    and "\<And>m. m \<in> set ls' \<Longrightarrow> m \<in> set ls \<or> 1 \<le> ms_until m \<and> (\<exists>p \<in> set ls. ms_mb m = ms_mb p \<and>
      ms_slice m + ms_until m \<le> ms_slice p + ms_until p) \<or> 1 \<le> ms_until m \<and> ms_mb m = a \<and>
      ms_slice m + ms_until m \<le> min (mb_size b) (mb_nbytes b')"
  shows "buffers_ok (put_block a b' h) ls'"
proof -
  note ok = buffers_okD [OF assms(1)]
  have "slab_ok (put_block a b' h)"
    using slab_okD(6) [OF ok(1) assms(2)] assms(4,5,8) referenced_not_pooled [OF ok(1) assms(3)]
    by (intro slab_ok_put_block [OF ok(1) assms(2)]) simp_all
  moreover have "static_ok (put_block a b' h)"
    using ok(2) assms(2,4,6,7,8) by (auto simp: static_ok_def)
  moreover have live: "live_ok (put_block a b' h) m" if "live_ok h m" for m
    using that assms(2,4,6) by (auto simp: live_ok_def)
  have "live_ok (put_block a b' h) m" if m: "m \<in> set ls'" for m
  proof -
    consider "m \<in> set ls" | p where "p \<in> set ls" "ms_mb m = ms_mb p" "1 \<le> ms_until m"
        "ms_slice m + ms_until m \<le> ms_slice p + ms_until p"
      | "1 \<le> ms_until m" "ms_mb m = a" "ms_slice m + ms_until m \<le> min (mb_size b) (mb_nbytes b')"
      using assms(10) [OF m] by blast
    then show ?thesis
    proof cases
      case 1
      with ok(4) live show ?thesis by blast
    next
      case (2 p)
      with live [OF ok(4) [OF 2(1)]] show ?thesis by (fastforce simp: live_ok_def)
    next
      case 3
      with assms(4) show ?thesis by (simp add: live_ok_def)
    qed
  qed
  ultimately show ?thesis
    using assms(9) by (auto simp: buffers_ok_def static_refs_def)
qed

lemma buffers_put:
  assumes "buffers_ok h ls" "blocks h a = Some b" "0 < refs h a"
    and "mb_size b' = mb_size b" "mb_allocator b' = mb_allocator b" "mb_nbytes b' = mb_nbytes b"
    and "1 \<le> mb_refcount b'" "\<And>x. ((refs h)(a := mb_refcount b')) x = holders ls' x + static_refs h x"
    and "\<And>m. m \<in> set ls' \<Longrightarrow> m \<in> set ls \<or> 1 \<le> ms_until m \<and> (\<exists>p \<in> set ls. ms_mb m = ms_mb p \<and>
      ms_slice m + ms_until m \<le> ms_slice p + ms_until p)"
  shows "buffers_ok (put_block a b' h) ls'"
proof (rule buffers_put_grow [OF assms(1-5) _ _ assms(7,8)])
  show "mb_nbytes b' \<le> mb_size b" if "buf_static_mb h = Some a"
    using buffers_static [OF assms(1)] that assms(2,6) by (auto simp: static_ok_def)
qed (use assms(6,9) in auto)

lemma buffer_gc_life:
  assumes "buffers_ok h ls" "m \<in> set ls"
  obtains h' where "buffer__gc [LBuffer m] h = Inr ([], h')" "buffers_ok h' (remove1 m ls)"
    "\<And>m'. m' \<in> set (remove1 m ls) \<Longrightarrow> slice_mem h' m' = slice_mem h m'"
proof -
  note ok = buffers_okD [OF assms(1)]
  have pos: "0 < refs h (ms_mb m)"
    using ok(3) [of "ms_mb m"] holders_pos [OF assms(2)] static_refs_le(1) [of h "ms_mb m"] by linarith
  obtain r h' where d: "lev_slab_decRefCount (Some (ms_mb m)) 1 h = Inr (r, h')" "slab_ok h'"
      "refs h' (ms_mb m) = refs h (ms_mb m) - 1" "\<And>x. x \<noteq> ms_mb m \<Longrightarrow> blocks h' x = blocks h x"
      "1 < refs h (ms_mb m) \<Longrightarrow> \<exists>b. blocks h (ms_mb m) = Some b \<and>
         blocks h' (ms_mb m) = Some (b\<lparr>mb_refcount := mb_refcount b - 1\<rparr>) \<and> \<not> pooled h' (ms_mb m)"
    by (rule decRef_ok [OF ok(1) pos, where k = 1]) blast
  have st: "buf_static_mb h' = buf_static_mb h"
    using d(1) by (auto simp: lev_slab_decRefCount_def Let_def bind_res_Inr_iff split: if_splits)
  have refs: "refs h' x = holders (remove1 m ls) x + static_refs h' x" for x
    using d(3) d(4) [of x] ok(3) [of x] holders_remove1 [OF assms(2), of x]
    by (cases "x = ms_mb m") (auto simp: static_refs_def st refs_def)
  have two: "1 < refs h (ms_mb m)" if "buf_static_mb h = Some (ms_mb m)"
    using ok(3) [of "ms_mb m"] holders_pos [OF assms(2)] that by (simp add: static_refs_def)
  have "static_ok h'"
    unfolding static_ok_def
  proof (intro allI impI)
    fix a assume a: "buf_static_mb h' = Some a"
    then obtain b where b: "blocks h a = Some b" "1 \<le> mb_refcount b" "1 \<le> mb_nbytes b" "mb_nbytes b \<le> mb_size b"
      using ok(2) st by (auto simp: static_ok_def)
    show "\<exists>b. blocks h' a = Some b \<and> 1 \<le> mb_refcount b \<and> 1 \<le> mb_nbytes b \<and> mb_nbytes b \<le> mb_size b"
    proof (cases "a = ms_mb m")
      case True
      with a st two d(5) b show ?thesis by (fastforce simp: refs_def)
    next
      case False
      with d(4) b show ?thesis by auto
    qed
  qed
  moreover have keep: "live_ok h' m' \<and> slice_mem h' m' = slice_mem h m'" if m': "m' \<in> set (remove1 m ls)" for m'
  proof (cases "ms_mb m' = ms_mb m")
    case True
    have "1 \<le> holders ls (ms_mb m) - 1"
      using holders_pos [OF m'] holders_remove1 [OF assms(2), of "ms_mb m"] True by simp
    then have "1 < refs h (ms_mb m)" using ok(3) [of "ms_mb m"] static_refs_le(1) [of h "ms_mb m"] by linarith
    with d(5) ok(4) [of m'] m' notin_set_remove1 [of m' ls m] True show ?thesis
      by (fastforce simp: live_ok_def st slice_mem_def)
  next
    case False
    with d(4) ok(4) [of m'] m' notin_set_remove1 [of m' ls m] show ?thesis
      by (fastforce simp: live_ok_def st slice_mem_def)
  qed
  ultimately have "buffers_ok h' (remove1 m ls)" using d(2) refs by (auto simp: buffers_ok_def)
  with d(1) keep show thesis by (intro that [of h']) (simp_all add: buffer__gc_def)
qed

section \<open>Programs that make, cut, fill and drop buffers\<close>

text \<open>
  The state is the heap with the list of live buffers. A store stands for every method that writes
  inside its buffer; \<open>gc\<close> is the collector finding a buffer unreachable.
\<close>

inductive buffer_step :: "lua_lib \<Rightarrow> lev_heap \<times> MemSlice list \<Rightarrow> lev_heap \<times> MemSlice list \<Rightarrow> bool"
  for L :: lua_lib where
  new_number: "1 \<le> n \<Longrightarrow> n \<le> 1048576 \<Longrightarrow> buffer_new L [lua_int n] h = Inr ([LBuffer m], h') \<Longrightarrow>
    buffer_step L (h, ls) (h', m # ls)"
| new_string: "s \<noteq> [] \<Longrightarrow> length s \<le> 1048576 \<Longrightarrow> buffer_new L [LString s] h = Inr ([LBuffer m], h') \<Longrightarrow>
    buffer_step L (h, ls) (h', m # ls)"
| cut: "p \<in> set ls \<Longrightarrow> \<bar>i\<bar> < 2 ^ 53 \<Longrightarrow> \<bar>j\<bar> < 2 ^ 53 \<Longrightarrow>
    buffer_slice L [LBuffer p, lua_int i, lua_int j] h = Inr ([LBuffer m], h') \<Longrightarrow>
    buffer_step L (h, ls) (h', m # ls)"
| fill: "p \<in> set ls \<Longrightarrow> \<bar>i\<bar> < 2 ^ 53 \<Longrightarrow> \<bar>j\<bar> < 2 ^ 53 \<Longrightarrow>
    buffer_fill L [LBuffer p, v, lua_int i, lua_int j] h = Inr (vs, h') \<Longrightarrow>
    buffer_step L (h, ls) (h', ls)"
| store: "p \<in> set ls \<Longrightarrow> pos + length cs \<le> ms_until p \<Longrightarrow> slice_store p pos cs h = Inr h' \<Longrightarrow>
    buffer_step L (h, ls) (h', ls)"
| gc: "p \<in> set ls \<Longrightarrow> buffer__gc [LBuffer p] h = Inr (vs, h') \<Longrightarrow>
    buffer_step L (h, ls) (h', remove1 p ls)"

inductive_cases buffer_stepE: "buffer_step L (h, ls) s'"

text \<open>
  The process starts with an empty allocator; \<open>luaopen_levbase\<close> fills the pools with \<open>lev_slab_fill\<close> before
  \<open>lev.buffer\<close> is opened, so every buffer is made by an allocator with free lists: \<open>getBlock\<close> takes its
  blocks from them and \<open>decRef\<close> puts them back.
\<close>

definition empty_heap :: "(addr \<Rightarrow> mem) \<Rightarrow> lev_heap" where
  "empty_heap junk = slab.extend (slab_start junk) (lev_heap.fields None None)"

definition heap_start :: "(addr \<Rightarrow> mem) \<Rightarrow> lev_heap" where
  "heap_start junk = lev_slab_fill (empty_heap junk)"

lemma slab_ok_empty_heap: "slab_ok (empty_heap junk)"
  by (rule slab_okI) (simp_all add: empty_heap_def slab_start_def slab.defs lev_heap.defs)

lemma heap_start_pools:
  "slab_ok (heap_start junk)" "length (pool (allocs (heap_start junk) c)) = fill_count c"
  "pool_min (allocs (heap_start junk) c) = fill_count c"
  using lev_slab_fill_ok [OF slab_ok_empty_heap] by (simp_all add: heap_start_def)

lemma buffers_ok_start: "buffers_ok (heap_start junk) []"
proof -
  have "refs (heap_start junk) = refs (empty_heap junk)" "slab.more (heap_start junk) = slab.more (empty_heap junk)"
    using lev_slab_fill_refs [OF slab_ok_empty_heap] by (simp_all add: heap_start_def)
  then have "refs (heap_start junk) a = 0" "buf_static_mb (heap_start junk) = None" for a
    by (cases "heap_start junk", simp add: empty_heap_def slab_start_def slab.defs lev_heap.defs refs_def)+
  with heap_start_pools(1) [of junk] show ?thesis
    by (simp add: buffers_ok_def static_ok_def static_refs_def)
qed

lemma buffer_new_number:
  "1 \<le> n \<Longrightarrow> n \<le> 1048576 \<Longrightarrow> buffer_new L [lua_int n] h =
    bind_res (lev_buffer_new (nat n) None 0 h) (\<lambda>(m, h'). Inr ([LBuffer m], h'))"
proof -
  assume n: "1 \<le> n" "n \<le> 1048576"
  then have "arg_size L [lua_int n] 1 = Inr (nat n)"
    by (subst arg_size_int [of _ _ n]) simp_all
  then show ?thesis by (simp add: buffer_new_def)
qed

lemma buffer_new_string:
  "buffer_new L [LString s] h =
    bind_res (lev_buffer_new (length s) (Some (s @ [0])) 0 h) (\<lambda>(m, h'). Inr ([LBuffer m], h'))"
  by (simp add: buffer_new_def)

lemma slice_store_put:
  assumes "slice_store m pos cs h = Inr h'"
  obtains b where "blocks h (ms_mb m) = Some b"
    "h' = put_block (ms_mb m) (b\<lparr>mb_bytes := mem_write (mb_bytes b) (ms_slice m + pos) cs\<rparr>) h"
  using assms
  by (auto simp: slice_store_def block_write_def bind_res_Inr_iff deref_def split: option.splits if_splits)

lemma store_buffers_ok:
  assumes "buffers_ok h ls" "m \<in> set ls" "slice_store m pos cs h = Inr h'"
  shows "buffers_ok h' ls"
proof -
  note ok = buffers_okD [OF assms(1)]
  obtain b where b: "blocks h (ms_mb m) = Some b"
      "h' = put_block (ms_mb m) (b\<lparr>mb_bytes := mem_write (mb_bytes b) (ms_slice m + pos) cs\<rparr>) h"
    by (rule slice_store_put [OF assms(3)])
  have pos: "0 < refs h (ms_mb m)" using ok(5) [OF assms(2)] by (simp add: memslice_ok_def)
  have r: "refs h (ms_mb m) = mb_refcount b" using b(1) by (simp add: refs_def)
  show ?thesis
    unfolding b(2)
    by (rule buffers_put [OF assms(1) b(1) pos]) (use ok(3) pos r in \<open>auto simp: fun_upd_def\<close>)
qed

lemma cut_buffers_ok:
  assumes "buffers_ok h ls" "p \<in> set ls" "\<bar>i\<bar> < 2 ^ 53" "\<bar>j\<bar> < 2 ^ 53"
    and "buffer_slice L [LBuffer p, lua_int i, lua_int j] h = Inr ([LBuffer m], h')"
  shows "buffers_ok h' (m # ls)"
proof -
  note ok = buffers_okD [OF assms(1)]
  define off rest where "off = max 1 (nat i)" and "rest = ms_until p - (off - 1)"
  define len where "len = (if j = 0 then rest else nat j)"
  have res: "off \<le> ms_until p" "len \<le> rest" "0 \<le> j"
      "m = \<lparr>ms_mb = ms_mb p, ms_slice = ms_slice p + (off - 1), ms_until = len\<rparr>"
      "h' = put_block (ms_mb p) (the (blocks h (ms_mb p))\<lparr>mb_refcount := refs h (ms_mb p) + 1\<rparr>) h"
    using buffer_slice_eq [OF ok(1) ok(5) [OF assms(2)] assms(3,4), of L] assms(5)
    unfolding Let_def off_def [symmetric] rest_def [symmetric] len_def [symmetric] by (auto split: if_splits)
  have one: "1 \<le> off" by (simp add: off_def)
  have len: "1 \<le> len" using res(1,3) by (auto simp: len_def rest_def off_def)
  have fits: "off - 1 + len \<le> ms_until p" using res(1,2) one by (simp add: rest_def)
  obtain b where b: "blocks h (ms_mb p) = Some b" using ok(4) [OF assms(2)] by (auto simp: live_ok_def)
  have pos: "0 < refs h (ms_mb p)" using ok(5) [OF assms(2)] by (simp add: memslice_ok_def)
  have inside: "m \<in> set ls \<or> 1 \<le> ms_until m \<and> (\<exists>q \<in> set ls. ms_mb m = ms_mb q \<and>
      ms_slice m + ms_until m \<le> ms_slice q + ms_until q)"
    using len fits assms(2) by (auto simp: res(4))
  show ?thesis
    unfolding res(5) b option.sel
    by (rule buffers_put [OF assms(1) b pos]) (use ok(3) pos inside in \<open>auto simp: res(4)\<close>)
qed

lemma buffer_step_ok:
  assumes "buffer_step L s s'" "case s of (h, ls) \<Rightarrow> buffers_ok h ls"
  shows "case s' of (h', ls') \<Rightarrow> buffers_ok h' ls'"
  using assms
proof (cases rule: buffer_step.cases)
  case (new_number n h m h' ls)
  have sz: "1 \<le> nat n" "nat n \<le> 1048576" using new_number by linarith+
  have inv: "buffers_ok h ls" using assms(2) new_number by simp
  obtain m' g where "lev_buffer_new (nat n) None 0 h = Inr (m', g)" "buffers_ok g (m' # ls)"
    by (rule lev_buffer_new_life [OF inv sz, of None 0]) (simp add: source_ok_def)
  with new_number buffer_new_number [OF new_number(3,4), of L h] show ?thesis by simp
next
  case (new_string s h m h' ls)
  have sz: "1 \<le> length s" "length s \<le> 1048576" using new_string by (auto simp: Suc_le_eq)
  have inv: "buffers_ok h ls" using assms(2) new_string by simp
  obtain m' g where "lev_buffer_new (length s) (Some (s @ [0])) 0 h = Inr (m', g)" "buffers_ok g (m' # ls)"
    by (rule lev_buffer_new_life [OF inv sz, of "Some (s @ [0])" 0]) (simp add: source_ok_def)
  with new_string buffer_new_string [of L s h] show ?thesis by simp
next
  case (cut p ls i j h m h')
  with assms(2) cut_buffers_ok show ?thesis by fastforce
next
  case (fill p ls i j v h vs h')
  with assms(2) have inv: "buffers_ok h ls" by simp
  note ok = buffers_okD [OF inv]
  from buffer_fill_store [OF ok(1) ok(5) [OF fill(3)] fill(4,5,6)] obtain pos cs where
    "slice_store p pos cs h = Inr h'" by (auto simp: Let_def)
  with fill store_buffers_ok [OF inv fill(3)] show ?thesis by simp
next
  case (store p ls pos cs h h')
  with assms(2) store_buffers_ok show ?thesis by fastforce
next
  case (gc p ls h vs h')
  with assms(2) have inv: "buffers_ok h ls" by simp
  from buffer_gc_life [OF inv gc(3)] gc(4) have "buffers_ok h' (remove1 p ls)" by auto
  with gc show ?thesis by simp
qed

lemma buffers_reachable:
  assumes "(buffer_step L)\<^sup>*\<^sup>* (heap_start junk, []) (h, ls)"
  shows "buffers_ok h ls"
proof -
  have "case s' of (h', ls') \<Rightarrow> buffers_ok h' ls'"
    if "(buffer_step L)\<^sup>*\<^sup>* s s'" "case s of (h, ls) \<Rightarrow> buffers_ok h ls" for s s'
    using that by (induction rule: rtranclp_induct) (use buffer_step_ok in blast)+
  from this [OF assms] buffers_ok_start show ?thesis by simp
qed

end
