(* ===== verification/Buffer_Concat.thy ===== *)
theory Buffer_Concat
  imports Buffer_Life
begin

text \<open>
  Concatenation, and assignment of strings to an index: where the result is the one a user of
  \<open>lev.buffer\<close> expects, and the cases where it is not.
\<close>

section \<open>Concatenation of two buffers\<close>

abbreviation buffer_bytes :: "'a slab_scheme \<Rightarrow> MemSlice \<Rightarrow> byte list" where
  "buffer_bytes h m \<equiv> slice_part h m 0 (ms_until m)"

text \<open>\<open>m\<close> starts where \<open>m'\<close> ends.\<close>

definition follows :: "MemSlice \<Rightarrow> MemSlice \<Rightarrow> bool" where
  "follows m m' \<longleftrightarrow> ms_mb m = ms_mb m' \<and> ms_slice m' + ms_until m' = ms_slice m"

lemma slice_operand_ok:
  assumes "blocks h (ms_mb m) = Some b" "ms_slice m + ms_until m \<le> mb_size b"
  obtains src where "slice_operand h m = Inr (Some m, Some src, ms_until m)" "ms_until m \<le> length src"
    "take (ms_until m) src = buffer_bytes h m"
proof
  show "slice_operand h m = Inr (Some m, Some (mem_read (mb_bytes b) (ms_slice m) (mb_size b - ms_slice m)), ms_until m)"
    using assms by (simp add: slice_operand_def deref_def)
  show "ms_until m \<le> length (mem_read (mb_bytes b) (ms_slice m) (mb_size b - ms_slice m))"
    using assms by simp
  show "take (ms_until m) (mem_read (mb_bytes b) (ms_slice m) (mb_size b - ms_slice m)) = buffer_bytes h m"
    using assms by (intro nth_equalityI) (simp_all add: slice_mem_def)
qed

text \<open>A new slice over part of a block that is held.\<close>

lemma push_live:
  assumes "buffers_ok h ls" "p \<in> set ls" "0 < n"
  obtains b where "blocks h (ms_mb p) = Some b" "refs h (ms_mb p) = mb_refcount b" "0 < mb_refcount b"
    "lev_pushbuffer_from_mb (Some (ms_mb p)) n (Some off) h =
       Inr (\<lparr>ms_mb = ms_mb p, ms_slice = off, ms_until = n\<rparr>,
            put_block (ms_mb p) (b\<lparr>mb_refcount := mb_refcount b + 1\<rparr>) h)"
proof -
  note ok = buffers_okD [OF assms(1)]
  obtain b where b: "blocks h (ms_mb p) = Some b" "0 < mb_refcount b" "refs h (ms_mb p) = mb_refcount b"
    by (rule memslice_okE [OF ok(5) [OF assms(2)]])
  have "\<not> pooled h (ms_mb p)" using referenced_not_pooled [OF ok(1)] b by simp
  then show thesis
    using that [OF b(1,3,2)] assms(3) by (elim lev_pushbuffer_from_mb_ok [OF ok(1) b(1), of n "Some off"]) simp
qed

lemma push_live_ok:
  assumes "buffers_ok h ls" "p \<in> set ls" "0 < n" "off + n \<le> ms_slice p + ms_until p"
  obtains h' where "lev_pushbuffer_from_mb (Some (ms_mb p)) n (Some off) h =
       Inr (\<lparr>ms_mb = ms_mb p, ms_slice = off, ms_until = n\<rparr>, h')"
    "buffers_ok h' (\<lparr>ms_mb = ms_mb p, ms_slice = off, ms_until = n\<rparr> # ls)" "slice_mem h' = slice_mem h"
proof -
  obtain b where b: "blocks h (ms_mb p) = Some b" "refs h (ms_mb p) = mb_refcount b" "0 < mb_refcount b"
    "lev_pushbuffer_from_mb (Some (ms_mb p)) n (Some off) h =
       Inr (\<lparr>ms_mb = ms_mb p, ms_slice = off, ms_until = n\<rparr>,
            put_block (ms_mb p) (b\<lparr>mb_refcount := mb_refcount b + 1\<rparr>) h)"
    by (rule push_live [OF assms(1-3)])
  let ?h = "put_block (ms_mb p) (b\<lparr>mb_refcount := mb_refcount b + 1\<rparr>) h"
  have inside: "m \<in> set ls \<or> 1 \<le> ms_until m \<and> (\<exists>q \<in> set ls. ms_mb m = ms_mb q \<and>
      ms_slice m + ms_until m \<le> ms_slice q + ms_until q)"
    if "m \<in> set (\<lparr>ms_mb = ms_mb p, ms_slice = off, ms_until = n\<rparr> # ls)" for m
    using that assms(2-4) by auto
  have "buffers_ok ?h (\<lparr>ms_mb = ms_mb p, ms_slice = off, ms_until = n\<rparr> # ls)"
    by (rule buffers_put [OF assms(1) b(1) _ _ _ _ _ _ inside])
       (use b(2,3) buffers_refs [OF assms(1)] in \<open>simp_all\<close>)
  moreover have "slice_mem ?h = slice_mem h" by (intro ext) (simp add: slice_mem_def b(1))
  ultimately show thesis using that b(4) by blast
qed

lemma bytes_adjacent:
  assumes "slice_mem h' = slice_mem h" "follows m2 m1"
  shows "buffer_bytes h' \<lparr>ms_mb = ms_mb m1, ms_slice = ms_slice m1, ms_until = ms_until m1 + ms_until m2\<rparr> =
    buffer_bytes h m1 @ buffer_bytes h m2"
proof -
  have m2: "ms_slice m2 = ms_slice m1 + ms_until m1" "ms_mb m2 = ms_mb m1"
    using assms(2) by (auto simp: follows_def)
  show ?thesis
    by (cases "blocks h (ms_mb m1)"; rule nth_equalityI) (auto simp: m2 assms(1) slice_mem_def nth_append)
qed

lemma concat_operands:
  assumes "buffers_ok h ls" "m1 \<in> set ls" "m2 \<in> set ls"
  obtains s1 s2 where
    "concat_args L [LBuffer m1, LBuffer m2] = [LBuffer m1, LBuffer m2]"
    "concat_operand L [LBuffer m1, LBuffer m2] 1 h = Inr (Some m1, Some s1, ms_until m1)"
    "concat_operand L [LBuffer m1, LBuffer m2] 2 h = Inr (Some m2, Some s2, ms_until m2)"
    "ms_until m1 \<le> length s1" "take (ms_until m1) s1 = buffer_bytes h m1"
    "ms_until m2 \<le> length s2" "take (ms_until m2) s2 = buffer_bytes h m2"
proof -
  have ex: "\<exists>s. slice_operand h m = Inr (Some m, Some s, ms_until m) \<and> ms_until m \<le> length s \<and>
      take (ms_until m) s = buffer_bytes h m" if m: "m \<in> set ls" for m
  proof -
    obtain b where "blocks h (ms_mb m) = Some b" "ms_slice m + ms_until m \<le> mb_size b"
      using buffers_live [OF assms(1) m] by (auto simp: live_ok_def)
    then show ?thesis by (rule slice_operand_ok) blast
  qed
  from ex [OF assms(2)] ex [OF assms(3)] show thesis
    by (auto simp: concat_operand_def concat_args_def intro: that)
qed

text \<open>Two slices that touch become one slice of their block, in the order they have in memory.\<close>

lemma concat_union:
  assumes "buffers_ok h ls" "m1 \<in> set ls" "m2 \<in> set ls"
    and "\<exists>a z. {a, z} = {m1, m2} \<and> follows z a \<and> f = a \<and> s = z"
  shows "\<exists>m h'. buffer__concat L [LBuffer m1, LBuffer m2] h = Inr ([LBuffer m], h') \<and>
    buffers_ok h' (m # ls) \<and> buffer_bytes h' m = buffer_bytes h f @ buffer_bytes h s"
proof -
  obtain s1 s2 where o: "concat_args L [LBuffer m1, LBuffer m2] = [LBuffer m1, LBuffer m2]"
    "concat_operand L [LBuffer m1, LBuffer m2] 1 h = Inr (Some m1, Some s1, ms_until m1)"
    "concat_operand L [LBuffer m1, LBuffer m2] 2 h = Inr (Some m2, Some s2, ms_until m2)"
    by (rule concat_operands [OF assms(1-3)])
  have fs: "f \<in> set ls" "s \<in> set ls" "follows s f" using assms(2-4) by auto
  have pos: "1 \<le> ms_until f" "1 \<le> ms_until s"
    using buffers_live [OF assms(1) fs(1)] buffers_live [OF assms(1) fs(2)] by (auto simp: live_ok_def)
  let ?n = "ms_until m1 + ms_until m2"
  have n: "?n = ms_until f + ms_until s" "ms_mb m1 = ms_mb s" "min (ms_slice m1) (ms_slice m2) = ms_slice f"
    using assms(4) by (auto simp: follows_def doubleton_eq_iff)
  have touch: "ms_mb m1 = ms_mb m2 \<and>
      ((ms_slice m2 < ms_slice m1 \<and> ms_slice m2 + ms_until m2 = ms_slice m1) \<or>
       (ms_slice m1 < ms_slice m2 \<and> ms_slice m1 + ms_until m1 = ms_slice m2))"
    using assms(4) pos by (auto simp: follows_def doubleton_eq_iff)
  obtain h' where h': "lev_pushbuffer_from_mb (Some (ms_mb s)) ?n (Some (ms_slice f)) h =
       Inr (\<lparr>ms_mb = ms_mb s, ms_slice = ms_slice f, ms_until = ?n\<rparr>, h')"
    "buffers_ok h' (\<lparr>ms_mb = ms_mb s, ms_slice = ms_slice f, ms_until = ?n\<rparr> # ls)" "slice_mem h' = slice_mem h"
    by (rule push_live_ok [OF assms(1) fs(2), of ?n "ms_slice f"])
       (use pos n(1) fs(3) in \<open>auto simp: follows_def\<close>)
  have "buffer__concat L [LBuffer m1, LBuffer m2] h = Inr ([LBuffer \<lparr>ms_mb = ms_mb s, ms_slice = ms_slice f, ms_until = ?n\<rparr>], h')"
    unfolding buffer__concat_def o bind_res_simps prod.case option.case Let_def if_P [OF touch] option.sel
    by (simp only: n(2,3) h'(1) bind_res_simps prod.case)
  with h'(2) bytes_adjacent [OF h'(3) fs(3)] n(1) fs(3) show ?thesis
    by (intro exI [of _ "\<lparr>ms_mb = ms_mb s, ms_slice = ms_slice f, ms_until = ?n\<rparr>"] exI [of _ h'])
       (simp add: follows_def)
qed

text \<open>
  Slices that do not touch: the second one is copied behind the first, in place when the first one
  is the last slice of a block with enough room, and into a new buffer otherwise.
\<close>

lemma concat_in_place:
  assumes "buffers_ok h ls" "m1 \<in> set ls" "m2 \<in> set ls" "blocks h (ms_mb m1) = Some b"
    and "ms_slice m1 + ms_until m1 = mb_nbytes b" "mb_nbytes b + ms_until m2 \<le> mb_size b"
    and "ms_until m2 \<le> length src" "take (ms_until m2) src = buffer_bytes h m2"
  shows "\<exists>m h1 h2. lev_pushbuffer_from_mb (Some (ms_mb m1)) (ms_until m1 + ms_until m2) (Some (ms_slice m1)) h = Inr (m, h1) \<and>
    deref h1 (Some (ms_mb m1)) = Inr (b\<lparr>mb_refcount := mb_refcount b + 1\<rparr>) \<and>
    concat_copy m1 (ms_until m1) (Some src) (ms_until m2)
      (put_block (ms_mb m1) (b\<lparr>mb_refcount := mb_refcount b + 1, mb_nbytes := mb_nbytes b + ms_until m2\<rparr>) h1) = Inr h2 \<and>
    buffers_ok h2 (m # ls) \<and> buffer_bytes h2 m = buffer_bytes h m1 @ buffer_bytes h m2"
proof -
  note live1 = buffers_live [OF assms(1,2)]
  have pos: "1 \<le> ms_until m1" "0 < ms_until m1 + ms_until m2" using live1 by (auto simp: live_ok_def)
  obtain b' where b': "blocks h (ms_mb m1) = Some b'" "refs h (ms_mb m1) = mb_refcount b'" "0 < mb_refcount b'"
    "lev_pushbuffer_from_mb (Some (ms_mb m1)) (ms_until m1 + ms_until m2) (Some (ms_slice m1)) h =
       Inr (\<lparr>ms_mb = ms_mb m1, ms_slice = ms_slice m1, ms_until = ms_until m1 + ms_until m2\<rparr>,
            put_block (ms_mb m1) (b'\<lparr>mb_refcount := mb_refcount b' + 1\<rparr>) h)"
    by (rule push_live [OF assms(1,2) pos(2)])
  have [simp]: "b' = b" using b'(1) assms(4) by simp
  define m where "m = \<lparr>ms_mb = ms_mb m1, ms_slice = ms_slice m1, ms_until = ms_until m1 + ms_until m2\<rparr>"
  define b2 where "b2 = b\<lparr>mb_refcount := mb_refcount b + 1, mb_nbytes := mb_nbytes b + ms_until m2,
     mb_bytes := mem_write (mb_bytes b) (mb_nbytes b) (buffer_bytes h m2)\<rparr>"
  have inside: "x \<in> set ls \<or> 1 \<le> ms_until x \<and> (\<exists>q \<in> set ls. ms_mb x = ms_mb q \<and>
      ms_slice x + ms_until x \<le> ms_slice q + ms_until q) \<or> 1 \<le> ms_until x \<and> ms_mb x = ms_mb m1 \<and>
      ms_slice x + ms_until x \<le> min (mb_size b) (mb_nbytes b2)" if "x \<in> set (m # ls)" for x
    using that assms(5,6) pos by (auto simp: m_def b2_def)
  have "buffers_ok (put_block (ms_mb m1) b2 h) (m # ls)"
    by (rule buffers_put_grow [OF assms(1,4) _ _ _ _ _ _ _ inside])
       (use b'(2,3) assms(6) buffers_refs [OF assms(1)] in \<open>simp_all add: b2_def m_def\<close>)
  moreover have "buffer_bytes (put_block (ms_mb m1) b2 h) m = buffer_bytes h m1 @ buffer_bytes h m2"
    by (rule nth_equalityI)
       (use assms(4) in \<open>auto simp: m_def b2_def slice_mem_def nth_append mem_write_def simp flip: assms(5)\<close>)
  moreover have "concat_copy m1 (ms_until m1) (Some src) (ms_until m2)
      (put_block (ms_mb m1) (b\<lparr>mb_refcount := mb_refcount b + 1, mb_nbytes := mb_nbytes b + ms_until m2\<rparr>)
        (put_block (ms_mb m1) (b\<lparr>mb_refcount := mb_refcount b + 1\<rparr>) h)) = Inr (put_block (ms_mb m1) b2 h)"
    using assms(5-8)
    by (simp add: concat_copy_def slice_store_def block_write_def deref_def b2_def put_block_def)
  ultimately show ?thesis
    using b'(4) by (intro exI [of _ m] exI [of _ "put_block (ms_mb m1) (b\<lparr>mb_refcount := mb_refcount b + 1\<rparr>) h"]
        exI [of _ "put_block (ms_mb m1) b2 h"]) (simp add: m_def deref_def)
qed

lemma concat_new_block:
  assumes "buffers_ok h ls" "m1 \<in> set ls" "m2 \<in> set ls" "ms_until m1 + ms_until m2 \<le> 1048576"
    and "ms_until m1 \<le> length s1" "take (ms_until m1) s1 = buffer_bytes h m1"
    and "ms_until m2 \<le> length s2" "take (ms_until m2) s2 = buffer_bytes h m2"
  shows "\<exists>m h1 h2. lev_buffer_new (ms_until m1 + ms_until m2) (Some s1) (ms_until m1) h = Inr (m, h1) \<and>
    concat_copy m (ms_until m1) (Some s2) (ms_until m2) h1 = Inr h2 \<and>
    buffers_ok h2 (m # ls) \<and> buffer_bytes h2 m = buffer_bytes h m1 @ buffer_bytes h m2"
proof -
  let ?n = "ms_until m1 + ms_until m2"
  have pos: "1 \<le> ms_until m1" using buffers_live [OF assms(1,2)] by (auto simp: live_ok_def)
  have src: "source_ok ?n (Some s1) (ms_until m1)" "new_bytes ?n (Some s1) (ms_until m1) = buffer_bytes h m1"
    using pos assms(5,6) by (auto simp: source_ok_def new_bytes_def)
  obtain m h1 where m: "lev_buffer_new ?n (Some s1) (ms_until m1) h = Inr (m, h1)" "buffers_ok h1 (m # ls)"
      "ms_until m = ?n" "slice_part h1 m 0 (ms_until m1) = buffer_bytes h m1"
  proof (rule lev_buffer_new_life [OF assms(1) _ assms(4) src(1)])
    show "1 \<le> ?n" using pos by simp
  qed (use src(2) that in simp)
  obtain h2 where h2: "slice_store m (ms_until m1) (buffer_bytes h m2) h1 = Inr h2"
      "slice_mem h2 m = mem_write (slice_mem h1 m) (ms_until m1) (buffer_bytes h m2)"
    by (rule slice_store_ok [OF buffers_slab [OF m(2)] buffers_memslice [OF m(2)], of m "ms_until m1" "buffer_bytes h m2"])
       (simp_all add: m(3))
  have first: "slice_mem h1 m i = slice_mem h m1 i" if "i < ms_until m1" for i
    using arg_cong [OF m(4), of "\<lambda>xs. xs ! i"] that by simp
  have "buffer_bytes h2 m = buffer_bytes h m1 @ buffer_bytes h m2"
    by (rule nth_equalityI) (auto simp: m(3) h2(2) nth_append mem_write_def first)
  moreover have "buffers_ok h2 (m # ls)"
    by (rule store_buffers_ok [OF m(2) _ h2(1)]) simp
  ultimately show ?thesis
    using m(1) h2(1) assms(7,8)
    by (intro exI [of _ m] exI [of _ h1] exI [of _ h2]) (simp add: concat_copy_def)
qed

lemma concat_apart:
  assumes "buffers_ok h ls" "m1 \<in> set ls" "m2 \<in> set ls" "ms_until m1 + ms_until m2 \<le> 1048576"
    and "\<not> follows m1 m2" "\<not> follows m2 m1"
  shows "\<exists>m h'. buffer__concat L [LBuffer m1, LBuffer m2] h = Inr ([LBuffer m], h') \<and>
    buffers_ok h' (m # ls) \<and> buffer_bytes h' m = buffer_bytes h m1 @ buffer_bytes h m2"
proof -
  obtain s1 s2 where o: "concat_args L [LBuffer m1, LBuffer m2] = [LBuffer m1, LBuffer m2]"
    "concat_operand L [LBuffer m1, LBuffer m2] 1 h = Inr (Some m1, Some s1, ms_until m1)"
    "concat_operand L [LBuffer m1, LBuffer m2] 2 h = Inr (Some m2, Some s2, ms_until m2)"
    and s: "ms_until m1 \<le> length s1" "take (ms_until m1) s1 = buffer_bytes h m1"
    "ms_until m2 \<le> length s2" "take (ms_until m2) s2 = buffer_bytes h m2"
    by (rule concat_operands [OF assms(1-3)])
  have apart: "\<not> (ms_mb m1 = ms_mb m2 \<and>
      ((ms_slice m2 < ms_slice m1 \<and> ms_slice m2 + ms_until m2 = ms_slice m1) \<or>
       (ms_slice m1 < ms_slice m2 \<and> ms_slice m1 + ms_until m1 = ms_slice m2)))"
    using assms(5,6) by (auto simp: follows_def)
  obtain b where b: "blocks h (ms_mb m1) = Some b" "ms_slice m1 + ms_until m1 \<le> mb_size b"
    using buffers_live [OF assms(1,2)] by (auto simp: live_ok_def)
  have db: "deref h (Some (ms_mb m1)) = Inr b" by (simp add: deref_def b)
  let ?room = "ms_until m1 \<le> mb_nbytes b \<and> mb_nbytes b - ms_until m1 = ms_slice m1 \<and>
      ms_until m2 \<le> sz_sub (mb_size b) (mb_nbytes b)"
  note unf = buffer__concat_def o bind_res_simps prod.case option.case Let_def if_not_P [OF apart] option.sel db
  show ?thesis
  proof (cases ?room)
    case True
    with b(2) have fits: "ms_slice m1 + ms_until m1 = mb_nbytes b" "mb_nbytes b + ms_until m2 \<le> mb_size b"
      by auto
    obtain m h1 h2 where r: "lev_pushbuffer_from_mb (Some (ms_mb m1)) (ms_until m1 + ms_until m2) (Some (ms_slice m1)) h = Inr (m, h1)"
      "deref h1 (Some (ms_mb m1)) = Inr (b\<lparr>mb_refcount := mb_refcount b + 1\<rparr>)"
      "concat_copy m1 (ms_until m1) (Some s2) (ms_until m2)
        (put_block (ms_mb m1) (b\<lparr>mb_refcount := mb_refcount b + 1, mb_nbytes := mb_nbytes b + ms_until m2\<rparr>) h1) = Inr h2"
      "buffers_ok h2 (m # ls)" "buffer_bytes h2 m = buffer_bytes h m1 @ buffer_bytes h m2"
      using concat_in_place [OF assms(1-3) b(1) fits s(3,4)] by blast
    have "buffer__concat L [LBuffer m1, LBuffer m2] h = Inr ([LBuffer m], h2)"
      unfolding unf if_P [OF True] r(1,2) using r(3) by simp
    with r(4,5) show ?thesis by blast
  next
    case False
    obtain m h1 h2 where r: "lev_buffer_new (ms_until m1 + ms_until m2) (Some s1) (ms_until m1) h = Inr (m, h1)"
      "concat_copy m (ms_until m1) (Some s2) (ms_until m2) h1 = Inr h2"
      "buffers_ok h2 (m # ls)" "buffer_bytes h2 m = buffer_bytes h m1 @ buffer_bytes h m2"
      using concat_new_block [OF assms(1-4) s] by blast
    have "buffer__concat L [LBuffer m1, LBuffer m2] h = Inr ([LBuffer m], h2)"
      unfolding unf if_not_P [OF False] r(1,2) by simp
    with r(3,4) show ?thesis by blast
  qed
qed

text \<open>A string in front of a buffer is not copied: the result is the buffer alone.\<close>

lemma concat_string_buffer:
  assumes "buffers_ok h ls" "m \<in> set ls"
  shows "\<exists>m' h'. buffer__concat L [LString s, LBuffer m] h = Inr ([LBuffer m'], h') \<and>
    buffers_ok h' (m' # ls) \<and> buffer_bytes h' m' = buffer_bytes h m"
proof -
  obtain b where b: "blocks h (ms_mb m) = Some b" "ms_slice m + ms_until m \<le> mb_size b" "1 \<le> ms_until m"
    using buffers_live [OF assms] by (auto simp: live_ok_def)
  obtain src where src: "slice_operand h m = Inr (Some m, Some src, ms_until m)" "ms_until m \<le> length src"
    "take (ms_until m) src = buffer_bytes h m" by (rule slice_operand_ok [OF b(1,2)])
  have o: "concat_args L [LString s, LBuffer m] = [LString s, LBuffer m]"
    "concat_operand L [LString s, LBuffer m] 1 h = Inr (None, None, 0)"
    "concat_operand L [LString s, LBuffer m] 2 h = Inr (Some m, Some src, ms_until m)"
    using src(1) by (simp_all add: concat_operand_def concat_args_def string_operand_def lua_tolstring_def)
  obtain m' h1 where m': "lev_buffer_new (ms_until m) None 0 h = Inr (m', h1)" "buffers_ok h1 (m' # ls)"
      "ms_until m' = ms_until m"
    by (rule lev_buffer_new_life [OF assms(1) b(3) memslice_size [OF buffers_slab [OF assms(1)] buffers_memslice [OF assms]], of None 0])
       (simp add: source_ok_def)
  obtain h2 where h2: "slice_store m' 0 (buffer_bytes h m) h1 = Inr h2"
      "slice_mem h2 m' = mem_write (slice_mem h1 m') 0 (buffer_bytes h m)"
    by (rule slice_store_ok [OF buffers_slab [OF m'(2)] buffers_memslice [OF m'(2)], of m' 0 "buffer_bytes h m"])
       (simp_all add: m'(3))
  have "buffer_bytes h2 m' = buffer_bytes h m"
    by (rule nth_equalityI) (auto simp: m'(3) h2(2) mem_write_def)
  moreover have "buffers_ok h2 (m' # ls)" by (rule store_buffers_ok [OF m'(2) _ h2(1)]) simp
  moreover have "buffer__concat L [LString s, LBuffer m] h = Inr ([LBuffer m'], h2)"
    unfolding buffer__concat_def o bind_res_simps prod.case option.case Let_def
    using m'(1) src(2,3) h2(1) by (simp add: concat_copy_def)
  ultimately show ?thesis by blast
qed

section \<open>Assigning a string to an index\<close>

text \<open>
  The bytes go where they should; but a string that ends with the buffer makes the buffer one byte
  longer, because the growing slices of the JSON encoder keep room for a null byte.
\<close>

lemma newindex_string:
  fixes h :: "'a slab_scheme"
  assumes "slab_ok h" "memslice_ok h ms" "0 < ms_until ms" "1 \<le> i" "nat i \<le> ms_until ms + 1"
    and "nat i - 1 + length s < 1048576"
  shows "\<exists>ms' h'. buffer__newindex L [LBuffer ms, lua_int i, LString s] h = Inr (ms', h') \<and>
    slab_ok h' \<and> memslice_ok h' ms' \<and> slice_part h' ms' (nat i - 1) (length s) = s \<and>
    (\<forall>k < ms_until ms. k < nat i - 1 \<or> nat i - 1 + length s \<le> k \<longrightarrow> slice_mem h' ms' k = slice_mem h ms k) \<and>
    ms_until ms' = (if nat i - 1 + length s < ms_until ms then ms_until ms else nat i + length s)"
proof -
  have small: "\<bar>i\<bar> < 2 ^ 53" using assms(4,6) by simp
  have o: "buffer_getoffset L [LBuffer ms, lua_int i, LString s] 2 (ms_until ms) 0 = Inr (nat i)"
    by (subst buffer_getoffset_int [OF _ small memslice_small [OF assms(1,2)]]) (use assms(4,5) in simp_all)
  define n where "n = nat i - 1 + length s"
  obtain r where r: "lev_memslice_ensure_empty_length ms n h = Inr r" "grown ms h n r"
    using lev_memslice_ensure_grown [OF assms(1-3), of n] assms(6) unfolding n_def by auto
  obtain ms1 h1 where p: "r = (ms1, h1)" by fastforce
  note g = r(2) [unfolded grown_def p prod.case]
  obtain h2 where h2: "slice_store ms1 (nat i - 1) s h1 = Inr h2" "slab_ok h2" "memslice_ok h2 ms1"
      "slice_mem h2 ms1 = mem_write (slice_mem h1 ms1) (nat i - 1) s"
    by (rule slice_store_ok [of h1 ms1 "nat i - 1" s]) (use g in \<open>auto simp: n_def\<close>)
  have "buffer__newindex L [LBuffer ms, lua_int i, LString s] h = Inr (ms1, h2)"
    unfolding buffer__newindex_def arg_simps lval.case check_buffer_simps bind_res_simps o
      lev_memslice_append_mem_def n_def [symmetric] r(1) p prod.case h2(1) ..
  moreover have "slice_part h2 ms1 (nat i - 1) (length s) = s" by (rule slice_part_written [OF h2(4) refl])
  moreover have "ms_until ms1 = (if n < ms_until ms then ms_until ms else nat i + length s)"
    using g assms(4) by (auto simp: n_def split: if_splits)
  ultimately show ?thesis
    using g h2 by (intro exI [of _ ms1] exI [of _ h2]) (auto simp: n_def mem_write_def)
qed

text \<open>
  Growing in place counts the whole new length as used once more. When that passes the size of
  the shared block, the room left wraps around and the next small buffer is cut off behind the
  end of the block.
\<close>

lemma grow_then_new:
  fixes h :: "'a lev_heap_scheme"
  assumes "buf_static_mb h = Some (ms_mb ms)" "blocks h (ms_mb ms) = Some b" "0 < mb_refcount b"
    and "ms_slice ms + ms_until ms = mb_nbytes b" "0 < ms_until ms"
    and "ms_until ms \<le> length s" "length s < ms_until ms + (mb_size b - mb_nbytes b)"
    and "mb_nbytes b < mb_size b" "mb_size b < mb_nbytes b + length s" "mb_size b \<le> 1048576"
    and "1 \<le> n" "n \<le> 1048576" "nat n \<noteq> mb_size b"
  shows "\<exists>ms' h'. buffer__newindex L [LBuffer ms, lua_int 1, LString s] h = Inr (ms', h') \<and>
    buffer_new L [lua_int n] h' = Inl (Undefined ''write past the MemBlock'')"
proof -
  have o: "buffer_getoffset L [LBuffer ms, lua_int 1, LString s] 2 (ms_until ms) 0 = Inr 1"
    using buffer_getoffset_int [of "[LBuffer ms, lua_int 1, LString s]" 2 1 "ms_until ms" 0 L] assms(4,8,10)
    by simp
  let ?b1 = "b\<lparr>mb_nbytes := mb_nbytes b + (length s + 1)\<rparr>"
  let ?ms = "ms\<lparr>ms_until := length s + 1\<rparr>"
  let ?h1 = "put_block (ms_mb ms) ?b1 h"
  have grow: "lev_memslice_empty_length ms < length s"
    using assms(5,6) by (simp add: lev_memslice_empty_length_def)
  have "ms_slice ms + ms_until ms = mb_nbytes b \<and> length s + 1 \<le> ms_until ms + sz_sub (mb_size b) (mb_nbytes b)"
    using assms(4,7,8) by simp
  moreover have "length s < 2147483648" using assms(4,7,8,10) by linarith
  ultimately have resize: "lev_memslice_ensure_empty_length ms (length s) h = Inr (?ms, ?h1)"
    using grow assms(2) by (simp add: ensure_empty_length_eq lev_memslice_resize_def deref_def)
  let ?b2 = "?b1\<lparr>mb_bytes := mem_write (mb_bytes b) (ms_slice ms) s\<rparr>"
  have "slice_store ?ms 0 s ?h1 = Inr (put_block (ms_mb ms) ?b2 h)"
    using assms(4,7,8) by (simp add: slice_store_def block_write_def deref_def)
  then have assign: "buffer__newindex L [LBuffer ms, lua_int 1, LString s] h = Inr (?ms, put_block (ms_mb ms) ?b2 h)"
    unfolding buffer__newindex_def arg_simps lval.case check_buffer_simps bind_res_simps o
    using resize by (simp add: lev_memslice_append_mem_def)
  let ?h2 = "put_block (ms_mb ms) ?b2 h"
  have wrap: "\<not> sz_sub (mb_size b) (mb_nbytes b + (length s + 1)) < nat n"
  proof -
    have "nat n \<le> 1048576" "length s < 2097152" using assms(4,7,8,10,12) by linarith+
    with assms(8,9,10) show ?thesis by (simp add: sz_sub_def)
  qed
  have block: "lev_buffer_block (nat n) ?h2 = Inr ?h2"
    using assms(1) wrap by (simp add: lev_buffer_block_def deref_def)
  have past: "\<not> mb_nbytes b + (length s + 1) + nat n \<le> mb_size b" using assms(9) by simp
  have "lev_buffer_new (nat n) None 0 ?h2 = Inl (Undefined ''write past the MemBlock'')"
    unfolding lev_buffer_new_def block bind_res_simps Let_def
    using assms(1,3,11,13) past
    by (simp add: deref_def lev_pushbuffer_from_mb_def lev_slab_incRef_def block_write_def)
  then have "buffer_new L [lua_int n] ?h2 = Inl (Undefined ''write past the MemBlock'')"
    by (simp add: buffer_new_number [OF assms(11,12)])
  with assign show ?thesis by blast
qed

end
