(* ===== verification/C_Number.thy ===== *)
theory C_Number
  imports Lua_Number
begin

text \<open>
  The two functions of the C library that turn numbers into text and back: \<open>snprintf\<close> with
  \<open>%.Ng\<close> and \<open>strtod\<close>, both correctly rounded (ties to even), for a locale with a given decimal
  point. A finite double is a fraction; the text is computed with integers.
\<close>

definition round_half_even :: "nat \<Rightarrow> nat \<Rightarrow> nat" where
  "round_half_even a b =
     (let d = a div b; r = a mod b in if b < 2 * r \<or> (b = 2 * r \<and> odd d) then d + 1 else d)"

lemma round_half_even_exact: "0 < b \<Longrightarrow> round_half_even (k * b) b = k"
  by (simp add: round_half_even_def)

section \<open>Decimal digits\<close>

fun dec_digits :: "nat \<Rightarrow> byte list" where
  "dec_digits n =
     (if n < 10 then [48 + word_of_nat n] else dec_digits (n div 10) @ [48 + word_of_nat (n mod 10)])"

declare dec_digits.simps [simp del]

definition is_digit :: "byte \<Rightarrow> bool" where
  "is_digit b \<longleftrightarrow> 48 \<le> unat b \<and> unat b \<le> 57"

definition digits_val :: "byte list \<Rightarrow> nat" where
  "digits_val ds = foldl (\<lambda>a d. 10 * a + (unat d - 48)) 0 ds"

section \<open>Printing\<close>

text \<open>The magnitude of a finite double as a fraction.\<close>

definition dbl_ratio :: "lua_Number \<Rightarrow> nat \<times> nat" where
  "dbl_ratio w =
     (let e = max 1 (dbl_exp w) in
      if 1075 \<le> e then (dbl_mant w * 2 ^ (e - 1075), 1) else (dbl_mant w, 2 ^ (1075 - e)))"

text \<open>The decimal exponent of a positive fraction: \<open>10 ^ x \<le> p / q < 10 ^ (x + 1)\<close>.\<close>

function scale_up :: "nat \<Rightarrow> nat \<Rightarrow> nat \<Rightarrow> nat" where
  "scale_up p q k = (if p = 0 \<or> q \<le> p then k else scale_up (10 * p) q (Suc k))"
  by pat_completeness auto
termination
  by (relation "measure (\<lambda>(p, q, k). q - p)") auto

declare scale_up.simps [simp del]

definition dec_exp :: "nat \<Rightarrow> nat \<Rightarrow> int" where
  "dec_exp p q = (if q \<le> p then int (length (dec_digits (p div q))) - 1 else - int (scale_up p q 0))"

definition strip_zeros :: "byte list \<Rightarrow> byte list" where
  "strip_zeros ds = rev (dropWhile (\<lambda>d. d = 48) (rev ds))"

definition with_point :: "byte \<Rightarrow> byte list \<Rightarrow> byte list \<Rightarrow> byte list" where
  "with_point dp ip fp = (if fp = [] then ip else ip @ dp # fp)"

definition exp_text :: "int \<Rightarrow> byte list" where
  "exp_text x =
     0x65 # (if x < 0 then 0x2d else 0x2b) # (if \<bar>x\<bar> < 10 then [48] else []) @ dec_digits (nat \<bar>x\<bar>)"

text \<open>\<open>%.Ng\<close> of a positive fraction, for \<open>N > 0\<close>.\<close>

definition fmt_ratio :: "byte \<Rightarrow> nat \<Rightarrow> nat \<Rightarrow> nat \<Rightarrow> byte list" where
  "fmt_ratio dp N p q =
     (let x0 = dec_exp p q;
          d0 = (if x0 \<le> int N - 1 then round_half_even (p * 10 ^ nat (int N - 1 - x0)) q
                else round_half_even p (q * 10 ^ nat (x0 - (int N - 1))));
          (d, x) = (if d0 = 10 ^ N then (10 ^ (N - 1), x0 + 1) else (d0, x0));
          ds = dec_digits d
      in if x < - 4 \<or> int N \<le> x then with_point dp (take 1 ds) (strip_zeros (drop 1 ds)) @ exp_text x
         else if 0 \<le> x then with_point dp (take (nat x + 1) ds) (strip_zeros (drop (nat x + 1) ds))
         else with_point dp [48] (replicate (nat (- x) - 1) 48 @ strip_zeros ds))"

definition fmt_g :: "byte \<Rightarrow> nat \<Rightarrow> lua_Number \<Rightarrow> byte list" where
  "fmt_g dp N w =
     (if dbl_sign w then [0x2d] else []) @
     (if isnan w then [0x6e, 0x61, 0x6e]
      else if isinf w then [0x69, 0x6e, 0x66]
      else case dbl_ratio w of (p, q) \<Rightarrow> if p = 0 then [48] else fmt_ratio dp N p q)"

lemma fmt_g_examples:
  "fmt_g 0x2e 14 0x3FE0000000000000 = [48, 0x2e, 53]"  \<comment> \<open>0.5\<close>
  "fmt_g 0x2e 14 (dbl_of_int (- 120)) = [0x2d, 49, 50, 48]"
  "fmt_g 0x2c 6 0x40091EB851EB851F = [51, 0x2c, 49, 52]"  \<comment> \<open>3.14\<close>
  "fmt_g 0x2e 3 0x4197D78400000000 = [49, 0x65, 0x2b, 48, 56]"  \<comment> \<open>1e+08\<close>
  by (simp_all add: fmt_g_def fmt_ratio_def dbl_ratio_def dec_exp_def round_half_even_def dec_digits.simps
      scale_up.simps strip_zeros_def with_point_def exp_text_def dbl_mant_def dbl_exp_def dbl_frac_def
      dbl_sign_def isnan_def isinf_def dbl_of_int_def dbl_of_nat_sign_def dbl_make_def nbits.simps Let_def)

section \<open>Reading\<close>

text \<open>The double nearest to a fraction, ties to even; too large a fraction gives an infinity.\<close>

definition dbl_of_ratio :: "bool \<Rightarrow> nat \<Rightarrow> nat \<Rightarrow> lua_Number" where
  "dbl_of_ratio s p q =
     (if p = 0 then dbl_make s 0 0
      else
        let e0 = int (nbits p) - int (nbits q);
            e = (if (if 0 \<le> e0 then q * 2 ^ nat e0 \<le> p else q \<le> p * 2 ^ nat (- e0)) then e0 else e0 - 1);
            u = max (e - 52) (- 1074);
            m = (if 0 \<le> u then round_half_even p (q * 2 ^ nat u) else round_half_even (p * 2 ^ nat (- u)) q);
            bits = nat (u + 1074) * 2 ^ 52 + m
        in if 2047 * 2 ^ 52 \<le> bits then dbl_make s 2047 0 else dbl_make s 0 bits)"

definition is_space :: "byte \<Rightarrow> bool" where
  "is_space b \<longleftrightarrow> b = 32 \<or> 9 \<le> unat b \<and> unat b \<le> 13"

definition to_lower :: "byte \<Rightarrow> byte" where
  "to_lower b = (if 65 \<le> unat b \<and> unat b \<le> 90 then b + 32 else b)"

definition hex_val :: "byte \<Rightarrow> nat option" where
  "hex_val b =
     (if is_digit b then Some (unat b - 48)
      else if 97 \<le> unat (to_lower b) \<and> unat (to_lower b) \<le> 102 then Some (unat (to_lower b) - 87) else None)"

definition is_hex :: "byte \<Rightarrow> bool" where
  "is_hex b \<longleftrightarrow> hex_val b \<noteq> None"

definition hexs_val :: "byte list \<Rightarrow> nat" where
  "hexs_val ds = foldl (\<lambda>a d. 16 * a + the (hex_val d)) 0 ds"

text \<open>Digits with at most one decimal point: the two groups and how many bytes they take.\<close>

definition scan_digits :: "(byte \<Rightarrow> bool) \<Rightarrow> byte \<Rightarrow> byte list \<Rightarrow> byte list \<times> byte list \<times> nat" where
  "scan_digits P dp s =
     (let ip = takeWhile P s; r = drop (length ip) s;
          point = (r \<noteq> [] \<and> hd r = dp); fp = (if point then takeWhile P (tl r) else [])
      in (ip, fp, length ip + (if point \<and> (ip \<noteq> [] \<or> fp \<noteq> []) then 1 + length fp else 0)))"

text \<open>An exponent part that starts with the letter \<open>c\<close>, and how many bytes it takes.\<close>

definition scan_exp :: "byte \<Rightarrow> byte list \<Rightarrow> int \<times> nat" where
  "scan_exp c s =
     (if s \<noteq> [] \<and> to_lower (hd s) = c then
        let r = tl s; signed = (r \<noteq> [] \<and> (hd r = 0x2b \<or> hd r = 0x2d));
            ds = takeWhile is_digit (if signed then tl r else r)
        in if ds = [] then (0, 0)
           else ((if signed \<and> hd r = 0x2d then - int (digits_val ds) else int (digits_val ds)),
                 1 + (if signed then 1 else 0) + length ds)
      else (0, 0))"

definition scaled_ratio :: "bool \<Rightarrow> nat \<Rightarrow> nat \<Rightarrow> int \<Rightarrow> lua_Number" where
  "scaled_ratio neg m b x = (if 0 \<le> x then dbl_of_ratio neg (m * b ^ nat x) 1 else dbl_of_ratio neg m (b ^ nat (- x)))"

definition strtod_dec :: "byte \<Rightarrow> bool \<Rightarrow> byte list \<Rightarrow> lua_Number \<times> nat" where
  "strtod_dec dp neg s =
     (case scan_digits is_digit dp s of (ip, fp, n) \<Rightarrow>
        if ip = [] \<and> fp = [] then (0, 0)
        else case scan_exp 0x65 (drop n s) of (x, k) \<Rightarrow>
          (scaled_ratio neg (digits_val (ip @ fp)) 10 (x - int (length fp)), n + k))"

definition strtod_hex :: "byte \<Rightarrow> bool \<Rightarrow> byte list \<Rightarrow> lua_Number \<times> nat" where
  "strtod_hex dp neg s =
     (case scan_digits is_hex dp s of (ip, fp, n) \<Rightarrow>
        if ip = [] \<and> fp = [] then (dbl_make neg 0 0, 0)
        else case scan_exp 0x70 (drop n s) of (x, k) \<Rightarrow>
          (scaled_ratio neg (hexs_val (ip @ fp)) 2 (x - 4 * int (length fp)), n + k))"

text \<open>What follows the sign. A count of 0 says that no number was found.\<close>

definition strtod_abs :: "byte \<Rightarrow> bool \<Rightarrow> byte list \<Rightarrow> lua_Number \<times> nat" where
  "strtod_abs dp neg s =
     (let l = map to_lower s in
      if take 3 l = [0x69, 0x6e, 0x66] then
        (dbl_make neg 2047 0, if take 8 l = [0x69, 0x6e, 0x66, 0x69, 0x6e, 0x69, 0x74, 0x79] then 8 else 3)
      else if take 3 l = [0x6e, 0x61, 0x6e] then
        (dbl_make neg 2047 (2 ^ 51),
         let r = drop 3 s; seq = takeWhile (\<lambda>b. is_digit b \<or> b = 0x5f \<or> 97 \<le> unat (to_lower b) \<and> unat (to_lower b) \<le> 122) (tl r)
         in if r \<noteq> [] \<and> hd r = 0x28 \<and> take 1 (drop (1 + length seq) r) = [0x29] then 3 + 2 + length seq else 3)
      else if take 2 l = [48, 0x78] then
        (case strtod_hex dp neg (drop 2 s) of (v, n) \<Rightarrow> if n = 0 then (v, 1) else (v, 2 + n))
      else strtod_dec dp neg s)"

text \<open>The value and the number of bytes it was read from: 0 bytes when there is no number.\<close>

definition c_strtod :: "byte \<Rightarrow> byte list \<Rightarrow> lua_Number \<times> nat" where
  "c_strtod dp str =
     (let w = length (takeWhile is_space str); s = drop w str;
          signed = (s \<noteq> [] \<and> (hd s = 0x2b \<or> hd s = 0x2d)); neg = (signed \<and> hd s = 0x2d)
      in case strtod_abs dp neg (if signed then tl s else s) of (v, n) \<Rightarrow>
           if n = 0 then (0, 0) else (v, w + (if signed then 1 else 0) + n))"

lemma c_strtod_examples:
  "c_strtod 0x2e [48, 0x2e, 53, 0x7d] = (0x3FE0000000000000, 3)"
  "c_strtod 0x2e [0x2d, 49, 0x65, 50] = (dbl_of_int (- 100), 4)"
  "c_strtod 0x2e [48, 0x78, 49, 0x46] = (dbl_of_int 31, 4)"
  "c_strtod 0x2e [0x2d, 0x49, 0x6e, 0x66] = (0xFFF0000000000000, 4)"
  "c_strtod 0x2e [0x7d] = (0, 0)"
  by (simp_all add: c_strtod_def strtod_abs_def strtod_dec_def strtod_hex_def scan_digits_def scan_exp_def scaled_ratio_def
      is_space_def is_digit_def is_hex_def hex_val_def hexs_val_def digits_val_def to_lower_def dbl_of_ratio_def
      round_half_even_def nbits.simps dbl_make_def dbl_of_int_def dbl_of_nat_sign_def Let_def)

section \<open>Integers are printed and read exactly\<close>

lemma unat_digit: "d < 10 \<Longrightarrow> unat (48 + word_of_nat d :: byte) = 48 + d"
proof -
  assume "d < 10"
  then have "unat (word_of_nat (48 + d) :: byte) = 48 + d" unfolding unat_of_nat by simp
  then show ?thesis by (simp only: of_nat_add of_nat_numeral)
qed

lemma is_digit_digit: "d < 10 \<Longrightarrow> is_digit (48 + word_of_nat d)"
  by (simp add: is_digit_def unat_digit)

lemma dec_digits_digits: "d \<in> set (dec_digits n) \<Longrightarrow> is_digit d"
proof (induction n rule: dec_digits.induct)
  case (1 n)
  show ?case
  proof (cases "n < 10")
    case True
    with 1 show ?thesis by (simp add: dec_digits.simps is_digit_digit)
  next
    case False
    with 1 show ?thesis by (auto simp: dec_digits.simps [of n] is_digit_digit)
  qed
qed

lemma dec_digits_nonempty [simp]: "dec_digits n \<noteq> []"
  by (subst dec_digits.simps) simp

lemma digits_val_snoc: "digits_val (ds @ [d]) = 10 * digits_val ds + (unat d - 48)"
  by (simp add: digits_val_def)

lemma digits_val_dec_digits [simp]: "digits_val (dec_digits n) = n"
proof (induction n rule: dec_digits.induct)
  case (1 n)
  show ?case
  proof (cases "n < 10")
    case True
    then show ?thesis by (simp add: dec_digits.simps [of n] digits_val_def unat_digit)
  next
    case False
    with 1 show ?thesis by (simp add: dec_digits.simps [of n] digits_val_snoc unat_digit)
  qed
qed

lemma dec_digits_length: "n < 10 ^ length (dec_digits n) \<and> (0 < n \<longrightarrow> 10 ^ (length (dec_digits n) - 1) \<le> n)"
proof (induction n rule: dec_digits.induct)
  case (1 n)
  show ?case
  proof (cases "n < 10")
    case True
    then show ?thesis by (simp add: dec_digits.simps [of n])
  next
    case False
    define l where "l = length (dec_digits (n div 10))"
    have l: "0 < l" by (simp add: l_def)
    have ih: "n div 10 < 10 ^ l" "10 ^ (l - 1) \<le> n div 10" using 1 False by (simp_all add: l_def)
    have "n < 10 ^ Suc l" using ih(1) by (simp add: div_less_iff_less_mult mult.commute)
    moreover have "10 ^ l \<le> n"
    proof -
      have "10 * 10 ^ (l - 1) \<le> 10 * (n div 10)" using ih(2) by simp
      also have "\<dots> \<le> n" by simp
      finally show ?thesis using l by (cases l) simp_all
    qed
    ultimately show ?thesis using False by (simp add: dec_digits.simps [of n] flip: l_def)
  qed
qed

lemma dec_digits_length_le: "0 < n \<Longrightarrow> n < 10 ^ k \<Longrightarrow> length (dec_digits n) \<le> k"
proof (rule ccontr)
  assume n: "0 < n" "n < 10 ^ k" and "\<not> length (dec_digits n) \<le> k"
  then have "(10::nat) ^ k \<le> 10 ^ (length (dec_digits n) - 1)" by (intro power_increasing) auto
  with n dec_digits_length [of n] show False by linarith
qed

lemma dec_digits_shift: "0 < n \<Longrightarrow> dec_digits (n * 10 ^ k) = dec_digits n @ replicate k 48"
proof (induction k)
  case (Suc k)
  have "0 < n * 10 ^ k" using Suc.prems by simp
  then have "\<not> n * 10 ^ Suc k < 10" by simp
  moreover have "n * 10 ^ Suc k div 10 = n * 10 ^ k" by simp
  moreover have "n * 10 ^ Suc k mod 10 = 0" by simp
  ultimately have "dec_digits (n * 10 ^ Suc k) = dec_digits (n * 10 ^ k) @ [48]"
    by (subst dec_digits.simps) (simp only: if_False, simp)
  with Suc show ?case by (simp add: replicate_append_same)
qed simp

lemma hd_dec_digits: "0 < n \<Longrightarrow> hd (dec_digits n) \<noteq> 48"
proof (induction n rule: dec_digits.induct)
  case (1 n)
  show ?case
  proof (cases "n < 10")
    case True
    have "unat (48 + word_of_nat n :: byte) \<noteq> unat (48 :: byte)"
      using True 1 unat_digit [OF True] by simp
    with True show ?thesis by (subst dec_digits.simps) auto
  next
    case False
    with 1 show ?thesis by (simp add: dec_digits.simps [of n])
  qed
qed

lemma fmt_ratio_int:
  assumes "0 < n" "n < 10 ^ N" "0 < q" "0 < N"
  shows "fmt_ratio dp N (n * q) q = dec_digits n"
proof -
  define l where "l = length (dec_digits n)"
  have l: "0 < l" "l \<le> N" using dec_digits_length_le [OF assms(1,2)] by (simp_all add: l_def)
  have x0: "dec_exp (n * q) q = int l - 1" using assms by (simp add: dec_exp_def l_def)
  have k: "nat (int N - 1 - (int l - 1)) = N - l" "int l - 1 \<le> int N - 1" using l by simp_all
  have d0: "round_half_even (n * q * 10 ^ (N - l)) q = n * 10 ^ (N - l)"
    using round_half_even_exact [OF assms(3), of "n * 10 ^ (N - l)"] by (simp add: ac_simps)
  have "n * 10 ^ (N - l) < 10 ^ l * 10 ^ (N - l)" using dec_digits_length [of n] by (simp add: l_def)
  then have ne: "n * 10 ^ (N - l) \<noteq> 10 ^ N" using l(2) by (simp flip: power_add)
  have x: "\<not> (int l - 1 < - 4 \<or> int N \<le> int l - 1)" "0 \<le> int l - 1" "nat (int l - 1) + 1 = l" using l by simp_all
  have ds: "dec_digits (n * 10 ^ (N - l)) = dec_digits n @ replicate (N - l) 48"
    by (rule dec_digits_shift [OF assms(1)])
  have "strip_zeros (replicate (N - l) 48) = []" by (simp add: strip_zeros_def)
  then show ?thesis
    unfolding fmt_ratio_def Let_def x0 if_P [OF k(2)] k(1) d0 if_not_P [OF ne] prod.case if_not_P [OF x(1)]
      if_P [OF x(2)] x(3) ds
    by (simp add: l_def with_point_def)
qed

lemma dbl_ratio_int:
  assumes "dbl_int w = Some k"
  shows "\<exists>q. 0 < q \<and> dbl_ratio w = (nat \<bar>k\<bar> * q, q)"
proof -
  obtain n where n: "dbl_int_abs w = Some n" "nat \<bar>k\<bar> = n" "dbl_exp w \<noteq> 2047"
    using assms by (auto simp: dbl_int_def split: if_splits)
  consider "dbl_exp w = 0" | "1075 \<le> dbl_exp w" | "0 < dbl_exp w" "dbl_exp w < 1075" by linarith
  then show ?thesis
  proof cases
    case 1
    with n have "n = 0" "dbl_mant w = 0" by (auto simp: dbl_int_abs_def dbl_mant_def split: if_splits)
    with 1 n(2) show ?thesis by (simp add: dbl_ratio_def)
  next
    case 2
    with n show ?thesis by (simp add: dbl_int_abs_def dbl_ratio_def)
  next
    case 3
    with n have "n = dbl_mant w div 2 ^ (1075 - dbl_exp w)" "dbl_mant w mod 2 ^ (1075 - dbl_exp w) = 0"
      by (auto simp: dbl_int_abs_def split: if_splits)
    then have "n * 2 ^ (1075 - dbl_exp w) = dbl_mant w" by auto
    with 3 n(2) show ?thesis by (intro exI [of _ "2 ^ (1075 - dbl_exp w)"]) (simp add: dbl_ratio_def)
  qed
qed

definition int_text :: "int \<Rightarrow> byte list" where
  "int_text k = (if k < 0 then [0x2d] else []) @ dec_digits (nat \<bar>k\<bar>)"

lemma dbl_sign_of_int: "\<bar>k\<bar> < 2 ^ 53 \<Longrightarrow> dbl_sign (dbl_of_int k) \<longleftrightarrow> k < 0"
proof -
  assume k: "\<bar>k\<bar> < 2 ^ 53"
  note int = dbl_int_dbl_of_int [OF k]
  have zero: "\<not> dbl_sign 0" by (simp add: dbl_sign_def)
  show ?thesis
  proof (cases "k = 0")
    case True
    then show ?thesis by (simp add: zero)
  next
    case False
    with int show ?thesis by (auto simp: dbl_int_def split: if_splits)
  qed
qed

lemma fmt_g_int:
  assumes "\<bar>k\<bar> < 10 ^ N" "\<bar>k\<bar> < 2 ^ 53" "0 < N"
  shows "fmt_g dp N (dbl_of_int k) = int_text k"
proof -
  note int = dbl_int_dbl_of_int [OF assms(2)]
  obtain q where q: "0 < q" "dbl_ratio (dbl_of_int k) = (nat \<bar>k\<bar> * q, q)" using dbl_ratio_int [OF int] by blast
  have fin: "\<not> isnan (dbl_of_int k)" "\<not> isinf (dbl_of_int k)"
    using int by (auto simp: isnan_def isinf_def dbl_int_def)
  show ?thesis
  proof (cases "k = 0")
    case True
    with fin q show ?thesis
      by (simp add: fmt_g_def int_text_def dec_digits.simps dbl_sign_def)
  next
    case False
    then have n: "0 < nat \<bar>k\<bar>" "nat \<bar>k\<bar> < 10 ^ N" using assms(1) by (simp_all add: nat_less_iff)
    have p: "nat \<bar>k\<bar> * q \<noteq> 0" using n(1) q(1) by simp
    show ?thesis
      unfolding fmt_g_def dbl_sign_of_int [OF assms(2)] if_not_P [OF fin(1)] if_not_P [OF fin(2)] q(2) prod.case
        if_not_P [OF p] fmt_ratio_int [OF n q(1) assms(3)] int_text_def ..
  qed
qed

lemma dbl_of_ratio_int:
  assumes "n < 2 ^ 53"
  shows "dbl_of_ratio s n 1 = (if n = 0 then dbl_make s 0 0 else dbl_of_nat_sign s n)"
proof (cases "n = 0")
  case True
  then show ?thesis by (simp add: dbl_of_ratio_def)
next
  case False
  define b where "b = nbits n"
  note nb = nbits_bounds [OF False, folded b_def]
  have b0: "0 < b" using False unfolding b_def by (subst nbits.simps) simp
  have b53: "b \<le> 53"
  proof (rule ccontr)
    assume "\<not> b \<le> 53"
    then have "(2::nat) ^ 53 \<le> 2 ^ (b - 1)" by (intro power_increasing) auto
    with nb assms show False by linarith
  qed
  have one: "nbits 1 = 1" by (simp add: nbits.simps)
  have e: "(if 0 \<le> int b - 1 then 1 * 2 ^ nat (int b - 1) \<le> n else 1 \<le> n * 2 ^ nat (- (int b - 1)))"
    using b0 nb by (simp add: nat_diff_distrib)
  have u: "max (int b - 1 - 52) (- 1074) = int b - 53" using b0 by simp
  define m where "m = n * 2 ^ (53 - b)"
  have "2 ^ (b - 1) * 2 ^ (53 - b) \<le> m" "m < 2 ^ b * 2 ^ (53 - b)" using nb by (simp_all add: m_def)
  then have m: "2 ^ 52 \<le> m" "m < 2 ^ 53" using b0 b53 by (simp_all flip: power_add)
  have rnd: "(if 0 \<le> int b - 53 then round_half_even n (1 * 2 ^ nat (int b - 53))
      else round_half_even (n * 2 ^ nat (- (int b - 53))) 1) = m"
  proof (cases "b = 53")
    case True
    then show ?thesis using round_half_even_exact [of 1 n] by (simp add: m_def)
  next
    case False
    then have "nat (53 - int b) = 53 - b" "\<not> 0 \<le> int b - 53" using b53 by linarith+
    then show ?thesis using round_half_even_exact [of 1 m] by (simp add: m_def)
  qed
  have bits: "nat (int b - 53 + 1074) = b + 1021" by simp
  have small: "\<not> 2047 * 2 ^ 52 \<le> (b + 1021) * 2 ^ 52 + m"
  proof -
    have "(b + 1021) * 2 ^ 52 \<le> 1074 * 2 ^ 52" using b53 by (intro mult_le_mono1) simp
    with m(2) show ?thesis by simp
  qed
  have split: "(b + 1021) * 2 ^ 52 + m = (b + 1022) * 2 ^ 52 + (m - 2 ^ 52)" using m(1) by (simp add: algebra_simps)
  have "dbl_of_ratio s n 1 = dbl_make s 0 ((b + 1021) * 2 ^ 52 + m)"
    unfolding dbl_of_ratio_def if_not_P [OF False] one Let_def b_def [symmetric] of_nat_1 if_P [OF e] u rnd bits
      if_not_P [OF small] ..
  also have "\<dots> = dbl_make s (b + 1022) (m - 2 ^ 52)"
    unfolding split dbl_make_def by (simp only: mult_0 add_0_right add.assoc)
  finally show ?thesis
    using False b53 by (simp add: dbl_of_nat_sign_def Let_def m_def flip: b_def)
qed

text \<open>What must follow a number for it to end there.\<close>

definition number_ends :: "byte list \<Rightarrow> bool" where
  "number_ends rest \<longleftrightarrow> rest = [] \<or> hd rest \<in> {0, 32, 9, 10, 13, 0x2c, 0x5d, 0x7d, 0x3a, 0x22}"

lemma take_digits: "number_ends rest \<Longrightarrow> takeWhile is_digit (dec_digits n @ rest) = dec_digits n"
proof -
  assume "number_ends rest"
  then have "takeWhile is_digit rest = []" by (cases rest) (auto simp: number_ends_def is_digit_def)
  with dec_digits_digits show ?thesis by (subst takeWhile_append2) auto
qed

lemma strtod_dec_int:
  assumes "number_ends rest" "rest = [] \<or> hd rest \<noteq> dp"
  shows "strtod_dec dp neg (dec_digits n @ rest) = (dbl_of_ratio neg n 1, length (dec_digits n))"
proof -
  have "scan_digits is_digit dp (dec_digits n @ rest) = (dec_digits n, [], length (dec_digits n))"
    using assms by (auto simp: scan_digits_def take_digits Let_def number_ends_def)
  moreover have "scan_exp 0x65 rest = (0, 0)"
    using assms(1) by (cases rest) (auto simp: scan_exp_def number_ends_def to_lower_def)
  ultimately show ?thesis by (simp add: strtod_dec_def scaled_ratio_def)
qed

lemma digit_range: "is_digit b \<Longrightarrow> to_lower b = b \<and> b \<noteq> 0x69 \<and> b \<noteq> 0x6e \<and> b \<noteq> 0x2b \<and> b \<noteq> 0x2d \<and> b \<noteq> 0x78 \<and> \<not> is_space b"
  by (auto simp: is_digit_def to_lower_def is_space_def)

lemma strtod_abs_int:
  assumes "number_ends rest" "rest = [] \<or> hd rest \<noteq> dp"
  shows "strtod_abs dp neg (dec_digits n @ rest) = (dbl_of_ratio neg n 1, length (dec_digits n))"
proof -
  obtain d ds where ds: "dec_digits n = d # ds" by (cases "dec_digits n") auto
  have d: "is_digit d" using dec_digits_digits [of d n] ds by simp
  have second: "take 2 (map to_lower (dec_digits n @ rest)) \<noteq> [48, 0x78]"
  proof (cases ds)
    case Nil
    with ds assms(1) show ?thesis by (cases rest) (auto simp: number_ends_def to_lower_def)
  next
    case (Cons d2 ds')
    then have "is_digit d2" using dec_digits_digits [of d2 n] ds by simp
    with digit_range [of d2] ds Cons show ?thesis by auto
  qed
  with ds digit_range [OF d] strtod_dec_int [OF assms, of neg n] show ?thesis
    by (auto simp: strtod_abs_def Let_def)
qed

lemma c_strtod_int:
  assumes "number_ends rest" "rest = [] \<or> hd rest \<noteq> dp" "\<bar>k\<bar> < 2 ^ 53"
  shows "c_strtod dp (int_text k @ rest) = (dbl_of_int k, length (int_text k))"
proof -
  obtain d ds where ds: "dec_digits (nat \<bar>k\<bar>) = d # ds" by (cases "dec_digits (nat \<bar>k\<bar>)") auto
  have d: "is_digit d" using dec_digits_digits [of d "nat \<bar>k\<bar>"] ds by simp
  have n: "nat \<bar>k\<bar> < 2 ^ 53" using assms(3) by (simp add: nat_less_iff)
  have val: "dbl_of_ratio (k < 0) (nat \<bar>k\<bar>) 1 = dbl_of_int k"
    unfolding dbl_of_ratio_int [OF n] by (simp add: dbl_of_int_def dbl_of_nat_sign_def dbl_make_def)
  note digits = strtod_abs_int [OF assms(1,2), of "k < 0" "nat \<bar>k\<bar>", unfolded val]
  show ?thesis
  proof (cases "k < 0")
    case True
    have "takeWhile is_space (0x2d # dec_digits (nat \<bar>k\<bar>) @ rest) = []" by (simp add: is_space_def)
    with True digits show ?thesis by (simp add: c_strtod_def int_text_def Let_def)
  next
    case False
    have "takeWhile is_space (dec_digits (nat \<bar>k\<bar>) @ rest) = []" using digit_range [OF d] by (simp add: ds)
    with False digits digit_range [OF d] ds show ?thesis by (simp add: c_strtod_def int_text_def Let_def)
  qed
qed

section \<open>How long the text of a double is\<close>

lemma scale_up_le: "q \<le> 10 ^ j * p \<Longrightarrow> scale_up p q k \<le> k + j"
proof (induction p q k arbitrary: j rule: scale_up.induct)
  case (1 p q k)
  show ?case
  proof (cases "p = 0 \<or> q \<le> p")
    case True
    then show ?thesis by (subst scale_up.simps) simp
  next
    case False
    with "1.prems" obtain j' where j: "j = Suc j'" by (cases j) auto
    with "1.prems" have "q \<le> 10 ^ j' * (10 * p)" by (simp add: algebra_simps)
    from "1.IH" [OF False this] False j show ?thesis by (subst scale_up.simps) simp
  qed
qed

lemma scale_up_below: "0 < p \<Longrightarrow> p < q \<Longrightarrow> p * 10 ^ (scale_up p q k - k) < 10 * q \<and> k < scale_up p q k"
proof (induction p q k rule: scale_up.induct)
  case (1 p q k)
  have step: "scale_up p q k = scale_up (10 * p) q (Suc k)" using "1.prems" by (subst scale_up.simps) simp
  show ?case
  proof (cases "10 * p < q")
    case True
    with 1 have ih: "10 * p * 10 ^ (scale_up (10 * p) q (Suc k) - Suc k) < 10 * q" "Suc k < scale_up (10 * p) q (Suc k)"
      by auto
    have "10 * p * 10 ^ (scale_up (10 * p) q (Suc k) - Suc k) = p * 10 ^ (scale_up (10 * p) q (Suc k) - k)"
      using ih(2) by (simp add: Suc_diff_Suc flip: power_Suc)
    with ih step show ?thesis by simp
  next
    case False
    then have "scale_up (10 * p) q (Suc k) = Suc k" by (subst scale_up.simps) simp
    with step "1.prems" show ?thesis by simp
  qed
qed

text \<open>The bounds of the decimal exponent, and what it bounds.\<close>

lemma dec_exp_bound:
  assumes "0 < p" "0 < q" "p < 2 ^ 2000" "q \<le> 2 ^ 2000"
  shows "\<bar>dec_exp p q\<bar> \<le> 2000"
    and "0 \<le> dec_exp p q \<Longrightarrow> p < q * 10 ^ (nat (dec_exp p q) + 1)"
    and "dec_exp p q < 0 \<Longrightarrow> p * 10 ^ nat (- dec_exp p q) < 10 * q"
proof -
  have bound: "\<bar>dec_exp p q\<bar> \<le> 2000 \<and> (0 \<le> dec_exp p q \<longrightarrow> p < q * 10 ^ (nat (dec_exp p q) + 1)) \<and>
      (dec_exp p q < 0 \<longrightarrow> p * 10 ^ nat (- dec_exp p q) < 10 * q)"
  proof (cases "q \<le> p")
    case True
    define l where "l = length (dec_digits (p div q))"
    have l: "0 < l" by (simp add: l_def)
    have pq: "p div q < 10 ^ l" "10 ^ (l - 1) \<le> p div q"
      using dec_digits_length [of "p div q"] True assms(2) by (simp_all add: l_def div_greater_zero_iff)
    have "(2::nat) ^ (l - 1) \<le> 10 ^ (l - 1)" by (intro power_mono) simp_all
    also have "\<dots> \<le> p" using pq(2) div_le_dividend le_trans by blast
    finally have "(2::nat) ^ (l - 1) < 2 ^ 2000" using assms(3) by (rule le_less_trans)
    then have "l - 1 < 2000" by (rule power_less_imp_less_exp [rotated]) simp
    moreover have "p < q * 10 ^ l" using pq(1) assms(2) by (simp add: div_less_iff_less_mult mult.commute)
    moreover obtain l' where "l = Suc l'" using l by (cases l) auto
    ultimately show ?thesis using True by (simp add: dec_exp_def flip: l_def)
  next
    case False
    have "q \<le> 10 ^ 2000 * p"
    proof -
      have "(2::nat) ^ 2000 \<le> 10 ^ 2000 * 1" unfolding mult_1_right by (rule power_mono) simp_all
      also have "10 ^ 2000 * 1 \<le> 10 ^ 2000 * p" by (rule mult_le_mono2) (use assms(1) in simp)
      finally show ?thesis using assms(4) by (rule le_trans [rotated])
    qed
    from scale_up_le [OF this, of 0] scale_up_below [OF assms(1), of q 0] False show ?thesis
      by (simp add: dec_exp_def)
  qed
  show "\<bar>dec_exp p q\<bar> \<le> 2000" "0 \<le> dec_exp p q \<Longrightarrow> p < q * 10 ^ (nat (dec_exp p q) + 1)"
    "dec_exp p q < 0 \<Longrightarrow> p * 10 ^ nat (- dec_exp p q) < 10 * q"
    using bound by blast+
qed

lemma round_half_even_le: "0 < b \<Longrightarrow> a < c * b \<Longrightarrow> round_half_even a b \<le> c"
proof -
  assume "0 < b" "a < c * b"
  then have "a div b < c" by (simp add: div_less_iff_less_mult)
  then show ?thesis by (simp add: round_half_even_def Let_def)
qed

lemma length_strip_zeros: "length (strip_zeros ds) \<le> length ds"
  using length_dropWhile_le [of "\<lambda>d. d = 48" "rev ds"] by (simp add: strip_zeros_def)

lemma length_with_point: "length (with_point dp ip fp) \<le> length ip + length fp + 1"
  by (simp add: with_point_def)

lemma length_exp_text: "\<bar>x\<bar> \<le> 2001 \<Longrightarrow> length (exp_text x) \<le> 7"
proof -
  assume "\<bar>x\<bar> \<le> 2001"
  then have "nat \<bar>x\<bar> < 10 ^ 4" by simp
  then have "length (dec_digits (nat \<bar>x\<bar>)) \<le> 4"
    using dec_digits_length_le [of "nat \<bar>x\<bar>" 4] by (cases "nat \<bar>x\<bar> = 0") (simp_all add: dec_digits.simps [of 0])
  then show ?thesis by (simp add: exp_text_def)
qed

lemma length_fmt_ratio:
  assumes "0 < p" "0 < q" "p < 2 ^ 2000" "q \<le> 2 ^ 2000" "0 < N" "N \<le> 14"
  shows "length (fmt_ratio dp N p q) \<le> 23"
proof -
  define x0 where "x0 = dec_exp p q"
  note x0 = dec_exp_bound [OF assms(1-4), folded x0_def]
  define d0 where "d0 = (if x0 \<le> int N - 1 then round_half_even (p * 10 ^ nat (int N - 1 - x0)) q
                else round_half_even p (q * 10 ^ nat (x0 - (int N - 1))))"
  have "d0 \<le> 10 ^ N"
  proof (cases "x0 \<le> int N - 1")
    case True
    have "p * 10 ^ nat (int N - 1 - x0) < 10 ^ N * q"
    proof (cases "0 \<le> x0")
      case nn: True
      have e: "nat x0 + 1 + nat (int N - 1 - x0) = N" using True nn assms(5) by linarith
      have "p * 10 ^ nat (int N - 1 - x0) < q * 10 ^ (nat x0 + 1) * 10 ^ nat (int N - 1 - x0)"
        using x0(2) [OF nn] by simp
      also have "\<dots> = q * 10 ^ N"
        unfolding mult.assoc power_add [symmetric] e ..
      finally show ?thesis by (simp add: mult.commute)
    next
      case neg: False
      have "nat (int N - 1 - x0) = (N - 1) + nat (- x0)" using neg assms(5) by linarith
      then have "p * 10 ^ nat (int N - 1 - x0) = p * 10 ^ nat (- x0) * 10 ^ (N - 1)" by (simp add: power_add)
      also have "\<dots> < 10 * q * 10 ^ (N - 1)" using x0(3) neg by simp
      also have "\<dots> = 10 ^ N * q" using assms(5) by (cases N) simp_all
      finally show ?thesis .
    qed
    with True assms(2) show ?thesis by (simp add: d0_def round_half_even_le)
  next
    case False
    then have nn: "0 \<le> x0" using assms(5) by linarith
    have "nat x0 + 1 = N + nat (x0 - (int N - 1))" using False by linarith
    then have "p < 10 ^ N * (q * 10 ^ nat (x0 - (int N - 1)))"
      using x0(2) [OF nn] by (simp add: power_add ac_simps)
    with False assms(2) show ?thesis by (simp add: d0_def round_half_even_le)
  qed
  define d x where "d = (if d0 = 10 ^ N then 10 ^ (N - 1) else d0)" and "x = (if d0 = 10 ^ N then x0 + 1 else x0)"
  have "d < 10 ^ N" using \<open>d0 \<le> 10 ^ N\<close> assms(5) by (auto simp: d_def)
  then have ds: "length (dec_digits d) \<le> 14"
    using dec_digits_length_le [of d N] assms(5,6) by (cases "d = 0") (simp_all add: dec_digits.simps [of 0])
  have x: "\<bar>x\<bar> \<le> 2001" using x0(1) by (auto simp: x_def)
  have txt_eq: "fmt_ratio dp N p q =
     (let ds = dec_digits d in
      if x < - 4 \<or> int N \<le> x then with_point dp (take 1 ds) (strip_zeros (drop 1 ds)) @ exp_text x
      else if 0 \<le> x then with_point dp (take (nat x + 1) ds) (strip_zeros (drop (nat x + 1) ds))
      else with_point dp [48] (replicate (nat (- x) - 1) 48 @ strip_zeros ds))"
    unfolding fmt_ratio_def Let_def x0_def [symmetric] d0_def [symmetric] by (simp add: d_def x_def)
  have wp: "length (with_point dp (take k (dec_digits d)) (strip_zeros (drop k (dec_digits d)))) \<le> 15" for k
    using length_with_point [of dp "take k (dec_digits d)" "strip_zeros (drop k (dec_digits d))"]
      length_strip_zeros [of "drop k (dec_digits d)"] ds by simp
  have lead: "length (with_point dp [48] (replicate (nat (- x) - 1) 48 @ strip_zeros (dec_digits d))) \<le> 20"
    if "\<not> x < - 4"
    using length_with_point [of dp "[48]" "replicate (nat (- x) - 1) 48 @ strip_zeros (dec_digits d)"]
      length_strip_zeros [of "dec_digits d"] ds that by simp
  consider "x < - 4 \<or> int N \<le> x" | "\<not> (x < - 4 \<or> int N \<le> x)" "0 \<le> x" | "\<not> (x < - 4 \<or> int N \<le> x)" "\<not> 0 \<le> x" by blast
  then show ?thesis
  proof cases
    case 1
    have "length (with_point dp (take 1 (dec_digits d)) (strip_zeros (drop 1 (dec_digits d))) @ exp_text x) \<le> 22"
      using wp [of 1] length_exp_text [OF x] by (simp only: length_append)
    then show ?thesis unfolding txt_eq Let_def if_P [OF 1] by (rule le_trans) simp
  next
    case 2
    show ?thesis unfolding txt_eq Let_def if_not_P [OF 2(1)] if_P [OF 2(2)] by (rule le_trans [OF wp]) simp
  next
    case 3
    then have "\<not> x < - 4" by simp
    from lead [OF this] show ?thesis
      unfolding txt_eq Let_def if_not_P [OF 3(1)] if_not_P [OF 3(2)] by (rule le_trans) simp
  qed
qed

lemma length_fmt_g:
  assumes "0 < N" "N \<le> 14"
  shows "length (fmt_g dp N w) \<le> 24"
proof -
  obtain p q where pq: "dbl_ratio w = (p, q)" by fastforce
  have mant: "dbl_mant w < 2 ^ 53" using dbl_frac_less [of w] by (auto simp: dbl_mant_def)
  have pow: "(2::nat) ^ 53 * 2 ^ k \<le> 2 ^ 2000" "(2::nat) ^ k \<le> 2 ^ 2000" if "k \<le> 1075" for k
    unfolding power_add [symmetric] by (rule power_increasing; use that in simp)+
  have "p < 2 ^ 53 * 2 ^ (dbl_exp w - 1075) \<and> 0 < q \<and> q \<le> 2 ^ 2000"
  proof (cases "1075 \<le> dbl_exp w")
    case True
    with pq have "p = dbl_mant w * 2 ^ (dbl_exp w - 1075)" "q = 1" by (auto simp: dbl_ratio_def Let_def)
    with mant pow(2) [of 0] show ?thesis by simp
  next
    case False
    then have "\<not> 1075 \<le> max 1 (dbl_exp w)" by simp
    from pq [unfolded dbl_ratio_def Let_def if_not_P [OF this]]
    have "p = dbl_mant w" "q = 2 ^ (1075 - max 1 (dbl_exp w))" by simp_all
    with mant False pow(2) [of "1075 - max 1 (dbl_exp w)"] show ?thesis by simp
  qed
  moreover have "dbl_exp w - 1075 \<le> 1075" using dbl_exp_less [of w] by simp
  ultimately have b: "p < 2 ^ 2000" "0 < q" "q \<le> 2 ^ 2000"
    using pow(1) [of "dbl_exp w - 1075"] less_le_trans by blast+
  have "length (fmt_ratio dp N p q) \<le> 23" if "p \<noteq> 0"
    using length_fmt_ratio [OF _ b(2,1,3) assms] that by blast
  then show ?thesis unfolding fmt_g_def pq prod.case by (auto split: if_splits)
qed

end
