(* ===== verification/Lua_Call.thy ===== *)
theory Lua_Call
  imports Lev_Buffer
begin

text \<open>
  Functions that can raise a Lua error after they have changed something: the error leaves the state as it is
  then for the caller of \<open>pcall\<close>. Their result is a \<open>jres\<close>: a value and a state, a message and a state, or a
  fault that ends the process. With the rules by which properties of such results are proved along the
  code.
\<close>

section \<open>Results with a state\<close>

datatype ('s, 'a) jres = Done 'a 's | Raise "byte list" 's | Fault fault

definition bind_j :: "('s, 'a) jres \<Rightarrow> ('a \<Rightarrow> 's \<Rightarrow> ('s, 'b) jres) \<Rightarrow> ('s, 'b) jres" where
  "bind_j m f = (case m of Done a s \<Rightarrow> f a s | Raise e s \<Rightarrow> Raise e s | Fault e \<Rightarrow> Fault e)"

lemma bind_j_simps [simp]:
  "bind_j (Done a s) f = f a s" "bind_j (Raise e s) f = Raise e s" "bind_j (Fault x) f = Fault x"
  by (simp_all add: bind_j_def)

lemma bind_j_cong [fundef_cong]:
  "m = m' \<Longrightarrow> (\<And>a s. m' = Done a s \<Longrightarrow> f a s = g a s) \<Longrightarrow> bind_j m f = bind_j m' g"
  by (cases m') simp_all

text \<open>A call that does not raise, on the whole state.\<close>

definition lift_j :: "'s res \<Rightarrow> ('s, unit) jres" where
  "lift_j r = (case r of Inl e \<Rightarrow> Fault e | Inr s \<Rightarrow> Done () s)"

lemma lift_j_simps [simp]: "lift_j (Inl e) = Fault e" "lift_j (Inr s) = Done () s"
  by (simp_all add: lift_j_def)

text \<open>A call that neither raises nor changes the state, and one that may raise in the state \<open>st\<close>.\<close>

definition bind_r :: "'r res \<Rightarrow> ('r \<Rightarrow> ('s, 'b) jres) \<Rightarrow> ('s, 'b) jres" where
  "bind_r r f = (case r of Inl e \<Rightarrow> Fault e | Inr x \<Rightarrow> f x)"

lemma bind_r_simps [simp]: "bind_r (Inl e) f = Fault e" "bind_r (Inr x) f = f x"
  by (simp_all add: bind_r_def)

lemma bind_r_cong [fundef_cong]: "r = r' \<Longrightarrow> (\<And>x. r' = Inr x \<Longrightarrow> f x = g x) \<Longrightarrow> bind_r r f = bind_r r' g"
  by (cases r') simp_all

definition raise_on :: "'r res \<Rightarrow> 's \<Rightarrow> ('s, 'r) jres" where
  "raise_on r st = (case r of Inl (Lua_error m) \<Rightarrow> Raise (ascii m) st | Inl e \<Rightarrow> Fault e | Inr x \<Rightarrow> Done x st)"

lemma raise_on_simps [simp]:
  "raise_on (Inr x) st = Done x st" "raise_on (Inl (Lua_error m)) st = Raise (ascii m) st"
  by (simp_all add: raise_on_def)

definition luaL_checkinteger :: "lua_lib \<Rightarrow> lval \<Rightarrow> int res" where
  "luaL_checkinteger L v = bind_res (luaL_checknumber L v) (c_to_int (- (2 ^ 63)) (2 ^ 63 - 1))"

section \<open>Properties of results\<close>

text \<open>\<open>returns P\<close>: a value that is returned satisfies \<open>P\<close>, with its state.\<close>

definition returns :: "('r \<Rightarrow> 's \<Rightarrow> bool) \<Rightarrow> ('s, 'r) jres \<Rightarrow> bool" where
  "returns P r \<longleftrightarrow> (case r of Done v st \<Rightarrow> P v st | _ \<Rightarrow> True)"

lemma returns_simps [simp]:
  "returns P (Done v st) = P v st" "returns P (Raise m st)" "returns P (Fault e)"
  by (simp_all add: returns_def)

lemma returns_bind:
  "returns Q m \<Longrightarrow> (\<And>v st. Q v st \<Longrightarrow> returns P (f v st)) \<Longrightarrow> returns P (bind_j m f)"
  by (cases m) simp_all

lemma returns_bind_r: "(\<And>x. r = Inr x \<Longrightarrow> returns P (f x)) \<Longrightarrow> returns P (bind_r r f)"
  by (cases r) simp_all

text \<open>A result that leaves a state with \<open>I\<close>, whether it returns or raises.\<close>

definition leaves :: "('s \<Rightarrow> bool) \<Rightarrow> ('s, 'r) jres \<Rightarrow> bool" where
  "leaves I r \<longleftrightarrow> (case r of Done x s \<Rightarrow> I s | Raise m s \<Rightarrow> I s | Fault e \<Rightarrow> True)"

lemma leaves_simps [simp]:
  "leaves I (Done x s) = I s" "leaves I (Raise m s) = I s" "leaves I (Fault e)"
  by (simp_all add: leaves_def)

lemma leaves_bind: "leaves I m \<Longrightarrow> (\<And>x s. m = Done x s \<Longrightarrow> I s \<Longrightarrow> leaves I (f x s)) \<Longrightarrow> leaves I (bind_j m f)"
  by (cases m) simp_all

lemma leaves_raise_on: "I s \<Longrightarrow> leaves I (raise_on r s)"
  by (auto simp: raise_on_def split: sum.splits fault.splits)

end
