(* ===== verification/Json_Base.thy ===== *)
theory Json_Base
  imports C_Number Lua_Call
begin

text \<open>
  The parts of \<open>src/lev_new_json.c\<close> the encoder and the decoder share: the locale workaround around
  the C library (\<open>fpconv_*\<close>), the string buffer on a memory slice (\<open>memslice_wrap_strbuf_*\<close> and the
  \<open>strbuf_*\<close> macros), the configuration with its lookup tables, and the functions that change it.
\<close>

section \<open>Numbers and the locale\<close>

text \<open>\<open>dp\<close> is \<open>locale_decimal_point\<close>, which is the decimal point of the C library.\<close>

definition valid_number_character :: "byte \<Rightarrow> bool" where
  "valid_number_character ch \<longleftrightarrow>
     0x30 \<le> sint ch \<and> sint ch \<le> 0x39 \<or> ch = 0x2d \<or> ch = 0x2b \<or> ch = 0x2e \<or>
     (let lower_ch = or ch 0x20 in 0x61 \<le> sint lower_ch \<and> sint lower_ch \<le> 0x79)"

definition strtod_buffer_size :: "byte list \<Rightarrow> nat" where
  "strtod_buffer_size s = length (takeWhile valid_number_character s)"

text \<open>\<open>strchr\<close> and the assignment through its result.\<close>

fun replace_first :: "byte \<Rightarrow> byte \<Rightarrow> byte list \<Rightarrow> byte list" where
  "replace_first a b [] = []"
| "replace_first a b (x # xs) = (if x = a then b # xs else x # replace_first a b xs)"

text \<open>The value and how far the end pointer is from the start.\<close>

definition fpconv_strtod :: "byte \<Rightarrow> byte list \<Rightarrow> lua_Number \<times> nat" where
  "fpconv_strtod dp nptr =
     (if dp = 0x2e then c_strtod dp nptr
      else let buflen = strtod_buffer_size nptr in
        if buflen = 0 then (0, 0)
        else c_strtod dp (replace_first 0x2e dp (take buflen nptr)))"

definition set_number_format :: "int \<Rightarrow> byte list res" where
  "set_number_format precision =
     (if 1 \<le> precision \<and> precision \<le> 14 then
        let d1 = precision div 10; d2 = precision mod 10 in
        Inr ([0x25, 0x2e] @ (if d1 \<noteq> 0 then [0x30 + word_of_int d1] else []) @ [0x30 + word_of_int d2, 0x67])
      else Inl Assert_failed)"

text \<open>\<open>snprintf\<close> with a format of that shape: the precision is read back from the format.\<close>

definition snprintf_g :: "byte \<Rightarrow> byte list \<Rightarrow> lua_Number \<Rightarrow> byte list" where
  "snprintf_g dp fmt num = fmt_g dp (digits_val (butlast (drop 2 fmt))) num"

definition fpconv_g_fmt :: "byte \<Rightarrow> lua_Number \<Rightarrow> int \<Rightarrow> byte list res" where
  "fpconv_g_fmt dp num precision =
     bind_res (set_number_format precision) (\<lambda>fmt.
       let buf = snprintf_g dp fmt num in
       Inr (if dp = 0x2e then buf else map (\<lambda>b. if b = dp then 0x2e else b) buf))"

section \<open>String buffers\<close>

text \<open>\<open>s->ms\<close> is allocated for the buffer; a buffer that was freed is not used again.\<close>

record strbuf =
  sb_ms :: MemSlice
  sb_length :: nat

definition STRBUF_DEFAULT_SIZE :: nat where
  "STRBUF_DEFAULT_SIZE = 1023"

type_synonym 'h sb = "strbuf \<times> 'h"

definition memslice_wrap_strbuf_init :: "int \<Rightarrow> 'a slab_scheme \<Rightarrow> 'a slab_scheme sb res" where
  "memslice_wrap_strbuf_init len h =
     (let sz = (if len \<le> 0 then STRBUF_DEFAULT_SIZE else nat len + 1) in
      case lev_slab_getBlock sz h of (mb, h1) \<Rightarrow>
        bind_res (lev_slab_incRef mb h1) (\<lambda>(_, h2).
          let ms = \<lparr>ms_mb = the mb, ms_slice = 0, ms_until = sz\<rparr> in
          bind_res (lev_memslice_ensure_null ms 0 h2) (\<lambda>(ms', h3).
            Inr (\<lparr>sb_ms = ms', sb_length = 0\<rparr>, h3))))"

text \<open>The struct itself is \<open>malloc\<close>ed by \<open>strbuf_new\<close>.\<close>

definition memslice_wrap_strbuf_new :: "int \<Rightarrow> 'a slab_scheme \<Rightarrow> 'a slab_scheme sb res" where
  "memslice_wrap_strbuf_new len h = memslice_wrap_strbuf_init len h"

definition memslice_wrap_strbuf_free :: "strbuf \<Rightarrow> 'a slab_scheme \<Rightarrow> 'a slab_scheme res" where
  "memslice_wrap_strbuf_free s h =
     bind_res (lev_slab_decRef (Some (ms_mb (sb_ms s))) h) (\<lambda>(_, h'). Inr h')"

definition memslice_wrap_strbuf_string :: "strbuf \<Rightarrow> 'a slab_scheme \<Rightarrow> byte list res" where
  "memslice_wrap_strbuf_string s h = block_read h (ms_mb (sb_ms s)) (ms_slice (sb_ms s)) (sb_length s)"

definition strbuf_reset :: "strbuf \<Rightarrow> strbuf" where
  "strbuf_reset s = s\<lparr>sb_length := 0\<rparr>"

text \<open>The macros: an operation on the slice at the current length, and the new length.\<close>

definition strbuf_append_char :: "byte \<Rightarrow> 'a slab_scheme sb \<Rightarrow> 'a slab_scheme sb res" where
  "strbuf_append_char c = (\<lambda>(s, h). bind_res (lev_memslice_append_char (sb_ms s) (sb_length s) c h)
     (\<lambda>(ms, h'). Inr (\<lparr>sb_ms = ms, sb_length = sb_length s + 1\<rparr>, h')))"

definition strbuf_append_mem :: "byte list \<Rightarrow> 'a slab_scheme sb \<Rightarrow> 'a slab_scheme sb res" where
  "strbuf_append_mem c = (\<lambda>(s, h). bind_res (lev_memslice_append_mem (sb_ms s) (sb_length s) c h)
     (\<lambda>(ms, h'). Inr (\<lparr>sb_ms = ms, sb_length = sb_length s + length c\<rparr>, h')))"

definition strbuf_append_string :: "byte list \<Rightarrow> 'a slab_scheme sb \<Rightarrow> 'a slab_scheme sb res" where
  "strbuf_append_string c = (\<lambda>(s, h). bind_res (lev_memslice_append_string (sb_ms s) (sb_length s) c h)
     (\<lambda>(n, ms, h'). Inr (\<lparr>sb_ms = ms, sb_length = sb_length s + n\<rparr>, h')))"

definition strbuf_append_char_unsafe :: "byte \<Rightarrow> 'a slab_scheme sb \<Rightarrow> 'a slab_scheme sb res" where
  "strbuf_append_char_unsafe c = (\<lambda>(s, h). bind_res (lev_memslice_append_char_unsafe (sb_ms s) (sb_length s) c h)
     (\<lambda>(ms, h'). Inr (\<lparr>sb_ms = ms, sb_length = sb_length s + 1\<rparr>, h')))"

definition strbuf_append_mem_unsafe :: "byte list \<Rightarrow> 'a slab_scheme sb \<Rightarrow> 'a slab_scheme sb res" where
  "strbuf_append_mem_unsafe c = (\<lambda>(s, h). bind_res (lev_memslice_append_mem_unsafe (sb_ms s) (sb_length s) c h)
     (\<lambda>(ms, h'). Inr (\<lparr>sb_ms = ms, sb_length = sb_length s + length c\<rparr>, h')))"

definition strbuf_ensure_empty_length :: "nat \<Rightarrow> 'a slab_scheme sb \<Rightarrow> 'a slab_scheme sb res" where
  "strbuf_ensure_empty_length l = (\<lambda>(s, h).
     bind_res (lev_memslice_ensure_empty_length (sb_ms s) (sb_length s + l) h)
       (\<lambda>(ms, h'). Inr (s\<lparr>sb_ms := ms\<rparr>, h')))"

definition strbuf_ensure_null :: "'a slab_scheme sb \<Rightarrow> 'a slab_scheme sb res" where
  "strbuf_ensure_null = (\<lambda>(s, h). bind_res (lev_memslice_ensure_null (sb_ms s) (sb_length s) h)
     (\<lambda>(ms, h'). Inr (s\<lparr>sb_ms := ms\<rparr>, h')))"

text \<open>Bytes written through \<open>strbuf_empty_ptr\<close>, and \<open>strbuf_extend_length\<close>.\<close>

definition strbuf_print :: "byte list \<Rightarrow> 'a slab_scheme sb \<Rightarrow> 'a slab_scheme sb res" where
  "strbuf_print c = (\<lambda>(s, h). bind_res (slice_store (sb_ms s) (sb_length s) (c @ [0]) h)
     (\<lambda>h'. Inr (s\<lparr>sb_length := sb_length s + length c\<rparr>, h')))"

section \<open>The configuration\<close>

datatype json_token_type =
    T_OBJ_BEGIN | T_OBJ_END | T_ARR_BEGIN | T_ARR_END | T_STRING | T_NUMBER | T_BOOLEAN | T_NULL
  | T_COLON | T_COMMA | T_END | T_WHITESPACE | T_ERROR | T_UNKNOWN

fun json_token_type_name :: "json_token_type \<Rightarrow> byte list" where
  "json_token_type_name T_OBJ_BEGIN = ascii ''T_OBJ_BEGIN''"
| "json_token_type_name T_OBJ_END = ascii ''T_OBJ_END''"
| "json_token_type_name T_ARR_BEGIN = ascii ''T_ARR_BEGIN''"
| "json_token_type_name T_ARR_END = ascii ''T_ARR_END''"
| "json_token_type_name T_STRING = ascii ''T_STRING''"
| "json_token_type_name T_NUMBER = ascii ''T_NUMBER''"
| "json_token_type_name T_BOOLEAN = ascii ''T_BOOLEAN''"
| "json_token_type_name T_NULL = ascii ''T_NULL''"
| "json_token_type_name T_COLON = ascii ''T_COLON''"
| "json_token_type_name T_COMMA = ascii ''T_COMMA''"
| "json_token_type_name T_END = ascii ''T_END''"
| "json_token_type_name T_WHITESPACE = ascii ''T_WHITESPACE''"
| "json_token_type_name T_ERROR = ascii ''T_ERROR''"
| "json_token_type_name T_UNKNOWN = ascii ''T_UNKNOWN''"

text \<open>The two tables are functions of the byte they are indexed with.\<close>

record json_config =
  ch2token :: "byte \<Rightarrow> json_token_type"
  escape2char :: "byte \<Rightarrow> byte"
  encode_buf :: "strbuf option"
  encode_sparse_convert :: int
  encode_sparse_ratio :: int
  encode_sparse_safe :: int
  encode_max_depth :: int
  encode_invalid_numbers :: int
  encode_number_precision :: int
  encode_keep_buffer :: int
  decode_invalid_numbers :: int
  decode_max_depth :: int

text \<open>The assignments of \<open>json_create_config\<close> to the tables; a byte is its ASCII code.\<close>

definition default_ch2token :: "byte \<Rightarrow> json_token_type" where
  "default_ch2token c =
     (if c = 0x7b then T_OBJ_BEGIN else if c = 0x7d then T_OBJ_END
      else if c = 0x5b then T_ARR_BEGIN else if c = 0x5d then T_ARR_END
      else if c = 0x2c then T_COMMA else if c = 0x3a then T_COLON else if c = 0 then T_END
      else if c = 0x20 \<or> c = 0x09 \<or> c = 0x0a \<or> c = 0x0d then T_WHITESPACE
      else if c = 0x66 \<or> c = 0x69 \<or> c = 0x49 \<or> c = 0x6e \<or> c = 0x4e \<or> c = 0x74 \<or> c = 0x22 \<or>
        c = 0x2b \<or> c = 0x2d \<or> is_digit c then T_UNKNOWN
      else T_ERROR)"

definition default_escape2char :: "byte \<Rightarrow> byte" where
  "default_escape2char c =
     (if c = 0x22 then 0x22 else if c = 0x5c then 0x5c else if c = 0x2f then 0x2f
      else if c = 0x62 then 0x08 else if c = 0x74 then 0x09 else if c = 0x6e then 0x0a
      else if c = 0x66 then 0x0c else if c = 0x72 then 0x0d else if c = 0x75 then 0x75 else 0)"

definition json_create_config :: "'a slab_scheme \<Rightarrow> (json_config \<times> 'a slab_scheme) res" where
  "json_create_config h =
     bind_res (memslice_wrap_strbuf_init 0 h) (\<lambda>(buf, h').
       Inr (\<lparr>ch2token = default_ch2token, escape2char = default_escape2char, encode_buf = Some buf,
             encode_sparse_convert = 0, encode_sparse_ratio = 2, encode_sparse_safe = 10,
             encode_max_depth = 1000, encode_invalid_numbers = 0, encode_number_precision = 14,
             encode_keep_buffer = 1, decode_invalid_numbers = 1, decode_max_depth = 1000\<rparr>, h'))"

text \<open>\<open>strbuf_free\<close> does nothing to a buffer that was freed or never allocated.\<close>

definition json_destroy_config :: "json_config \<Rightarrow> 'a slab_scheme \<Rightarrow> 'a slab_scheme res" where
  "json_destroy_config cfg h =
     (case encode_buf cfg of None \<Rightarrow> Inr h | Some buf \<Rightarrow> memslice_wrap_strbuf_free buf h)"

section \<open>Changing the configuration\<close>

text \<open>
  Each function takes the arguments and the state (the configuration and the heap). A Lua error leaves
  the settings that were stored before it.
\<close>

type_synonym ('h, 'r) cfg_fun = "json_config \<times> 'h \<Rightarrow> (json_config \<times> 'h, 'r) jres"

text \<open>At most \<open>n\<close> arguments; missing ones are nil (\<open>arg\<close> gives nil for them).\<close>

definition json_arg_init :: "lval list \<Rightarrow> nat \<Rightarrow> ('h, unit) cfg_fun" where
  "json_arg_init args n st = (if length args \<le> n then Done () st else Raise (ascii ''found too many arguments'') st)"

text \<open>The setting is read and stored through \<open>get\<close> and \<open>put\<close>; the result is the pushed value.\<close>

definition json_integer_option ::
    "lua_lib \<Rightarrow> lval list \<Rightarrow> nat \<Rightarrow> (json_config \<Rightarrow> int) \<Rightarrow> (int \<Rightarrow> json_config \<Rightarrow> json_config) \<Rightarrow> int \<Rightarrow> int \<Rightarrow>
     ('h, lval) cfg_fun" where
  "json_integer_option L args optindex get put lo hi = (\<lambda>(cfg, h).
     if arg args optindex \<noteq> LNil then
       bind_j (raise_on (luaL_checkinteger L (arg args optindex)) (cfg, h)) (\<lambda>k _.
         let value = to_int k in
         if lo \<le> value \<and> value \<le> hi then Done (lua_int value) (put value cfg, h)
         else Raise (ascii ''expected integer between '' @ int_text lo @ ascii '' and '' @ int_text hi) (cfg, h))
     else Done (lua_int (get cfg)) (cfg, h))"

fun option_index :: "byte list list \<Rightarrow> byte list \<Rightarrow> nat \<Rightarrow> nat option" where
  "option_index [] s i = None"
| "option_index (x # xs) s i = (if x = s then Some i else option_index xs s (Suc i))"

definition luaL_checkoption :: "lua_lib \<Rightarrow> lval \<Rightarrow> byte list list \<Rightarrow> int res" where
  "luaL_checkoption L v options =
     (case lua_tolstring L v of
        None \<Rightarrow> Inl (Lua_error ''string expected'')
      | Some s \<Rightarrow>
          (case option_index options (takeWhile (\<lambda>c. c \<noteq> 0) s) 0 of
             None \<Rightarrow> Inl (Lua_error ''invalid option'') | Some i \<Rightarrow> Inr (int i)))"

text \<open>The option names default to off and on. \<open>bool_true\<close> is 1 in every call.\<close>

definition json_enum_option ::
    "lua_lib \<Rightarrow> lval list \<Rightarrow> nat \<Rightarrow> (json_config \<Rightarrow> int) \<Rightarrow> (int \<Rightarrow> json_config \<Rightarrow> json_config) \<Rightarrow>
     byte list list option \<Rightarrow> int \<Rightarrow> ('h, lval) cfg_fun" where
  "json_enum_option L args optindex get put options0 bool_true0 = (\<lambda>(cfg, h).
     (let (options, bool_true) =
            (case options0 of None \<Rightarrow> ([ascii ''off'', ascii ''on''], 1) | Some os \<Rightarrow> (os, bool_true0)) in
      bind_j
        (case arg args optindex of
           LNil \<Rightarrow> Done (get cfg) (cfg, h)
         | LBoolean b \<Rightarrow> if bool_true \<noteq> 0 then Done (if b then bool_true else 0) (cfg, h)
                        else raise_on (luaL_checkoption L (LBoolean b) options) (cfg, h)
         | v \<Rightarrow> raise_on (luaL_checkoption L v options) (cfg, h))
        (\<lambda>new _.
          Done (if bool_true \<noteq> 0 \<and> (new = 0 \<or> new = bool_true) then LBoolean (new \<noteq> 0)
                else LString (options ! nat new)) (put new cfg, h))))"

abbreviation INT_MAX :: int where
  "INT_MAX \<equiv> 2147483647"

definition json_cfg_encode_sparse_array :: "lua_lib \<Rightarrow> lval list \<Rightarrow> ('h, lval list) cfg_fun" where
  "json_cfg_encode_sparse_array L args st =
     bind_j (json_arg_init args 3 st) (\<lambda>_ st0.
     bind_j (json_enum_option L args 1 encode_sparse_convert (\<lambda>n. encode_sparse_convert_update (\<lambda>_. n)) None 1 st0) (\<lambda>convert st1.
     bind_j (json_integer_option L args 2 encode_sparse_ratio (\<lambda>n. encode_sparse_ratio_update (\<lambda>_. n)) 0 INT_MAX st1) (\<lambda>ratio st2.
     bind_j (json_integer_option L args 3 encode_sparse_safe (\<lambda>n. encode_sparse_safe_update (\<lambda>_. n)) 0 INT_MAX st2) (\<lambda>safe st3.
       Done [convert, ratio, safe] st3))))"

definition json_cfg_encode_max_depth :: "lua_lib \<Rightarrow> lval list \<Rightarrow> ('h, lval list) cfg_fun" where
  "json_cfg_encode_max_depth L args st =
     bind_j (json_arg_init args 1 st) (\<lambda>_ st0.
     bind_j (json_integer_option L args 1 encode_max_depth (\<lambda>n. encode_max_depth_update (\<lambda>_. n)) 1 INT_MAX st0) (\<lambda>d st1.
       Done [d] st1))"

definition json_cfg_decode_max_depth :: "lua_lib \<Rightarrow> lval list \<Rightarrow> ('h, lval list) cfg_fun" where
  "json_cfg_decode_max_depth L args st =
     bind_j (json_arg_init args 1 st) (\<lambda>_ st0.
     bind_j (json_integer_option L args 1 decode_max_depth (\<lambda>n. decode_max_depth_update (\<lambda>_. n)) 1 INT_MAX st0) (\<lambda>d st1.
       Done [d] st1))"

definition json_cfg_encode_number_precision :: "lua_lib \<Rightarrow> lval list \<Rightarrow> ('h, lval list) cfg_fun" where
  "json_cfg_encode_number_precision L args st =
     bind_j (json_arg_init args 1 st) (\<lambda>_ st0.
     bind_j (json_integer_option L args 1 encode_number_precision (\<lambda>n. encode_number_precision_update (\<lambda>_. n)) 1 14 st0) (\<lambda>d st1.
       Done [d] st1))"

definition json_cfg_encode_keep_buffer :: "lua_lib \<Rightarrow> lval list \<Rightarrow> ('a slab_scheme, lval list) cfg_fun" where
  "json_cfg_encode_keep_buffer L args st =
     bind_j (json_arg_init args 1 st) (\<lambda>_ st0.
     let old_value = encode_keep_buffer (fst st0) in
     bind_j (json_enum_option L args 1 encode_keep_buffer (\<lambda>n. encode_keep_buffer_update (\<lambda>_. n)) None 1 st0) (\<lambda>v (cfg, h).
       if old_value \<noteq> encode_keep_buffer cfg then
         if encode_keep_buffer cfg \<noteq> 0 then
           (case memslice_wrap_strbuf_init 0 h of
              Inl e \<Rightarrow> Fault e | Inr (buf, h') \<Rightarrow> Done [v] (cfg\<lparr>encode_buf := Some buf\<rparr>, h'))
         else
           (case json_destroy_config cfg h of
              Inl e \<Rightarrow> Fault e | Inr h' \<Rightarrow> Done [v] (cfg\<lparr>encode_buf := None\<rparr>, h'))
       else Done [v] (cfg, h)))"

text \<open>\<open>json_verify_invalid_number_setting\<close> is empty in this build.\<close>

definition json_cfg_encode_invalid_numbers :: "lua_lib \<Rightarrow> lval list \<Rightarrow> ('h, lval list) cfg_fun" where
  "json_cfg_encode_invalid_numbers L args st =
     bind_j (json_arg_init args 1 st) (\<lambda>_ st0.
     bind_j (json_enum_option L args 1 encode_invalid_numbers (\<lambda>n. encode_invalid_numbers_update (\<lambda>_. n))
         (Some [ascii ''off'', ascii ''on'', ascii ''null'']) 1 st0) (\<lambda>v st1.
       Done [v] st1))"

definition json_cfg_decode_invalid_numbers :: "lua_lib \<Rightarrow> lval list \<Rightarrow> ('h, lval list) cfg_fun" where
  "json_cfg_decode_invalid_numbers L args st =
     bind_j (json_arg_init args 1 st) (\<lambda>_ st0.
     bind_j (json_enum_option L args 1 decode_invalid_numbers (\<lambda>n. decode_invalid_numbers_update (\<lambda>_. n)) None 1 st0) (\<lambda>v st1.
       Done [v] st1))"

end
