(* ===== verification/Json_Encode.thy ===== *)
theory Json_Encode
  imports Json_Base
begin

text \<open>
  The encoder of \<open>src/lev_new_json.c\<close> (\<open>json_encode_exception\<close> to \<open>json_encode\<close>, and
  \<open>json_protect_conversion\<close> around it). The state is the string buffer and the slab heap its block
  lives in. \<open>dp\<close> is the decimal point of the C library.
\<close>

unbundle bit_operations_syntax

type_synonym ('a, 'r) enc = "'a slab_scheme sb \<Rightarrow> ('a slab_scheme sb, 'r) jres"

section \<open>Strings\<close>

text \<open>The table \<open>char2escape\<close>; \<open>escape_digit\<close> is the lower case digit its entries are spelt with.\<close>

definition escape_digit :: "nat \<Rightarrow> byte" where
  "escape_digit d = (if d < 10 then 0x30 + word_of_nat d else 0x57 + word_of_nat d)"

definition char2escape :: "byte \<Rightarrow> byte list option" where
  "char2escape c =
     (if c = 0x08 then Some [0x5c, 0x62] else if c = 0x09 then Some [0x5c, 0x74]
      else if c = 0x0a then Some [0x5c, 0x6e] else if c = 0x0c then Some [0x5c, 0x66]
      else if c = 0x0d then Some [0x5c, 0x72] else if c = 0x22 then Some [0x5c, 0x22]
      else if c = 0x2f then Some [0x5c, 0x2f] else if c = 0x5c then Some [0x5c, 0x5c]
      else if c < 0x20 \<or> c = 0x7f then
        Some [0x5c, 0x75, 0x30, 0x30, escape_digit (unat c div 16), escape_digit (unat c mod 16)]
      else None)"

text \<open>
  The loop of \<open>json_append_string\<close>. The macro \<open>strbuf_append_char_unsafe\<close> is two statements, the
  store and \<open>s->length++\<close>, and it stands after \<open>else\<close> without braces: the \<open>else\<close> covers the store
  only, and the length grows by one for an escaped character too.
\<close>

fun json_append_chars :: "byte list \<Rightarrow> 'a slab_scheme sb \<Rightarrow> 'a slab_scheme sb res" where
  "json_append_chars [] st = Inr st"
| "json_append_chars (c # cs) st =
     bind_res
       (case char2escape c of
          Some escstr \<Rightarrow> strbuf_append_string escstr st
        | None \<Rightarrow> (case st of (s, h) \<Rightarrow>
            bind_res (lev_memslice_append_char_unsafe (sb_ms s) (sb_length s) c h)
              (\<lambda>(ms, h'). Inr (s\<lparr>sb_ms := ms\<rparr>, h'))))
       (\<lambda>(s, h). json_append_chars cs (s\<lparr>sb_length := sb_length s + 1\<rparr>, h))"

definition json_append_string :: "byte list \<Rightarrow> 'a slab_scheme sb \<Rightarrow> 'a slab_scheme sb res" where
  "json_append_string str st =
     bind_res (strbuf_ensure_empty_length (length str * 6 + 2) st) (\<lambda>st1.
     bind_res (strbuf_append_char_unsafe 0x22 st1) (\<lambda>st2.
     bind_res (json_append_chars str st2) (\<lambda>st3.
       strbuf_append_char_unsafe 0x22 st3)))"

section \<open>Errors\<close>

fun lua_typename :: "lval \<Rightarrow> byte list" where
  "lua_typename LNil = ascii ''nil''"
| "lua_typename (LBoolean _) = ascii ''boolean''"
| "lua_typename (LLightuserdata _) = ascii ''userdata''"
| "lua_typename (LNumber _) = ascii ''number''"
| "lua_typename (LString _) = ascii ''string''"
| "lua_typename (LTable _) = ascii ''table''"
| "lua_typename (LFunction _) = ascii ''function''"
| "lua_typename (LUserdata _ _) = ascii ''userdata''"
| "lua_typename (LBuffer _) = ascii ''userdata''"
| "lua_typename (LThread _) = ascii ''thread''"

text \<open>The buffer is freed first when it is the private one of this call.\<close>

definition json_raise :: "json_config \<Rightarrow> byte list \<Rightarrow> ('a, 'r) enc" where
  "json_raise cfg msg = (\<lambda>(s, h).
     if encode_keep_buffer cfg = 0
     then (case memslice_wrap_strbuf_free s h of Inl e \<Rightarrow> Fault e | Inr h' \<Rightarrow> Raise msg (s, h'))
     else Raise msg (s, h))"

definition json_encode_exception :: "json_config \<Rightarrow> lval \<Rightarrow> string \<Rightarrow> ('a, 'r) enc" where
  "json_encode_exception cfg v reason =
     json_raise cfg (ascii ''Cannot serialise '' @ lua_typename v @ ascii '': '' @ ascii reason)"

text \<open>\<open>lua_checkstack\<close> succeeds.\<close>

definition json_check_encode_depth :: "json_config \<Rightarrow> int \<Rightarrow> ('a, unit) enc" where
  "json_check_encode_depth cfg current_depth st =
     (if current_depth \<le> encode_max_depth cfg then Done () st
      else json_raise cfg (ascii ''Cannot serialise, excessive nesting ('' @ int_text current_depth @ ascii '')'') st)"

section \<open>Arrays or objects\<close>

text \<open>
  The loop of \<open>lua_array_length\<close> over the entries left: \<open>None\<close> is the early \<open>return -1\<close>. \<open>max\<close> is an
  \<open>int\<close>, and a key above \<open>INT_MAX\<close> (infinity is one) has no value of that type.
\<close>

fun array_length_loop :: "ltable \<Rightarrow> int \<Rightarrow> int \<Rightarrow> (int \<times> int) option res" where
  "array_length_loop [] mx items = Inr (Some (mx, items))"
| "array_length_loop ((key, _) # kvs) mx items =
     (case key of
        LNumber k \<Rightarrow>
          if isinf k \<and> \<not> dbl_sign k then Inl (Undefined ''conversion to int'')
          else (case dbl_int k of
             Some i \<Rightarrow>
               if 1 \<le> i then
                 bind_res (if mx < i then c_to_int (- INT_MAX - 1) INT_MAX k else Inr mx)
                   (\<lambda>mx'. array_length_loop kvs mx' (items + 1))
               else Inr None
           | None \<Rightarrow> Inr None)
      | _ \<Rightarrow> Inr None)"

text \<open>\<open>items * cfg->encode_sparse_ratio\<close> is an \<open>int\<close> product.\<close>

definition int_mul :: "int \<Rightarrow> int \<Rightarrow> int res" where
  "int_mul a b = (if \<bar>a * b\<bar> \<le> INT_MAX then Inr (a * b) else Inl (Undefined ''int overflow''))"

definition lua_array_length :: "json_config \<Rightarrow> ltable \<Rightarrow> ('a, int) enc" where
  "lua_array_length cfg kvs st =
     (case array_length_loop kvs 0 0 of
        Inl e \<Rightarrow> Fault e
      | Inr None \<Rightarrow> Done (-1) st
      | Inr (Some (mx, items)) \<Rightarrow>
          if encode_sparse_ratio cfg > 0 then
            (case int_mul items (encode_sparse_ratio cfg) of
               Inl e \<Rightarrow> Fault e
             | Inr p \<Rightarrow>
                 if mx > p \<and> mx > encode_sparse_safe cfg then
                   (if encode_sparse_convert cfg = 0
                    then json_encode_exception cfg (LTable kvs) ''excessively sparse array'' st
                    else Done (-1) st)
                 else Done mx st)
          else Done mx st)"

section \<open>Numbers\<close>

definition FPCONV_G_FMT_BUFSIZE :: nat where
  "FPCONV_G_FMT_BUFSIZE = 32"

definition json_append_number :: "byte \<Rightarrow> json_config \<Rightarrow> lua_Number \<Rightarrow> ('a, unit) enc" where
  "json_append_number dp cfg num st =
     (if encode_invalid_numbers cfg = 0 \<and> (isinf num \<or> isnan num) then
        json_encode_exception cfg (LNumber num) ''must not be NaN or Infinity'' st
      else if encode_invalid_numbers cfg = 1 \<and> isnan num then
        lift_j (strbuf_append_mem (ascii ''NaN'') st)
      else if encode_invalid_numbers cfg = 1 \<and> isinf num then
        lift_j (strbuf_append_mem (if dbl_sign num then ascii ''-Infinity'' else ascii ''Infinity'') st)
      else if encode_invalid_numbers cfg \<noteq> 0 \<and> encode_invalid_numbers cfg \<noteq> 1 \<and> (isinf num \<or> isnan num) then
        lift_j (strbuf_append_mem (ascii ''null'') st)
      else lift_j (bind_res (strbuf_ensure_empty_length FPCONV_G_FMT_BUFSIZE st) (\<lambda>st'.
        bind_res (fpconv_g_fmt dp num (encode_number_precision cfg)) (\<lambda>str. strbuf_print str st'))))"

section \<open>Values\<close>

text \<open>
  \<open>json_append_data\<close> and the functions it recurses through: \<open>json_array_loop\<close> is the loop of
  \<open>json_append_array\<close> from index \<open>i\<close>, \<open>json_object_loop\<close> the \<open>lua_next\<close> loop of
  \<open>json_append_object\<close>; \<open>comma\<close> is their flag.
\<close>

definition json_comma :: "bool \<Rightarrow> ('a, unit) enc" where
  "json_comma comma st = (if comma then lift_j (strbuf_append_char 0x2c st) else Done () st)"

definition json_append_key :: "byte \<Rightarrow> json_config \<Rightarrow> lval \<Rightarrow> ('a, unit) enc" where
  "json_append_key dp cfg k st =
     (case k of
        LNumber n \<Rightarrow>
          bind_j (lift_j (strbuf_append_char 0x22 st)) (\<lambda>_ st1.
          bind_j (json_append_number dp cfg n st1) (\<lambda>_ st2.
            lift_j (strbuf_append_mem [0x22, 0x3a] st2)))
      | LString s \<Rightarrow>
          bind_j (lift_j (json_append_string s st)) (\<lambda>_ st1. lift_j (strbuf_append_char 0x3a st1))
      | _ \<Rightarrow> json_encode_exception cfg k ''table key must be a number or string'' st)"

function (sequential)
    json_append_data :: "byte \<Rightarrow> json_config \<Rightarrow> int \<Rightarrow> lval \<Rightarrow> ('a, unit) enc"
and json_append_array :: "byte \<Rightarrow> json_config \<Rightarrow> int \<Rightarrow> ltable \<Rightarrow> nat \<Rightarrow> ('a, unit) enc"
and json_array_loop :: "byte \<Rightarrow> json_config \<Rightarrow> int \<Rightarrow> ltable \<Rightarrow> nat \<Rightarrow> nat \<Rightarrow> bool \<Rightarrow> ('a, unit) enc"
and json_append_object :: "byte \<Rightarrow> json_config \<Rightarrow> int \<Rightarrow> ltable \<Rightarrow> ('a, unit) enc"
and json_object_loop :: "byte \<Rightarrow> json_config \<Rightarrow> int \<Rightarrow> ltable \<Rightarrow> bool \<Rightarrow> ('a, unit) enc"
where
  "json_append_data dp cfg depth v st =
     (case v of
        LString s \<Rightarrow> lift_j (json_append_string s st)
      | LNumber n \<Rightarrow> json_append_number dp cfg n st
      | LBoolean b \<Rightarrow> lift_j (strbuf_append_mem (if b then ascii ''true'' else ascii ''false'') st)
      | LTable kvs \<Rightarrow>
          bind_j (json_check_encode_depth cfg (depth + 1) st) (\<lambda>_ st1.
          bind_j (lua_array_length cfg kvs st1) (\<lambda>len st2.
            if 0 < len then json_append_array dp cfg (depth + 1) kvs (nat len) st2
            else json_append_object dp cfg (depth + 1) kvs st2))
      | LNil \<Rightarrow> lift_j (strbuf_append_mem (ascii ''null'') st)
      | LLightuserdata p \<Rightarrow>
          if p = 0 then lift_j (strbuf_append_mem (ascii ''null'') st)
          else json_encode_exception cfg v ''type not supported'' st
      | _ \<Rightarrow> json_encode_exception cfg v ''type not supported'' st)"
| "json_append_array dp cfg depth kvs len st =
     bind_j (lift_j (strbuf_append_char 0x5b st)) (\<lambda>_ st1. json_array_loop dp cfg depth kvs len 1 False st1)"
| "json_array_loop dp cfg depth kvs len i comma st =
     (if i \<le> len then
        bind_j (json_comma comma st) (\<lambda>_ st1.
        bind_j (json_append_data dp cfg depth (lua_rawgeti kvs i) st1) (\<lambda>_ st2.
          json_array_loop dp cfg depth kvs len (Suc i) True st2))
      else lift_j (strbuf_append_char 0x5d st))"
| "json_append_object dp cfg depth kvs st =
     bind_j (lift_j (strbuf_append_char 0x7b st)) (\<lambda>_ st1. json_object_loop dp cfg depth kvs False st1)"
| "json_object_loop dp cfg depth [] comma st = lift_j (strbuf_append_char 0x7d st)"
| "json_object_loop dp cfg depth ((k, v) # kvs) comma st =
     bind_j (json_comma comma st) (\<lambda>_ st1.
     bind_j (json_append_key dp cfg k st1) (\<lambda>_ st2.
     bind_j (json_append_data dp cfg depth v st2) (\<lambda>_ st3.
       json_object_loop dp cfg depth kvs True st3)))"
  by pat_completeness auto

termination
  by (relation "measures
      [case_sum (case_sum (\<lambda>(dp, cfg, d, v, st). size v) (\<lambda>(dp, cfg, d, kvs, n, st). size_list (size_prod size size) kvs))
         (case_sum (\<lambda>(dp, cfg, d, kvs, n, i, c, st). size_list (size_prod size size) kvs)
            (case_sum (\<lambda>(dp, cfg, d, kvs, st). size_list (size_prod size size) kvs) (\<lambda>(dp, cfg, d, kvs, c, st). size_list (size_prod size size) kvs))),
       case_sum (case_sum (\<lambda>_. 0) (\<lambda>_. 2)) (case_sum (\<lambda>_. 1) (case_sum (\<lambda>_. 2) (\<lambda>_. 1))),
       case_sum (\<lambda>_. 0) (case_sum (\<lambda>(dp, cfg, d, kvs, n, i, c, st). Suc n - i) (\<lambda>_. 0))]")
     (use size_lua_rawgeti in \<open>auto simp: le_less\<close>)

declare json_append_data.simps [simp del] json_append_array.simps [simp del]
  json_array_loop.simps [simp del] json_append_object.simps [simp del]

section \<open>The entry points\<close>

definition json_encode ::
    "byte \<Rightarrow> lval list \<Rightarrow> json_config \<times> 'a slab_scheme \<Rightarrow> (json_config \<times> 'a slab_scheme, lval list) jres" where
  "json_encode dp args = (\<lambda>(cfg, h).
     if length args \<noteq> 1 then Raise (ascii ''expected 1 argument'') (cfg, h)
     else
       let private = (encode_keep_buffer cfg = 0);
           put = (\<lambda>s. if private then cfg else cfg\<lparr>encode_buf := Some s\<rparr>) in
       case (if private then memslice_wrap_strbuf_init 0 h
             else (case encode_buf cfg of Some buf \<Rightarrow> Inr (strbuf_reset buf, h)
                                        | None \<Rightarrow> Inl (Undefined ''no buffer''))) of
         Inl e \<Rightarrow> Fault e
       | Inr st \<Rightarrow>
           (case json_append_data dp cfg 0 (args ! 0) st of
              Fault e \<Rightarrow> Fault e
            | Raise msg (s, h') \<Rightarrow> Raise msg (put s, h')
            | Done _ (s, h') \<Rightarrow>
                (case memslice_wrap_strbuf_string s h' of
                   Inl e \<Rightarrow> Fault e
                 | Inr json \<Rightarrow>
                     if private then
                       (case memslice_wrap_strbuf_free s h' of
                          Inl e \<Rightarrow> Fault e | Inr h'' \<Rightarrow> Done [LString json] (cfg, h''))
                     else Done [LString json] (put s, h'))))"

text \<open>The function is called under \<open>lua_pcall\<close>: an error it raises is returned as nil and the message.\<close>

definition json_protect_conversion ::
    "(lval list \<Rightarrow> 's \<Rightarrow> ('s, lval list) jres) \<Rightarrow> lval list \<Rightarrow> 's \<Rightarrow> ('s, lval list) jres" where
  "json_protect_conversion f args st =
     (if length args \<noteq> 1 then Raise (ascii ''expected 1 argument'') st
      else (case f args st of Raise msg st' \<Rightarrow> Done [LNil, LString msg] st' | r \<Rightarrow> r))"

end
