(* ===== verification/Json_Strbuf.thy ===== *)
theory Json_Strbuf
  imports Json_Encode
begin

text \<open>
  The string buffer of the JSON encoder as a text that grows at its end: the laws of the
  \<open>strbuf_*\<close> operations on the slab model, the interface \<open>text_buffer\<close> the encoder's proofs use, and
  its interpretation.
\<close>

section \<open>The buffer and its text\<close>

text \<open>The buffer owns its block: one reference, held by nobody else.\<close>

definition sb_ok :: "'a slab_scheme sb \<Rightarrow> bool" where
  "sb_ok st \<longleftrightarrow> (case st of (s, h) \<Rightarrow> slab_ok h \<and> memslice_ok h (sb_ms s) \<and> 0 < ms_until (sb_ms s) \<and>
     sb_length s \<le> ms_until (sb_ms s) \<and> refs h (ms_mb (sb_ms s)) = 1)"

definition sb_text :: "'a slab_scheme sb \<Rightarrow> byte list" where
  "sb_text st = (case st of (s, h) \<Rightarrow> mem_read (slice_mem h (sb_ms s)) 0 (sb_length s))"

lemma length_sb_text [simp]: "length (sb_text (s, h)) = sb_length s"
  by (simp add: sb_text_def)

text \<open>
  What a run of operations on the buffer leaves of the rest of the heap: no block in use elsewhere
  is touched, and a block the buffer moved away from is returned.
\<close>

definition sb_next :: "'a slab_scheme sb \<Rightarrow> 'a slab_scheme sb \<Rightarrow> bool" where
  "sb_next st st' \<longleftrightarrow> (case (st, st') of ((s, h), (s', h')) \<Rightarrow>
     let a = ms_mb (sb_ms s); a' = ms_mb (sb_ms s') in
     (\<forall>x. x \<noteq> a \<longrightarrow> x \<noteq> a' \<longrightarrow> refs h' x = refs h x) \<and>
     (\<forall>x. x \<noteq> a \<longrightarrow> 0 < refs h x \<longrightarrow> x \<noteq> a' \<and> blocks h' x = blocks h x) \<and>
     (a' \<noteq> a \<longrightarrow> refs h a' = 0 \<and> refs h' a = 0))"

lemma sb_next_refl [simp]: "sb_next st st"
  by (cases st) (simp add: sb_next_def)

lemma sb_next_trans [trans]:
  assumes "sb_next st1 st2" "sb_next st2 st3"
  shows "sb_next st1 st3"
proof -
  obtain s1 h1 s2 h2 s3 h3 where st: "st1 = (s1, h1)" "st2 = (s2, h2)" "st3 = (s3, h3)"
    by (metis surj_pair)
  define a b c where "a = ms_mb (sb_ms s1)" and "b = ms_mb (sb_ms s2)" and "c = ms_mb (sb_ms s3)"
  have 1: "\<And>x. x \<noteq> a \<Longrightarrow> x \<noteq> b \<Longrightarrow> refs h2 x = refs h1 x"
    "\<And>x. x \<noteq> a \<Longrightarrow> 0 < refs h1 x \<Longrightarrow> x \<noteq> b \<and> blocks h2 x = blocks h1 x"
    "b \<noteq> a \<Longrightarrow> refs h1 b = 0 \<and> refs h2 a = 0"
    using assms(1) by (auto simp: sb_next_def st a_def b_def Let_def)
  have 2: "\<And>x. x \<noteq> b \<Longrightarrow> x \<noteq> c \<Longrightarrow> refs h3 x = refs h2 x"
    "\<And>x. x \<noteq> b \<Longrightarrow> 0 < refs h2 x \<Longrightarrow> x \<noteq> c \<and> blocks h3 x = blocks h2 x"
    "c \<noteq> b \<Longrightarrow> refs h2 c = 0 \<and> refs h3 b = 0"
    using assms(2) by (auto simp: sb_next_def st b_def c_def Let_def)
  have "refs h3 x = refs h1 x" if "x \<noteq> a" "x \<noteq> c" for x
    using that 1(1,2) [of x] 1(3) 2(1,2) [of x] 2(3) by (cases "x = b") auto
  moreover have "x \<noteq> c \<and> blocks h3 x = blocks h1 x" if "x \<noteq> a" "0 < refs h1 x" for x
  proof -
    have x: "x \<noteq> b" "blocks h2 x = blocks h1 x" using 1(2) [OF that] by auto
    moreover have "0 < refs h2 x" using x that by (simp add: refs_def)
    ultimately show ?thesis using 2(2) [of x] by simp
  qed
  moreover have "refs h1 c = 0 \<and> refs h3 a = 0" if "c \<noteq> a"
    using that 1(1,2) [of c] 1(3) 2(1) [of a] 2(3) by (cases "c = b"; cases "b = a") auto
  ultimately show ?thesis
    by (simp add: sb_next_def st a_def [symmetric] c_def [symmetric] Let_def)
qed

lemma sb_okE:
  assumes "sb_ok (s, h)"
  obtains "slab_ok h" "memslice_ok h (sb_ms s)" "0 < ms_until (sb_ms s)"
    "sb_length s \<le> ms_until (sb_ms s)" "refs h (ms_mb (sb_ms s)) = 1"
  using assms by (auto simp: sb_ok_def)

section \<open>Room and stores\<close>

lemma sb_grown:
  assumes "sb_ok (s, h)" "n < 1024 * 1024"
  obtains ms h' where "lev_memslice_ensure_empty_length (sb_ms s) n h = Inr (ms, h')"
    "sb_ok (s\<lparr>sb_ms := ms\<rparr>, h')" "sb_next (s, h) (s\<lparr>sb_ms := ms\<rparr>, h')" "n < ms_until ms"
    "ms_until (sb_ms s) \<le> ms_until ms" "sb_text (s\<lparr>sb_ms := ms\<rparr>, h') = sb_text (s, h)"
proof -
  note ok = sb_okE [OF assms(1)]
  obtain ms h' where r: "lev_memslice_ensure_empty_length (sb_ms s) n h = Inr (ms, h')"
      and g: "grown (sb_ms s) h n (ms, h')"
    using lev_memslice_ensure_grown [of h "sb_ms s" n] ok assms(2) by (metis surj_pair)
  have len: "sb_length s \<le> ms_until (sb_ms s)" "refs h (ms_mb (sb_ms s)) = 1"
    using ok by auto
  have "sb_ok (s\<lparr>sb_ms := ms\<rparr>, h')"
    using g len by (cases "ms_mb ms = ms_mb (sb_ms s)") (auto simp: grown_def sb_ok_def)
  moreover have "sb_next (s, h) (s\<lparr>sb_ms := ms\<rparr>, h')"
    using g len(2) by (auto simp: grown_def sb_next_def Let_def)
  moreover have "sb_text (s\<lparr>sb_ms := ms\<rparr>, h') = sb_text (s, h)"
    using g len(1) by (auto simp: grown_def sb_text_def intro!: mem_read_cong)
  ultimately show thesis
    using r g by (intro that) (auto simp: grown_def)
qed

lemma sb_store:
  assumes "sb_ok (s, h)" "sb_length s + length bs \<le> ms_until (sb_ms s)"
  obtains h' where "slice_store (sb_ms s) (sb_length s) bs h = Inr h'"
    "\<And>n. n \<le> ms_until (sb_ms s) \<Longrightarrow> sb_ok (s\<lparr>sb_length := n\<rparr>, h') \<and> sb_next (s, h) (s\<lparr>sb_length := n\<rparr>, h')"
    "slice_mem h' (sb_ms s) = mem_write (slice_mem h (sb_ms s)) (sb_length s) bs"
proof -
  have ok: "slab_ok h" "memslice_ok h (sb_ms s)" "0 < ms_until (sb_ms s)" "refs h (ms_mb (sb_ms s)) = 1"
    using assms(1) by (auto simp: sb_ok_def)
  obtain h' where h': "slice_store (sb_ms s) (sb_length s) bs h = Inr h'" "slab_ok h'" "memslice_ok h' (sb_ms s)"
    "refs h' = refs h" "\<And>x. x \<noteq> ms_mb (sb_ms s) \<Longrightarrow> blocks h' x = blocks h x"
    "slice_mem h' (sb_ms s) = mem_write (slice_mem h (sb_ms s)) (sb_length s) bs"
    by (rule slice_store_ok [OF ok(1,2) assms(2)]) blast
  show thesis
    using h' ok by (intro that [of h']) (auto simp: sb_ok_def sb_next_def Let_def)
qed

lemma sb_text_store:
  "slice_mem h' (sb_ms s) = mem_write (slice_mem h (sb_ms s)) (sb_length s) bs \<Longrightarrow> n = sb_length s + length bs \<Longrightarrow>
   sb_text (s\<lparr>sb_length := n\<rparr>, h') = sb_text (s, h) @ bs"
  using mem_read_write_prefix [of "slice_mem h (sb_ms s)" 0 "sb_length s" bs]
  by (simp add: sb_text_def)

section \<open>The interface\<close>

text \<open>
  A buffer of text: \<open>app\<close> adds bytes at the end as long as the text stays below \<open>limit\<close>, and
  relates the states before and after by \<open>evolves\<close>.
\<close>

locale text_buffer =
  fixes ok :: "'s \<Rightarrow> bool"
    and content :: "'s \<Rightarrow> byte list"
    and evolves :: "'s \<Rightarrow> 's \<Rightarrow> bool"
    and app :: "byte list \<Rightarrow> 's \<Rightarrow> 's res"
    and limit :: nat
  assumes app_ok: "ok s \<Longrightarrow> length (content s) + length bs < limit \<Longrightarrow>
      \<exists>s'. app bs s = Inr s' \<and> ok s' \<and> evolves s s' \<and> content s' = content s @ bs"
    and evolves_refl: "evolves s s"
    and evolves_trans: "evolves s s' \<Longrightarrow> evolves s' s'' \<Longrightarrow> evolves s s''"
begin

text \<open>A step that adds one of the texts \<open>P\<close> allows, needing room for \<open>n\<close> bytes.\<close>

definition adds :: "('s \<Rightarrow> ('s, 'r) jres) \<Rightarrow> nat \<Rightarrow> (byte list \<Rightarrow> bool) \<Rightarrow> bool" where
  "adds f n P \<longleftrightarrow> (\<forall>s. ok s \<and> length (content s) + n < limit \<longrightarrow>
     (\<exists>r s' e. f s = Done r s' \<and> ok s' \<and> evolves s s' \<and> content s' = content s @ e \<and> P e \<and> length e \<le> n))"

lemma adds_app: "adds (\<lambda>s. lift_j (app bs s)) (length bs) (\<lambda>e. e = bs)"
  unfolding adds_def
proof (intro allI impI)
  fix s assume "ok s \<and> length (content s) + length bs < limit"
  then obtain s' where "app bs s = Inr s' \<and> ok s' \<and> evolves s s' \<and> content s' = content s @ bs"
    using app_ok by blast
  then show "\<exists>r s' e. lift_j (app bs s) = Done r s' \<and> ok s' \<and> evolves s s' \<and> content s' = content s @ e \<and>
      e = bs \<and> length e \<le> length bs" by auto
qed

lemma adds_nothing: "adds (\<lambda>s. Done r s) 0 (\<lambda>e. e = [])"
  unfolding adds_def using evolves_refl by (auto intro!: exI [of _ "[]"])

lemma adds_bind:
  assumes "adds f m P" "\<And>r. adds (g r) n Q"
  shows "adds (\<lambda>s. bind_j (f s) g) (m + n) (\<lambda>e. \<exists>p q. e = p @ q \<and> P p \<and> Q q)"
  unfolding adds_def
proof (intro allI impI)
  fix s assume s: "ok s \<and> length (content s) + (m + n) < limit"
  then obtain r s1 p where 1: "f s = Done r s1" "ok s1" "evolves s s1" "content s1 = content s @ p" "P p"
      "length p \<le> m"
    using assms(1) unfolding adds_def by (metis add_lessD1 add.assoc)
  then have "ok s1 \<and> length (content s1) + n < limit" using s by simp
  then obtain r' s2 q where "g r s1 = Done r' s2" "ok s2" "evolves s1 s2" "content s2 = content s1 @ q" "Q q"
      "length q \<le> n"
    using assms(2) [of r] unfolding adds_def by meson
  with 1 show "\<exists>r' s' e. bind_j (f s) g = Done r' s' \<and> ok s' \<and> evolves s s' \<and> content s' = content s @ e \<and>
      (\<exists>p q. e = p @ q \<and> P p \<and> Q q) \<and> length e \<le> m + n"
    using evolves_trans [of s s1 s2] by (intro exI [of _ r'] exI [of _ s2] exI [of _ "p @ q"]) auto
qed

lemma adds_weaken: "adds f m P \<Longrightarrow> m \<le> n \<Longrightarrow> (\<And>e. P e \<Longrightarrow> Q e) \<Longrightarrow> adds f n Q"
  unfolding adds_def by (meson add_left_mono le_less_trans order_trans)

lemma adds_cong: "(\<And>s. f s = g s) \<Longrightarrow> adds g n P \<Longrightarrow> adds f n P"
  by (simp add: adds_def)

lemma addsE:
  assumes "adds f n P" "ok s" "length (content s) + n < limit"
  obtains r s' e where "f s = Done r s'" "ok s'" "evolves s s'" "content s' = content s @ e" "P e" "length e \<le> n"
  using assms unfolding adds_def by blast

end

text \<open>
  The buffer on the slab is one, through \<open>strbuf_append_mem\<close>. The limit is what the largest
  block can hold with the null byte.
\<close>

definition STRBUF_LIMIT :: nat where
  "STRBUF_LIMIT = 1024 * 1024"

lemma strbuf_append_mem_ok:
  assumes "sb_ok st" "length (sb_text st) + length bs < STRBUF_LIMIT"
  shows "\<exists>st'. strbuf_append_mem bs st = Inr st' \<and> sb_ok st' \<and> sb_next st st' \<and> sb_text st' = sb_text st @ bs"
proof -
  obtain s h where st: "st = (s, h)" by (cases st)
  obtain ms h1 where 1: "lev_memslice_ensure_empty_length (sb_ms s) (sb_length s + length bs) h = Inr (ms, h1)"
    "sb_ok (s\<lparr>sb_ms := ms\<rparr>, h1)" "sb_next (s, h) (s\<lparr>sb_ms := ms\<rparr>, h1)" "sb_length s + length bs < ms_until ms"
    "sb_text (s\<lparr>sb_ms := ms\<rparr>, h1) = sb_text (s, h)"
    by (rule sb_grown [of s h "sb_length s + length bs"]) (use assms st in \<open>auto simp: STRBUF_LIMIT_def\<close>)
  obtain h2 where 2: "slice_store ms (sb_length s) bs h1 = Inr h2"
    "\<And>n. n \<le> ms_until ms \<Longrightarrow> sb_ok (s\<lparr>sb_ms := ms, sb_length := n\<rparr>, h2) \<and>
       sb_next (s\<lparr>sb_ms := ms\<rparr>, h1) (s\<lparr>sb_ms := ms, sb_length := n\<rparr>, h2)"
    "slice_mem h2 ms = mem_write (slice_mem h1 ms) (sb_length s) bs"
    by (rule sb_store [OF 1(2), of bs]) (use 1(4) in auto)
  let ?s = "s\<lparr>sb_ms := ms, sb_length := sb_length s + length bs\<rparr>"
  have "strbuf_append_mem bs st = Inr (?s, h2)"
    using 1(1) 2(1) by (simp add: st strbuf_append_mem_def lev_memslice_append_mem_def)
  moreover have "sb_text (?s, h2) = sb_text st @ bs"
    using sb_text_store [of h2 "s\<lparr>sb_ms := ms\<rparr>" h1 bs "sb_length s + length bs"] 2(3) 1(5) by (simp add: st)
  ultimately show ?thesis
    using 2(2) [of "sb_length s + length bs"] 1(3,4) sb_next_trans by (auto simp: st)
qed

interpretation sb: text_buffer sb_ok sb_text sb_next strbuf_append_mem STRBUF_LIMIT
  by unfold_locales (use strbuf_append_mem_ok sb_next_trans in auto)

lemma strbuf_append_char_mem: "strbuf_append_char c st = strbuf_append_mem [c] st"
  by (cases st) (simp add: strbuf_append_char_def strbuf_append_mem_def lev_memslice_append_char_def
      lev_memslice_append_mem_def)

section \<open>Making and freeing a buffer\<close>

text \<open>\<open>sb_fresh h st\<close>: the buffer was made in the heap \<open>h\<close>, which is otherwise as it was.\<close>

definition sb_fresh :: "'a slab_scheme \<Rightarrow> 'a slab_scheme sb \<Rightarrow> bool" where
  "sb_fresh h st \<longleftrightarrow> (case st of (s, h') \<Rightarrow>
     let a = ms_mb (sb_ms s) in
     refs h a = 0 \<and> (\<forall>x. x \<noteq> a \<longrightarrow> refs h' x = refs h x) \<and> (\<forall>x. 0 < refs h x \<longrightarrow> blocks h' x = blocks h x))"

text \<open>The references held and the blocks in use are the same in both heaps.\<close>

definition same_use :: "'a slab_scheme \<Rightarrow> 'a slab_scheme \<Rightarrow> bool" where
  "same_use h h' \<longleftrightarrow> slab_ok h' \<and> refs h' = refs h \<and> (\<forall>x. 0 < refs h x \<longrightarrow> blocks h' x = blocks h x)"

definition strbuf_size :: "int \<Rightarrow> nat" where
  "strbuf_size len = (if len \<le> 0 then STRBUF_DEFAULT_SIZE else nat len + 1)"

lemma strbuf_init_ok:
  assumes "slab_ok h" "strbuf_size len \<le> 1024 * 1024"
  obtains s h' where "memslice_wrap_strbuf_init len h = Inr (s, h')" "sb_ok (s, h')" "sb_length s = 0"
    "ms_until (sb_ms s) = strbuf_size len" "sb_fresh h (s, h')"
proof -
  let ?n = "strbuf_size len"
  obtain a h1 where g: "lev_slab_getBlock ?n h = (Some a, h1)"
    using getBlock_None_iff [of ?n h] assms(2) by (cases "lev_slab_getBlock ?n h") auto
  note gb = getBlock_Some [OF assms(1) g]
  obtain b where b: "blocks h1 a = Some b" "mb_refcount b = 0" "?n \<le> mb_size b" using gb(5) by auto
  let ?b = "b\<lparr>mb_refcount := 1\<rparr>"
  obtain h2 where "lev_slab_incRef (Some a) h1 = Inr (mb_refcount b + 1, h2)" "slab_ok h2"
      "h2 = put_block a (b\<lparr>mb_refcount := mb_refcount b + 1\<rparr>) h1"
    by (rule incRef_block [OF gb(1) b(1) gb(3)])
  then have h2: "lev_slab_incRef (Some a) h1 = Inr (1, h2)" "slab_ok h2" "h2 = put_block a ?b h1"
    using b(2) by simp_all
  let ?ms = "\<lparr>ms_mb = a, ms_slice = 0, ms_until = ?n\<rparr>"
  have ms: "memslice_ok h2 ?ms" using b by (intro memslice_okI [where b = ?b]) (simp_all add: h2(3) put_block_def)
  have n: "0 < ?n" by (simp add: strbuf_size_def STRBUF_DEFAULT_SIZE_def)
  obtain h3 where h3: "slice_store ?ms 0 [0] h2 = Inr h3" "slab_ok h3" "memslice_ok h3 ?ms" "refs h3 = refs h2"
      "\<And>x. x \<noteq> a \<Longrightarrow> blocks h3 x = blocks h2 x"
    by (rule slice_store_ok [OF h2(2) ms, of 0 "[0]"]) (use n in auto)
  have refs2: "refs h2 a = 1" "\<And>x. x \<noteq> a \<Longrightarrow> refs h2 x = refs h x"
    using gb(4) by (simp_all add: refs_def h2(3) put_block_def)
  have "memslice_wrap_strbuf_init len h = Inr (\<lparr>sb_ms = ?ms, sb_length = 0\<rparr>, h3)"
    using g h2(1) h3(1)
    by (simp add: memslice_wrap_strbuf_init_def strbuf_size_def lev_memslice_ensure_null_def)
  moreover have "sb_fresh h (\<lparr>sb_ms = ?ms, sb_length = 0\<rparr>, h3)"
  proof -
    have "blocks h3 x = blocks h x" if "0 < refs h x" for x
      using that gb(2,4) h3(5) by (cases "x = a") (auto simp: h2(3) put_block_def)
    then show ?thesis using gb(2) refs2 h3(4) by (simp add: sb_fresh_def Let_def)
  qed
  ultimately show thesis
    using n h3(2,3,4) refs2(1) by (intro that) (simp_all add: sb_ok_def)
qed

lemma sb_fresh_next:
  assumes "sb_fresh h st" "sb_next st st'"
  shows "sb_fresh h st'"
proof -
  obtain s h1 s' h2 where st: "st = (s, h1)" "st' = (s', h2)" by (cases st; cases st')
  define a a' where "a = ms_mb (sb_ms s)" and "a' = ms_mb (sb_ms s')"
  have f: "refs h a = 0" "\<And>x. x \<noteq> a \<Longrightarrow> refs h1 x = refs h x" "\<And>x. 0 < refs h x \<Longrightarrow> blocks h1 x = blocks h x"
    using assms(1) by (auto simp: sb_fresh_def st a_def Let_def)
  have n: "\<And>x. x \<noteq> a \<Longrightarrow> x \<noteq> a' \<Longrightarrow> refs h2 x = refs h1 x"
    "\<And>x. x \<noteq> a \<Longrightarrow> 0 < refs h1 x \<Longrightarrow> x \<noteq> a' \<and> blocks h2 x = blocks h1 x"
    "a' \<noteq> a \<Longrightarrow> refs h1 a' = 0 \<and> refs h2 a = 0"
    using assms(2) by (auto simp: sb_next_def st a_def a'_def Let_def)
  have "refs h2 x = refs h x" if "x \<noteq> a'" for x
    using that f(1,2) n(1,3) by (cases "x = a") auto
  moreover have "blocks h2 x = blocks h x" if "0 < refs h x" for x
  proof -
    have "x \<noteq> a" using that f(1) by auto
    then show ?thesis using that f(2,3) n(2) [of x] by simp
  qed
  moreover have "refs h a' = 0" using f(1,2) n(3) by (cases "a' = a") auto
  ultimately show ?thesis by (simp add: sb_fresh_def st a'_def [symmetric] Let_def)
qed

lemma strbuf_free_ok:
  assumes "sb_ok (s, h')" "sb_fresh h (s, h')"
  obtains h'' where "memslice_wrap_strbuf_free s h' = Inr h''" "same_use h h''"
proof -
  let ?a = "ms_mb (sb_ms s)"
  have r: "slab_ok h'" "refs h' ?a = 1" using assms(1) by (auto simp: sb_ok_def)
  obtain k h'' where d: "lev_slab_decRef (Some ?a) h' = Inr (k, h'')" "slab_ok h''" "refs h'' ?a = refs h' ?a - 1"
    "\<And>x. x \<noteq> ?a \<Longrightarrow> blocks h'' x = blocks h' x"
    by (rule decRef_ok [OF r(1), of ?a 1]) (use r(2) in auto)
  have "refs h'' x = refs h x" for x
    using assms(2) d(3,4) r(2) by (cases "x = ?a") (auto simp: sb_fresh_def Let_def refs_def)
  moreover have "blocks h'' x = blocks h x" if "0 < refs h x" for x
    using that assms(2) d(4) by (cases "x = ?a") (auto simp: sb_fresh_def Let_def)
  ultimately show thesis
    using d(1,2) by (intro that [of h'']) (auto simp: memslice_wrap_strbuf_free_def same_use_def)
qed

lemma strbuf_string_ok:
  assumes "sb_ok (s, h)"
  shows "memslice_wrap_strbuf_string s h = Inr (sb_text (s, h))"
proof -
  obtain b where b: "blocks h (ms_mb (sb_ms s)) = Some b" "ms_slice (sb_ms s) + ms_until (sb_ms s) \<le> mb_size b"
    using assms by (auto simp: sb_ok_def elim: memslice_okE)
  with assms show ?thesis
    by (auto simp: memslice_wrap_strbuf_string_def block_read_def deref_def sb_text_def slice_mem_def [abs_def]
        mem_read_def sb_ok_def intro!: nth_equalityI)
qed

end
