(* ===== verification/Json_Text.thy ===== *)
theory Json_Text
  imports Json_Strbuf
begin

text \<open>
  What the JSON encoder writes: the texts of strings, numbers and values as a specification that
  knows no buffers, and the refinement lemmas of the encoder's functions against it.
\<close>

section \<open>Strings\<close>

text \<open>
  The texts the encoder may write for the characters of a string: an escaped character is followed
  by one more byte, whatever the buffer held at that place.
\<close>

inductive chars_text :: "byte list \<Rightarrow> byte list \<Rightarrow> bool" where
  ct_Nil: "chars_text [] []"
| ct_plain: "char2escape c = None \<Longrightarrow> chars_text cs e \<Longrightarrow> chars_text (c # cs) (c # e)"
| ct_escaped: "char2escape c = Some escstr \<Longrightarrow> chars_text cs e \<Longrightarrow> chars_text (c # cs) (escstr @ stale # e)"

definition string_text :: "byte list \<Rightarrow> byte list \<Rightarrow> bool" where
  "string_text s e \<longleftrightarrow> (\<exists>m. chars_text s m \<and> e = 0x22 # m @ [0x22])"

definition char_len :: "byte \<Rightarrow> nat" where
  "char_len c = (case char2escape c of None \<Rightarrow> 1 | Some escstr \<Rightarrow> length escstr + 1)"

definition chars_len :: "byte list \<Rightarrow> nat" where
  "chars_len s = sum_list (map char_len s)"

text \<open>The room reserved for a string is \<open>length s * 6 + 2\<close> bytes and a null byte.\<close>

definition string_fits :: "byte list \<Rightarrow> bool" where
  "string_fits s \<longleftrightarrow> chars_len s \<le> length s * 6 + 1"

definition plain_string :: "byte list \<Rightarrow> bool" where
  "plain_string s \<longleftrightarrow> (\<forall>c \<in> set s. char2escape c = None)"

lemma length_chars_text: "chars_text s e \<Longrightarrow> length e = chars_len s"
  by (induction rule: chars_text.induct) (simp_all add: chars_len_def char_len_def)

lemma chars_text_plain: "plain_string s \<Longrightarrow> chars_text s e \<longleftrightarrow> e = s"
proof
  show "chars_text s e \<Longrightarrow> plain_string s \<Longrightarrow> e = s"
    by (induction rule: chars_text.induct) (auto simp: plain_string_def)
next
  assume "plain_string s" "e = s"
  then show "chars_text s e"
    by (induction s arbitrary: e) (auto simp: plain_string_def intro: chars_text.intros)
qed

lemma plain_string_fits: "plain_string s \<Longrightarrow> string_fits s"
proof -
  assume "plain_string s"
  then have "chars_len s = length s"
    by (induction s) (simp_all add: plain_string_def char_len_def chars_len_def)
  then show "string_fits s" by (simp add: string_fits_def)
qed

text \<open>Every escape is short, and is a C string.\<close>

lemma char2escape_length: "char2escape c = Some escstr \<Longrightarrow> 2 \<le> length escstr \<and> length escstr \<le> 6"
  by (auto simp: char2escape_def split: if_splits)

lemma escape_digit_ne_0: "d < 16 \<Longrightarrow> escape_digit d \<noteq> 0"
proof -
  assume d: "d < 16"
  then have "unat (word_of_nat (48 + d) :: byte) = 48 + d" "unat (word_of_nat (87 + d) :: byte) = 87 + d"
    unfolding unat_of_nat by simp_all
  then show ?thesis by (auto simp: escape_digit_def)
qed

lemma char2escape_no_null: "char2escape c = Some escstr \<Longrightarrow> takeWhile (\<lambda>b. b \<noteq> 0) escstr = escstr"
proof -
  have "unat c < 256" using unsigned_less [where 'a = nat, of c] by simp
  then have "unat c div 16 < 16" "unat c mod 16 < 16" by (simp_all add: div_less_iff_less_mult)
  then show "char2escape c = Some escstr \<Longrightarrow> takeWhile (\<lambda>b. b \<noteq> 0) escstr = escstr"
    using escape_digit_ne_0 by (auto simp: char2escape_def split: if_splits)
qed

text \<open>When there is room the loop of \<open>lev_memslice_append_string\<close> is a store.\<close>

lemma slice_store_value:
  assumes "memslice_ok h ms" "pos + length cs \<le> ms_until ms"
  shows "slice_store ms pos cs h =
    Inr (put_block (ms_mb ms)
      ((the (blocks h (ms_mb ms)))\<lparr>mb_bytes := mem_write (mb_bytes (the (blocks h (ms_mb ms)))) (ms_slice ms + pos) cs\<rparr>) h)"
  using assms by (auto simp: slice_store_def block_write_def deref_def elim!: memslice_okE)

lemma memslice_ok_store:
  assumes "memslice_ok h ms"
  shows "memslice_ok (put_block (ms_mb ms) ((the (blocks h (ms_mb ms)))\<lparr>mb_bytes := m\<rparr>) h) ms"
  using assms by (auto simp: put_block_def intro!: memslice_okI elim!: memslice_okE)

lemma slice_store_twice:
  assumes "memslice_ok h ms" "pos + length (cs @ ds) \<le> ms_until ms" "slice_store ms pos cs h = Inr h1"
  shows "memslice_ok h1 ms \<and> slice_store ms (pos + length cs) ds h1 = slice_store ms pos (cs @ ds) h"
proof -
  define b where "b = the (blocks h (ms_mb ms))"
  have h1: "h1 = put_block (ms_mb ms) (b\<lparr>mb_bytes := mem_write (mb_bytes b) (ms_slice ms + pos) cs\<rparr>) h"
    using slice_store_value [OF assms(1), of pos cs] assms(2,3) by (simp add: b_def)
  have ok: "memslice_ok h1 ms" unfolding h1 b_def by (rule memslice_ok_store [OF assms(1)])
  have 1: "slice_store ms pos (cs @ ds) h =
      Inr (put_block (ms_mb ms) (b\<lparr>mb_bytes := mem_write (mb_bytes b) (ms_slice ms + pos) (cs @ ds)\<rparr>) h)"
    using slice_store_value [OF assms(1,2)] by (simp add: b_def)
  have 2: "slice_store ms (pos + length cs) ds h1 =
      Inr (put_block (ms_mb ms) (b\<lparr>mb_bytes := mem_write (mb_bytes b) (ms_slice ms + pos) (cs @ ds)\<rparr>) h)"
    using slice_store_value [OF ok, of "pos + length cs" ds] assms(2)
      mem_write_append [of "mb_bytes b" "ms_slice ms + pos" cs ds]
    by (simp add: h1 put_block_def add.assoc)
  show ?thesis using ok by (simp add: 1 2)
qed

lemma append_string_loop_store:
  assumes "length cs \<le> space" "memslice_ok h ms" "pos + i + length cs \<le> ms_until ms"
  shows "append_string_loop ms pos i space cs h =
    bind_res (slice_store ms (pos + i) cs h) (\<lambda>h'. Inr (i + length cs, ms, h'))"
  using assms
proof (induction cs arbitrary: i space h)
  case Nil
  then obtain b where "blocks h (ms_mb ms) = Some b" by (auto elim: memslice_okE)
  then have "slice_store ms (pos + i) [] h = Inr h"
    using Nil by (simp add: slice_store_value put_block_def fun_upd_idem)
  then show ?case by simp
next
  case (Cons c cs)
  obtain h1 where 1: "slice_store ms (pos + i) [c] h = Inr h1"
    using slice_store_value [OF Cons.prems(2), of "pos + i" "[c]"] Cons.prems(3) by simp
  have 2: "memslice_ok h1 ms \<and> slice_store ms (pos + i + 1) cs h1 = slice_store ms (pos + i) (c # cs) h"
    using slice_store_twice [OF Cons.prems(2) _ 1, of cs] Cons.prems(3) by simp
  have "append_string_loop ms pos i space (c # cs) h = append_string_loop ms pos (Suc i) (space - 1) cs h1"
    using Cons.prems(1) 1 by simp
  also have "\<dots> = bind_res (slice_store ms (pos + Suc i) cs h1) (\<lambda>h'. Inr (Suc i + length cs, ms, h'))"
    using Cons.prems 2 by (intro Cons.IH) auto
  finally show ?case using 2 by simp
qed

text \<open>A step inside the reserved room: bytes are stored and the length moves past them.\<close>

definition sb_stays :: "'a slab_scheme sb \<Rightarrow> 'a slab_scheme sb \<Rightarrow> byte list \<Rightarrow> bool" where
  "sb_stays st st' e \<longleftrightarrow> sb_ok st' \<and> sb_next st st' \<and> sb_text st' = sb_text st @ e \<and> sb_ms (fst st') = sb_ms (fst st)"

lemma sb_stays_trans: "sb_stays st st1 e \<Longrightarrow> sb_stays st1 st2 f \<Longrightarrow> sb_stays st st2 (e @ f)"
  by (auto simp: sb_stays_def intro: sb_next_trans)

lemma sb_stays_from:
  "sb_next st st1 \<Longrightarrow> sb_text st1 = sb_text st \<Longrightarrow> sb_stays st1 st2 e \<Longrightarrow>
   sb_ok st2 \<and> sb_next st st2 \<and> sb_text st2 = sb_text st @ e"
  using sb_next_trans [of st st1 st2] by (simp add: sb_stays_def)

lemma sb_store_stays:
  assumes "sb_ok (s, h)" "sb_length s + length bs + k \<le> ms_until (sb_ms s)"
  shows "\<exists>h' stale. slice_store (sb_ms s) (sb_length s) bs h = Inr h' \<and> length stale = k \<and>
    sb_stays (s, h) (s\<lparr>sb_length := sb_length s + length bs + k\<rparr>, h') (bs @ stale)"
proof -
  obtain h' where h': "slice_store (sb_ms s) (sb_length s) bs h = Inr h'"
    "\<And>n. n \<le> ms_until (sb_ms s) \<Longrightarrow> sb_ok (s\<lparr>sb_length := n\<rparr>, h') \<and> sb_next (s, h) (s\<lparr>sb_length := n\<rparr>, h')"
    "slice_mem h' (sb_ms s) = mem_write (slice_mem h (sb_ms s)) (sb_length s) bs"
    by (rule sb_store [OF assms(1), of bs]) (use assms(2) in auto)
  define stale where "stale = mem_read (slice_mem h' (sb_ms s)) (sb_length s + length bs) k"
  have "sb_text (s\<lparr>sb_length := sb_length s + length bs + k\<rparr>, h') = sb_text (s, h) @ bs @ stale"
    using mem_read_append [of "slice_mem h' (sb_ms s)" 0 "sb_length s + length bs" k]
      mem_read_write_prefix [of "slice_mem h (sb_ms s)" 0 "sb_length s" bs]
    by (simp add: sb_text_def stale_def h'(3))
  with h' assms(2) show ?thesis
    by (intro exI [of _ h'] exI [of _ stale]) (simp add: sb_stays_def stale_def)
qed

lemma strbuf_with_length [simp]: "\<lparr>sb_ms = sb_ms s, sb_length = n\<rparr> = s\<lparr>sb_length := n\<rparr>"
  by (cases s) simp

lemma append_char_unsafe_stays:
  assumes "sb_ok (s, h)" "sb_length s < ms_until (sb_ms s)"
  shows "\<exists>st'. strbuf_append_char_unsafe c (s, h) = Inr st' \<and> sb_stays (s, h) st' [c]"
  using sb_store_stays [OF assms(1), of "[c]" 0] assms(2)
  by (auto simp: strbuf_append_char_unsafe_def lev_memslice_append_char_unsafe_def)

lemma json_append_chars_stays:
  assumes "sb_ok (s, h)" "7 \<le> ms_until (sb_ms s)" "sb_length s + chars_len cs \<le> ms_until (sb_ms s)"
  shows "\<exists>st' e. json_append_chars cs (s, h) = Inr st' \<and> sb_stays (s, h) st' e \<and> chars_text cs e"
  using assms
proof (induction cs arbitrary: s h)
  case Nil
  then show ?case by (auto simp: sb_stays_def intro: ct_Nil)
next
  case (Cons c cs)
  have len: "chars_len (c # cs) = char_len c + chars_len cs" by (simp add: chars_len_def)
  have step: "\<exists>s' h' f. json_append_chars (c # cs) (s, h) = json_append_chars cs (s', h') \<and>
      sb_stays (s, h) (s', h') f \<and> length f = char_len c \<and> (\<forall>e. chars_text cs e \<longrightarrow> chars_text (c # cs) (f @ e))"
  proof (cases "char2escape c")
    case None
    then obtain h' where "slice_store (sb_ms s) (sb_length s) [c] h = Inr h'"
        "sb_stays (s, h) (s\<lparr>sb_length := sb_length s + 1\<rparr>, h') [c]"
      using sb_store_stays [OF Cons.prems(1), of "[c]" 0] Cons.prems(3) len by (auto simp: char_len_def)
    with None show ?thesis
      by (auto simp: lev_memslice_append_char_unsafe_def char_len_def
          intro!: exI [of _ "s\<lparr>sb_length := sb_length s + 1\<rparr>"] exI [of _ h'] exI [of _ "[c]"] ct_plain)
  next
    case (Some escstr)
    have e: "2 \<le> length escstr" "length escstr \<le> 6" "takeWhile (\<lambda>b. b \<noteq> 0) escstr = escstr"
      using char2escape_length [OF Some] char2escape_no_null [OF Some] by auto
    obtain h' stale where h': "slice_store (sb_ms s) (sb_length s) escstr h = Inr h'" "length stale = 1"
        "sb_stays (s, h) (s\<lparr>sb_length := sb_length s + length escstr + 1\<rparr>, h') (escstr @ stale)"
      using sb_store_stays [OF Cons.prems(1), of escstr 1] Cons.prems(3) len Some by (auto simp: char_len_def)
    have "append_string_loop (sb_ms s) (sb_length s) 0 (lev_memslice_empty_length (sb_ms s)) escstr h =
        Inr (length escstr, sb_ms s, h')"
      using append_string_loop_store [of escstr "lev_memslice_empty_length (sb_ms s)" h "sb_ms s" "sb_length s" 0]
        e Cons.prems len Some h'(1)
      by (auto simp: lev_memslice_empty_length_def char_len_def elim: sb_okE)
    then have "json_append_chars (c # cs) (s, h) =
        json_append_chars cs (s\<lparr>sb_length := sb_length s + length escstr + 1\<rparr>, h')"
      by (simp add: strbuf_append_string_def lev_memslice_append_string_def Some e(3))
    moreover have "chars_text (c # cs) ((escstr @ stale) @ e)" if "chars_text cs e" for e
      using that h'(2) ct_escaped [OF Some] by (cases stale) auto
    ultimately show ?thesis
      using h'(2,3) Some by (intro exI [of _ "escstr @ stale"] exI) (auto simp: char_len_def)
  qed
  then obtain s' h' f where s': "json_append_chars (c # cs) (s, h) = json_append_chars cs (s', h')"
      "sb_stays (s, h) (s', h') f" "length f = char_len c" "\<And>e. chars_text cs e \<Longrightarrow> chars_text (c # cs) (f @ e)"
    by blast
  have "sb_length s' = sb_length s + char_len c"
    using s'(2,3) by (metis length_append length_sb_text sb_stays_def)
  then obtain st' e where "json_append_chars cs (s', h') = Inr st'" "sb_stays (s', h') st' e" "chars_text cs e"
    using Cons.IH [of s' h'] Cons.prems(2,3) s'(2) len by (auto simp: sb_stays_def)
  with s' show ?case using sb_stays_trans by metis
qed

lemma json_append_string_adds:
  assumes "string_fits str"
  shows "sb.adds (\<lambda>st. lift_j (json_append_string str st)) (length str * 6 + 3) (string_text str)"
  unfolding sb.adds_def
proof (intro allI impI)
  fix st :: "'a slab_scheme sb"
  assume st: "sb_ok st \<and> length (sb_text st) + (length str * 6 + 3) < STRBUF_LIMIT"
  obtain s h where sh: "st = (s, h)" by (cases st)
  let ?n = "sb_length s + (length str * 6 + 2)"
  obtain ms h1 where 1: "lev_memslice_ensure_empty_length (sb_ms s) ?n h = Inr (ms, h1)"
    "sb_ok (s\<lparr>sb_ms := ms\<rparr>, h1)" "sb_next (s, h) (s\<lparr>sb_ms := ms\<rparr>, h1)" "?n < ms_until ms"
    "sb_text (s\<lparr>sb_ms := ms\<rparr>, h1) = sb_text (s, h)"
    by (rule sb_grown [of s h ?n]) (use st sh in \<open>auto simp: STRBUF_LIMIT_def\<close>)
  define s1 where "s1 = s\<lparr>sb_ms := ms\<rparr>"
  have room: "sb_length s1 + length str * 6 + 2 < ms_until (sb_ms s1)" using 1(4) by (simp add: s1_def)
  obtain s2 h2 where 2: "strbuf_append_char_unsafe 0x22 (s1, h1) = Inr (s2, h2)" "sb_stays (s1, h1) (s2, h2) [0x22]"
    using append_char_unsafe_stays [of s1 h1 "0x22"] 1(2) room by (auto simp: s1_def)
  have l2: "sb_length s2 = sb_length s1 + 1" "sb_ms s2 = sb_ms s1" "sb_ok (s2, h2)"
    using 2(2) length_sb_text by (auto simp: sb_stays_def) (metis length_append_singleton length_sb_text)
  have c: "chars_len str \<le> length str * 6 + 1" using assms by (simp add: string_fits_def)
  show "\<exists>r st' e. lift_j (json_append_string str st) = Done r st' \<and> sb_ok st' \<and> sb_next st st' \<and>
      sb_text st' = sb_text st @ e \<and> string_text str e \<and> length e \<le> length str * 6 + 3"
  proof (cases "str = []")
    case True
    obtain st4 where 4: "strbuf_append_char_unsafe 0x22 (s2, h2) = Inr st4" "sb_stays (s2, h2) st4 [0x22]"
      using append_char_unsafe_stays [of s2 h2 "0x22"] l2 room True by auto
    have "json_append_string str st = Inr st4"
      using 1(1) 2(1) 4(1) True
      by (simp add: sh json_append_string_def strbuf_ensure_empty_length_def s1_def)
    moreover have "string_text str [0x22, 0x22]" using True by (auto simp: string_text_def intro: ct_Nil)
    moreover have "sb_stays (s1, h1) st4 [0x22, 0x22]" using sb_stays_trans [OF 2(2) 4(2)] by simp
    ultimately show ?thesis
      using sb_stays_from [of "(s, h)" "(s1, h1)" st4] 1(3,5) by (auto simp: sh s1_def intro!: exI [of _ st4])
  next
    case False
    then have "7 \<le> ms_until (sb_ms s2)" using room l2(2) by (cases str) auto
    then obtain s3 h3 m where 3: "json_append_chars str (s2, h2) = Inr (s3, h3)" "sb_stays (s2, h2) (s3, h3) m"
        "chars_text str m"
      using json_append_chars_stays [of s2 h2 str] l2 room c by auto
    have l3: "sb_length s3 = sb_length s2 + chars_len str" "sb_ms s3 = sb_ms s1" "sb_ok (s3, h3)"
      using 3(2) l2(2) length_chars_text [OF 3(3)] by (auto simp: sb_stays_def) (metis length_append length_sb_text)
    obtain st4 where 4: "strbuf_append_char_unsafe 0x22 (s3, h3) = Inr st4" "sb_stays (s3, h3) st4 [0x22]"
      using append_char_unsafe_stays [of s3 h3 "0x22"] l2 l3 room c by auto
    have "json_append_string str st = Inr st4"
      using 1(1) 2(1) 3(1) 4(1)
      by (simp add: sh json_append_string_def strbuf_ensure_empty_length_def s1_def)
    moreover have "sb_stays (s1, h1) st4 (0x22 # m @ [0x22])"
      using sb_stays_trans [OF sb_stays_trans [OF 2(2) 3(2)] 4(2)] by simp
    ultimately show ?thesis
      using sb_stays_from [of "(s, h)" "(s1, h1)" st4] 1(3,5) 3(3) length_chars_text [OF 3(3)] c
      by (auto simp: sh s1_def string_text_def intro!: exI [of _ st4])
  qed
qed

section \<open>Numbers\<close>

text \<open>A decimal point of a locale: the dot, or a byte that is in no number.\<close>

definition locale_point :: "byte \<Rightarrow> bool" where
  "locale_point dp \<longleftrightarrow> dp = 0x2e \<or> \<not> valid_number_character dp"

lemma valid_digit: "is_digit b \<Longrightarrow> valid_number_character b"
proof -
  assume "is_digit b"
  then have "unat b \<in> {48..<58}" by (simp add: is_digit_def)
  moreover have "b = word_of_nat (unat b)" by simp
  ultimately have "b \<in> word_of_nat ` {48..<58}" by blast
  also have "word_of_nat ` {48..<58} = set (map word_of_nat [48..<58] :: byte list)" by (simp only: set_map set_upt)
  finally have "list_ex (\<lambda>x. b = x) (map word_of_nat [48..<58])" by (auto simp: list_ex_iff)
  then show "valid_number_character b" by (auto simp: upt_rec valid_number_character_def)
qed

lemma valid_number_bytes:
  "valid_number_character 0x2d" "valid_number_character 0x2b" "valid_number_character 0x65"
  "valid_number_character 0x61" "valid_number_character 0x66" "valid_number_character 0x69"
  "valid_number_character 0x6e" "valid_number_character 0x30"
  by (simp_all add: valid_number_character_def)

text \<open>Only the point depends on the locale.\<close>

definition to_point :: "byte \<Rightarrow> byte \<Rightarrow> byte \<Rightarrow> byte" where
  "to_point dp p b = (if b = dp then p else b)"

lemma map_to_point: "(\<And>b. b \<in> set bs \<Longrightarrow> valid_number_character b) \<Longrightarrow> \<not> valid_number_character dp \<Longrightarrow>
    map (to_point dp p) bs = bs"
  by (rule map_idI) (auto simp: to_point_def)

lemma set_strip_zeros: "set (strip_zeros ds) \<subseteq> set ds"
  by (auto simp: strip_zeros_def dest: set_dropWhileD)

lemma map_with_point:
  assumes "\<And>b. b \<in> set ip \<union> set fp \<Longrightarrow> valid_number_character b" "\<not> valid_number_character dp"
  shows "map (to_point dp p) (with_point dp ip fp) = with_point p ip fp"
proof -
  have "map (to_point dp p) ip = ip" "map (to_point dp p) fp = fp"
    using assms by (auto intro!: map_to_point)
  then show ?thesis by (simp add: with_point_def to_point_def)
qed

lemma valid_dec_digits: "b \<in> set (dec_digits n) \<Longrightarrow> valid_number_character b"
  using dec_digits_digits valid_digit by blast

lemma map_exp_text: "\<not> valid_number_character dp \<Longrightarrow> map (to_point dp p) (exp_text x) = exp_text x"
  using valid_number_bytes valid_dec_digits
  by (intro map_to_point) (auto simp: exp_text_def split: if_splits)

lemma map_fmt_ratio:
  assumes "\<not> valid_number_character dp"
  shows "map (to_point dp p) (fmt_ratio dp N a b) = fmt_ratio p N a b"
proof -
  have sub: "set (take k (dec_digits d)) \<union> set (strip_zeros (drop k' (dec_digits d))) \<subseteq> set (dec_digits d)"
    "set (strip_zeros (dec_digits d)) \<subseteq> set (dec_digits d)" for k k' d
    using set_strip_zeros [of "drop k' (dec_digits d)"] set_strip_zeros [of "dec_digits d"]
    by (auto dest: in_set_takeD in_set_dropD)
  have 1: "map (to_point dp p) (with_point dp (take k (dec_digits d)) (strip_zeros (drop k' (dec_digits d)))) =
      with_point p (take k (dec_digits d)) (strip_zeros (drop k' (dec_digits d)))" for k k' d
    by (rule map_with_point [OF _ assms]) (use sub(1) valid_dec_digits in blast)
  have 2: "map (to_point dp p) (with_point dp [48] (replicate k 48 @ strip_zeros (dec_digits d))) =
      with_point p [48] (replicate k 48 @ strip_zeros (dec_digits d))" for k d
  proof (rule map_with_point [OF _ assms])
    fix b assume "b \<in> set [48] \<union> set (replicate k 48 @ strip_zeros (dec_digits d))"
    then have "b = 48 \<or> b \<in> set (dec_digits d)" using sub(2) by auto
    then show "valid_number_character b" using valid_dec_digits valid_number_bytes by auto
  qed
  define x0 where "x0 = dec_exp a b"
  define d0 where "d0 = (if x0 \<le> int N - 1 then round_half_even (a * 10 ^ nat (int N - 1 - x0)) b
                else round_half_even a (b * 10 ^ nat (x0 - (int N - 1))))"
  define dx where "dx = (if d0 = 10 ^ N then (10 ^ (N - 1), x0 + 1) else (d0, x0))"
  show ?thesis
    unfolding fmt_ratio_def Let_def x0_def [symmetric] d0_def [symmetric] dx_def [symmetric]
    by (cases dx) (simp only: prod.case map_append map_exp_text [OF assms] 1 2 split: if_split, simp)
qed

lemma fmt_g_to_point:
  assumes "\<not> valid_number_character dp"
  shows "map (to_point dp p) (fmt_g dp N w) = fmt_g p N w"
proof -
  have id: "to_point dp p b = b" if "valid_number_character b" for b
    using that assms by (auto simp: to_point_def)
  show ?thesis
    using valid_number_bytes [THEN id] map_fmt_ratio [OF assms]
    by (simp add: fmt_g_def split: prod.split)
qed

lemma set_number_format_value:
  assumes "1 \<le> N" "N \<le> 14"
  shows "\<exists>fmt. set_number_format N = Inr fmt \<and> digits_val (butlast (drop 2 fmt)) = nat N"
proof -
  have "N \<in> {1..14}" using assms by simp
  also have "{1..14} = set [1..14]" by simp
  finally have "list_ex (\<lambda>k. N = k) [1..14]" by (auto simp: list_ex_iff)
  then show ?thesis by (auto simp: upto.simps set_number_format_def Let_def digits_val_def)
qed

lemma fpconv_g_fmt_value:
  assumes "1 \<le> N" "N \<le> 14" "locale_point dp"
  shows "fpconv_g_fmt dp num N = Inr (fmt_g 0x2e (nat N) num)"
  using set_number_format_value [OF assms(1,2)] fmt_g_to_point [of dp "0x2e" "nat N" num] assms(3)
  by (auto simp: fpconv_g_fmt_def snprintf_g_def locale_point_def to_point_def [abs_def] Let_def)

text \<open>The text of a number, \<open>None\<close> when the configuration refuses it.\<close>

definition json_number_text :: "json_config \<Rightarrow> lua_Number \<Rightarrow> byte list option" where
  "json_number_text cfg num =
     (if isinf num \<or> isnan num then
        (if encode_invalid_numbers cfg = 0 then None
         else if encode_invalid_numbers cfg = 1 then
           Some (if isnan num then ascii ''NaN'' else if dbl_sign num then ascii ''-Infinity'' else ascii ''Infinity'')
         else Some (ascii ''null''))
      else Some (fmt_g 0x2e (nat (encode_number_precision cfg)) num))"

definition config_ok :: "json_config \<Rightarrow> bool" where
  "config_ok cfg \<longleftrightarrow> 1 \<le> encode_number_precision cfg \<and> encode_number_precision cfg \<le> 14"

lemma strbuf_print_stays:
  assumes "sb_ok (s, h)" "sb_length s + length bs < ms_until (sb_ms s)"
  shows "\<exists>st'. strbuf_print bs (s, h) = Inr st' \<and> sb_stays (s, h) st' bs"
proof -
  obtain h' where h': "slice_store (sb_ms s) (sb_length s) (bs @ [0]) h = Inr h'"
    "\<And>n. n \<le> ms_until (sb_ms s) \<Longrightarrow> sb_ok (s\<lparr>sb_length := n\<rparr>, h') \<and> sb_next (s, h) (s\<lparr>sb_length := n\<rparr>, h')"
    "slice_mem h' (sb_ms s) = mem_write (slice_mem h (sb_ms s)) (sb_length s) (bs @ [0])"
    by (rule sb_store [OF assms(1), of "bs @ [0]"]) (use assms(2) in auto)
  have "sb_text (s\<lparr>sb_length := sb_length s + length bs + 1\<rparr>, h') = sb_text (s, h) @ bs @ [0]"
    using sb_text_store [OF h'(3)] by simp
  then have "sb_text (s\<lparr>sb_length := sb_length s + length bs\<rparr>, h') = sb_text (s, h) @ bs"
    by (simp add: sb_text_def mem_read_def)
  with h' assms(2) show ?thesis by (simp add: sb_stays_def strbuf_print_def)
qed

lemma strbuf_print_adds:
  assumes "length bs \<le> n"
  shows "sb.adds (\<lambda>st. lift_j (bind_res (strbuf_ensure_empty_length n st) (strbuf_print bs))) n (\<lambda>e. e = bs)"
  unfolding sb.adds_def
proof (intro allI impI)
  fix st :: "'a slab_scheme sb"
  assume st: "sb_ok st \<and> length (sb_text st) + n < STRBUF_LIMIT"
  obtain s h where sh: "st = (s, h)" by (cases st)
  obtain ms h1 where 1: "lev_memslice_ensure_empty_length (sb_ms s) (sb_length s + n) h = Inr (ms, h1)"
    "sb_ok (s\<lparr>sb_ms := ms\<rparr>, h1)" "sb_next (s, h) (s\<lparr>sb_ms := ms\<rparr>, h1)" "sb_length s + n < ms_until ms"
    "sb_text (s\<lparr>sb_ms := ms\<rparr>, h1) = sb_text (s, h)"
    by (rule sb_grown [of s h "sb_length s + n"]) (use st sh in \<open>auto simp: STRBUF_LIMIT_def\<close>)
  obtain st' where 2: "strbuf_print bs (s\<lparr>sb_ms := ms\<rparr>, h1) = Inr st'" "sb_stays (s\<lparr>sb_ms := ms\<rparr>, h1) st' bs"
    using strbuf_print_stays [OF 1(2), of bs] 1(4) assms by auto
  have "lift_j (bind_res (strbuf_ensure_empty_length n st) (strbuf_print bs)) = Done () st'"
    using 1(1) 2(1) by (simp add: sh strbuf_ensure_empty_length_def)
  with sb_stays_from [OF 1(3,5) 2(2)] assms
  show "\<exists>r st' e. lift_j (bind_res (strbuf_ensure_empty_length n st) (strbuf_print bs)) = Done r st' \<and>
      sb_ok st' \<and> sb_next st st' \<and> sb_text st' = sb_text st @ e \<and> e = bs \<and> length e \<le> n"
    by (auto simp: sh)
qed

lemma append_mem_adds: "length bs \<le> n \<Longrightarrow> sb.adds (\<lambda>st. lift_j (strbuf_append_mem bs st)) n (\<lambda>e. e = bs)"
  by (rule sb.adds_weaken [OF sb.adds_app]) simp_all

lemma append_char_adds: "sb.adds (\<lambda>st. lift_j (strbuf_append_char c st)) 1 (\<lambda>e. e = [c])"
  using append_mem_adds [of "[c]" 1] by (simp add: strbuf_append_char_mem)

lemma json_append_number_adds:
  assumes "config_ok cfg" "locale_point dp" "json_number_text cfg num = Some e"
  shows "sb.adds (json_append_number dp cfg num :: ('a, unit) enc) FPCONV_G_FMT_BUFSIZE (\<lambda>e'. e' = e)"
proof (cases "isinf num \<or> isnan num")
  case True
  then have inv: "encode_invalid_numbers cfg \<noteq> 0" using assms(3) by (auto simp: json_number_text_def)
  have "isinf num \<Longrightarrow> \<not> isnan num" by (simp add: isinf_def isnan_def)
  with True inv assms(3) have "json_append_number dp cfg num = (\<lambda>st :: 'a slab_scheme sb. lift_j (strbuf_append_mem e st))"
    by (auto simp: json_append_number_def json_number_text_def split: if_splits)
  moreover have "length e \<le> FPCONV_G_FMT_BUFSIZE"
    using assms(3) True inv by (auto simp: json_number_text_def FPCONV_G_FMT_BUFSIZE_def ascii_def split: if_splits)
  ultimately show ?thesis using append_mem_adds by metis
next
  case False
  with assms have e: "e = fmt_g 0x2e (nat (encode_number_precision cfg)) num"
    by (auto simp: json_number_text_def)
  have len: "length e \<le> FPCONV_G_FMT_BUFSIZE"
    using length_fmt_g [of "nat (encode_number_precision cfg)" "0x2e" num] assms(1)
    unfolding e config_ok_def FPCONV_G_FMT_BUFSIZE_def by linarith
  have "json_append_number dp cfg num = (\<lambda>st :: 'a slab_scheme sb.
      lift_j (bind_res (strbuf_ensure_empty_length FPCONV_G_FMT_BUFSIZE st) (strbuf_print e)))"
    using False fpconv_g_fmt_value [OF _ _ assms(2)] assms(1)
    by (intro ext) (simp add: json_append_number_def config_ok_def e)
  then show ?thesis using strbuf_print_adds [OF len] by metis
qed

section \<open>Arrays and objects\<close>

text \<open>
  The reference for \<open>lua_array_length\<close>: a table whose keys are all positive integers is an array as
  long as its largest key, unless it is sparse beyond the configured ratio; any other table is an
  object (-1). \<open>None\<close> says that the table is refused.
\<close>

definition int_key :: "lval \<Rightarrow> int option" where
  "int_key key = (case key of LNumber k \<Rightarrow> (case dbl_int k of Some i \<Rightarrow> if 1 \<le> i then Some i else None | None \<Rightarrow> None)
                            | _ \<Rightarrow> None)"

definition json_shape :: "json_config \<Rightarrow> ltable \<Rightarrow> int option" where
  "json_shape cfg kvs =
     (if \<forall>(k, v) \<in> set kvs. int_key k \<noteq> None then
        let mx = Max (insert 0 ((\<lambda>(k, v). the (int_key k)) ` set kvs)) in
        if 0 < encode_sparse_ratio cfg \<and> int (length kvs) * encode_sparse_ratio cfg < mx \<and> encode_sparse_safe cfg < mx
        then (if encode_sparse_convert cfg = 0 then None else Some (-1))
        else Some mx
      else Some (-1))"

text \<open>What the C arithmetic of \<open>lua_array_length\<close> can hold.\<close>

definition keys_in_int :: "json_config \<Rightarrow> ltable \<Rightarrow> bool" where
  "keys_in_int cfg kvs \<longleftrightarrow>
     (\<forall>(k, v) \<in> set kvs. \<forall>w. k = LNumber w \<longrightarrow> \<not> isinf w \<and> (\<forall>i. dbl_int w = Some i \<longrightarrow> i \<le> INT_MAX)) \<and>
     0 \<le> encode_sparse_ratio cfg \<and> int (length kvs) * encode_sparse_ratio cfg \<le> INT_MAX"

lemma Max_insert_max: "finite S \<Longrightarrow> Max (insert (max a b) S) = Max (insert a (insert b S))" for a b :: int
  by (cases "S = {}") (simp_all add: max.assoc)

lemma array_length_loop_spec:
  assumes "\<forall>(k, v) \<in> set kvs. \<forall>w. k = LNumber w \<longrightarrow> \<not> isinf w \<and> (\<forall>i. dbl_int w = Some i \<longrightarrow> i \<le> INT_MAX)"
    and "0 \<le> mx"
  shows "array_length_loop kvs mx items =
    Inr (if \<forall>(k, v) \<in> set kvs. int_key k \<noteq> None
         then Some (Max (insert mx ((\<lambda>(k, v). the (int_key k)) ` set kvs)), items + int (length kvs)) else None)"
  using assms
proof (induction kvs mx items rule: array_length_loop.induct)
  case (2 key v kvs mx items)
  show ?case
  proof (cases "int_key key")
    case None
    then show ?thesis
      using 2(2) by (cases key) (auto simp: int_key_def split: option.splits if_splits)
  next
    case (Some i)
    then obtain w where w: "key = LNumber w" "dbl_int w = Some i" "1 \<le> i"
      by (cases key) (auto simp: int_key_def split: option.splits if_splits)
    have i: "\<not> isinf w" "i \<le> INT_MAX" using 2(2) w by auto
    have conv: "(if mx < i then c_to_int (- INT_MAX - 1) INT_MAX w else Inr mx) = Inr (max mx i)"
      using c_to_int_dbl_int [OF w(2), of "- INT_MAX - 1" INT_MAX] i w(3) by (auto simp: max_def)
    have "array_length_loop ((key, v) # kvs) mx items = array_length_loop kvs (max mx i) (items + 1)"
      using w i conv by simp
    also have "\<dots> = Inr (if \<forall>(k, v) \<in> set kvs. int_key k \<noteq> None
         then Some (Max (insert (max mx i) ((\<lambda>(k, v). the (int_key k)) ` set kvs)), items + 1 + int (length kvs)) else None)"
      using 2(2,3) w i conv by (intro 2(1)) auto
    finally show ?thesis
      using Some Max_insert_max [of "(\<lambda>(k, v). the (int_key k)) ` set kvs" mx i] by simp
  qed
qed simp

lemma lua_array_length_shape:
  assumes "keys_in_int cfg kvs"
  shows "lua_array_length cfg kvs st =
    (case json_shape cfg kvs of
       Some n \<Rightarrow> Done n st
     | None \<Rightarrow> json_encode_exception cfg (LTable kvs) ''excessively sparse array'' st)"
proof -
  define P where "P \<longleftrightarrow> (\<forall>(k, v) \<in> set kvs. int_key k \<noteq> None)"
  define mx where "mx = Max (insert 0 ((\<lambda>(k, v). the (int_key k)) ` set kvs))"
  have loop: "array_length_loop kvs 0 0 = Inr (if P then Some (mx, int (length kvs)) else None)"
    using array_length_loop_spec [of kvs 0 0] assms by (simp add: keys_in_int_def P_def mx_def)
  have r: "0 \<le> encode_sparse_ratio cfg" "int (length kvs) * encode_sparse_ratio cfg \<le> INT_MAX"
    using assms by (auto simp: keys_in_int_def)
  then have "int_mul (int (length kvs)) (encode_sparse_ratio cfg) = Inr (int (length kvs) * encode_sparse_ratio cfg)"
    by (simp add: int_mul_def)
  then show ?thesis
    unfolding json_shape_def Let_def P_def [symmetric] mx_def [symmetric] lua_array_length_def loop
    by simp
qed

section \<open>Values\<close>

text \<open>
  \<open>json_text cfg d v e n\<close>: \<open>e\<close> is a text of the value \<open>v\<close> found at depth \<open>d\<close>, and the encoder needs room
  for \<open>n\<close> bytes to write it. A value no rule covers is refused.
\<close>

fun commas :: "byte list list \<Rightarrow> byte list" where
  "commas [] = []"
| "commas [e] = e"
| "commas (e # es) = e @ 0x2c # commas es"

inductive json_key_text :: "json_config \<Rightarrow> lval \<Rightarrow> byte list \<times> nat \<Rightarrow> bool" for cfg where
  jk_number: "json_number_text cfg num = Some e \<Longrightarrow> json_key_text cfg (LNumber num) (0x22 # e @ [0x22, 0x3a], 35)"
| jk_string: "string_fits s \<Longrightarrow> string_text s e \<Longrightarrow> json_key_text cfg (LString s) (e @ [0x3a], length s * 6 + 4)"

inductive json_text :: "json_config \<Rightarrow> int \<Rightarrow> lval \<Rightarrow> byte list \<times> nat \<Rightarrow> bool" for cfg where
  jt_nil: "json_text cfg d LNil (ascii ''null'', 4)"
| jt_null: "json_text cfg d (LLightuserdata 0) (ascii ''null'', 4)"
| jt_boolean: "json_text cfg d (LBoolean b) (if b then ascii ''true'' else ascii ''false'', 5)"
| jt_number: "json_number_text cfg num = Some e \<Longrightarrow> json_text cfg d (LNumber num) (e, 32)"
| jt_string: "string_fits s \<Longrightarrow> string_text s e \<Longrightarrow> json_text cfg d (LString s) (e, length s * 6 + 3)"
| jt_array: "d + 1 \<le> encode_max_depth cfg \<Longrightarrow> keys_in_int cfg kvs \<Longrightarrow> json_shape cfg kvs = Some len \<Longrightarrow> 0 < len \<Longrightarrow>
    list_all2 (json_text cfg (d + 1)) (map (lua_rawgeti kvs) [1..<Suc (nat len)]) es \<Longrightarrow>
    json_text cfg d (LTable kvs)
      (0x5b # commas (map fst es) @ [0x5d], 2 + sum_list (map (\<lambda>(e, n). n + 1) es))"
| jt_object: "d + 1 \<le> encode_max_depth cfg \<Longrightarrow> keys_in_int cfg kvs \<Longrightarrow> json_shape cfg kvs = Some len \<Longrightarrow> len \<le> 0 \<Longrightarrow>
    list_all2 (json_key_text cfg) (map fst kvs) ks \<Longrightarrow>
    list_all2 (json_text cfg (d + 1)) (map snd kvs) es \<Longrightarrow>
    json_text cfg d (LTable kvs)
      (0x7b # commas (map2 (\<lambda>k e. fst k @ fst e) ks es) @ [0x7d],
       2 + sum_list (map2 (\<lambda>k e. snd k + snd e + 1) ks es))"

text \<open>What follows the first entry: a comma in front of each.\<close>

lemma commas_Cons: "commas (e # es) = e @ concat (map (\<lambda>e. 0x2c # e) es)"
  by (induction "e # es" arbitrary: e es rule: commas.induct) simp_all

section \<open>The encoder writes these texts\<close>

definition comma_text :: "bool \<Rightarrow> byte list" where
  "comma_text comma = (if comma then [0x2c] else [])"

definition items_text :: "bool \<Rightarrow> byte list list \<Rightarrow> byte list" where
  "items_text comma es = (if comma then concat (map (\<lambda>e. 0x2c # e) es) else commas es)"

lemma items_text_simps [simp]:
  "items_text comma [] = []"
  "items_text comma (e # es) = comma_text comma @ e @ items_text True es"
  by (simp_all add: items_text_def comma_text_def commas_Cons)

lemma json_comma_adds: "sb.adds (json_comma comma :: ('a, unit) enc) 1 (\<lambda>e. e = comma_text comma)"
proof (cases comma)
  case True
  then have "json_comma comma = (\<lambda>st :: 'a slab_scheme sb. lift_j (strbuf_append_char 0x2c st))"
    by (simp add: json_comma_def [abs_def])
  then show ?thesis using append_char_adds True by (simp add: comma_text_def)
next
  case False
  then have "json_comma comma = (\<lambda>st :: 'a slab_scheme sb. Done () st)" by (simp add: json_comma_def [abs_def])
  moreover have "sb.adds (\<lambda>st :: 'a slab_scheme sb. Done () st) 1 (\<lambda>e. e = comma_text comma)"
    by (rule sb.adds_weaken [OF sb.adds_nothing]) (use False in \<open>simp_all add: comma_text_def\<close>)
  ultimately show ?thesis by metis
qed

lemma json_append_key_adds:
  assumes "config_ok cfg" "locale_point dp" "json_key_text cfg k en"
  shows "sb.adds (json_append_key dp cfg k :: ('a, unit) enc) (snd en) (\<lambda>e. json_key_text cfg k (e, snd en))"
  using assms(3)
proof cases
  case (jk_number num e)
  let ?f = "\<lambda>st :: 'a slab_scheme sb. bind_j (lift_j (strbuf_append_char 0x22 st)) (\<lambda>_ st1.
      bind_j (json_append_number dp cfg num st1) (\<lambda>_ st2. lift_j (strbuf_append_mem [0x22, 0x3a] st2)))"
  have "sb.adds ?f (1 + (FPCONV_G_FMT_BUFSIZE + 2))
      (\<lambda>x. \<exists>p q. x = p @ q \<and> p = [0x22] \<and> (\<exists>p q'. q = p @ q' \<and> p = e \<and> q' = [0x22, 0x3a]))"
    by (intro sb.adds_bind append_char_adds json_append_number_adds assms append_mem_adds jk_number) simp
  then have "sb.adds ?f (snd en) (\<lambda>x. json_key_text cfg k (x, snd en))"
    using jk_number json_key_text.jk_number [of cfg num e]
    by (elim sb.adds_weaken) (auto simp: FPCONV_G_FMT_BUFSIZE_def)
  then show ?thesis using jk_number by (simp add: json_append_key_def [abs_def])
next
  case (jk_string s e)
  let ?f = "\<lambda>st :: 'a slab_scheme sb. bind_j (lift_j (json_append_string s st)) (\<lambda>_ st1. lift_j (strbuf_append_char 0x3a st1))"
  have "sb.adds ?f ((length s * 6 + 3) + 1) (\<lambda>x. \<exists>p q. x = p @ q \<and> string_text s p \<and> q = [0x3a])"
    by (intro sb.adds_bind append_char_adds json_append_string_adds jk_string)
  then have "sb.adds ?f (snd en) (\<lambda>x. json_key_text cfg k (x, snd en))"
    using jk_string json_key_text.jk_string [of s _ cfg]
    by (elim sb.adds_weaken) auto
  then show ?thesis using jk_string by (simp add: json_append_key_def [abs_def])
qed

text \<open>\<open>writes\<close> is what the induction carries: the step writes a text of \<open>v\<close> within its room.\<close>

definition writes :: "('a, unit) enc \<Rightarrow> (byte list \<times> nat \<Rightarrow> bool) \<Rightarrow> nat \<Rightarrow> bool" where
  "writes f P n \<longleftrightarrow> sb.adds f n (\<lambda>e. P (e, n))"

lemma json_array_loop_adds:
  assumes "list_all2 (\<lambda>v en. writes (json_append_data dp cfg d v :: ('a, unit) enc) (P v) (snd en))
      (map (lua_rawgeti kvs) [i..<Suc len]) ens"
  shows "sb.adds (json_array_loop dp cfg d kvs len i comma :: ('a, unit) enc) (1 + sum_list (map (\<lambda>(e, n). n + 1) ens))
    (\<lambda>e. \<exists>es. map snd es = map snd ens \<and> list_all2 P (map (lua_rawgeti kvs) [i..<Suc len]) es \<and>
       e = items_text comma (map fst es) @ [0x5d])"
  using assms
proof (induction ens arbitrary: i comma rule: list.induct)
  case Nil
  from list_all2_lengthD [OF Nil] have "\<not> i \<le> len" by (simp del: upt_Suc)
  then have "json_array_loop dp cfg d kvs len i comma = (\<lambda>st :: 'a slab_scheme sb. lift_j (strbuf_append_char 0x5d st))"
    by (intro ext) (simp add: json_array_loop.simps)
  with append_char_adds [of "0x5d"] \<open>\<not> i \<le> len\<close> show ?case by simp
next
  case (Cons en ens)
  from list_all2_lengthD [OF Cons.prems] have i: "i \<le> len" by (simp del: upt_Suc)
  then have upt: "[i..<Suc len] = i # [Suc i..<Suc len]" by (simp add: upt_rec)
  let ?vs = "map (lua_rawgeti kvs) [Suc i..<Suc len]"
  have w: "sb.adds (json_append_data dp cfg d (lua_rawgeti kvs i) :: ('a, unit) enc) (snd en) (\<lambda>e. P (lua_rawgeti kvs i) (e, snd en))"
    and ws: "list_all2 (\<lambda>v en. writes (json_append_data dp cfg d v :: ('a, unit) enc) (P v) (snd en)) ?vs ens"
    using Cons.prems unfolding upt by (simp_all add: writes_def)
  let ?f = "\<lambda>st :: 'a slab_scheme sb. bind_j (json_comma comma st) (\<lambda>_ st1.
      bind_j (json_append_data dp cfg d (lua_rawgeti kvs i) st1) (\<lambda>_. json_array_loop dp cfg d kvs len (Suc i) True))"
  have "sb.adds ?f (1 + (snd en + (1 + sum_list (map (\<lambda>(e, n). n + 1) ens))))
      (\<lambda>x. \<exists>p q. x = p @ q \<and> p = comma_text comma \<and> (\<exists>p q'. q = p @ q' \<and> P (lua_rawgeti kvs i) (p, snd en) \<and>
        (\<exists>es. map snd es = map snd ens \<and> list_all2 P ?vs es \<and> q' = items_text True (map fst es) @ [0x5d])))"
    by (intro sb.adds_bind json_comma_adds w Cons.IH ws)
  then have "sb.adds ?f (1 + sum_list (map (\<lambda>(e, n). n + 1) (en # ens)))
    (\<lambda>e. \<exists>es. map snd es = map snd (en # ens) \<and> list_all2 P (lua_rawgeti kvs i # ?vs) es \<and>
       e = items_text comma (map fst es) @ [0x5d])"
  proof (rule sb.adds_weaken, goal_cases)
    case 1
    then show ?case by (cases en) simp
  next
    case (2 x)
    then obtain p es where "x = comma_text comma @ p @ items_text True (map fst es) @ [0x5d]"
        "P (lua_rawgeti kvs i) (p, snd en)" "map snd es = map snd ens" "list_all2 P ?vs es" by blast
    then show ?case by (intro exI [of _ "(p, snd en) # es"]) simp
  qed
  moreover have "json_array_loop dp cfg d kvs len i comma = ?f"
    using i by (intro ext) (simp add: json_array_loop.simps [of _ _ _ _ len i])
  ultimately show ?case unfolding upt by simp
qed

lemma json_object_loop_adds:
  assumes "config_ok cfg" "locale_point dp" "list_all2 (json_key_text cfg) (map fst kvs) ks"
    and "list_all2 (\<lambda>v en. writes (json_append_data dp cfg d v :: ('a, unit) enc) (P v) (snd en)) (map snd kvs) ens"
  shows "sb.adds (json_object_loop dp cfg d kvs comma :: ('a, unit) enc)
    (1 + sum_list (map2 (\<lambda>k e. snd k + snd e + 1) ks ens))
    (\<lambda>e. \<exists>ks' es. map snd ks' = map snd ks \<and> map snd es = map snd ens \<and>
       list_all2 (json_key_text cfg) (map fst kvs) ks' \<and> list_all2 P (map snd kvs) es \<and>
       e = items_text comma (map2 (\<lambda>k e. fst k @ fst e) ks' es) @ [0x7d])"
  using assms(3,4)
proof (induction kvs arbitrary: ks ens comma rule: list.induct)
  case Nil
  then have "json_object_loop dp cfg d [] comma = (\<lambda>st :: 'a slab_scheme sb. lift_j (strbuf_append_char 0x7d st))"
    by (intro ext) simp
  with append_char_adds [of "0x7d"] Nil show ?case by simp
next
  case (Cons kv kvs)
  obtain k v where kv: "kv = (k, v)" by (cases kv)
  from Cons.prems obtain kt ks1 en ens1 where s: "ks = kt # ks1" "ens = en # ens1"
    by (auto simp: list_all2_Cons1)
  have k: "json_key_text cfg k kt" and ks: "list_all2 (json_key_text cfg) (map fst kvs) ks1"
    and w: "sb.adds (json_append_data dp cfg d v :: ('a, unit) enc) (snd en) (\<lambda>e. P v (e, snd en))"
    and ws: "list_all2 (\<lambda>v en. writes (json_append_data dp cfg d v :: ('a, unit) enc) (P v) (snd en)) (map snd kvs) ens1"
    using Cons.prems unfolding s kv by (simp_all add: writes_def)
  let ?f = "\<lambda>st :: 'a slab_scheme sb. bind_j (json_comma comma st) (\<lambda>_ st1.
     bind_j (json_append_key dp cfg k st1) (\<lambda>_ st2.
     bind_j (json_append_data dp cfg d v st2) (\<lambda>_. json_object_loop dp cfg d kvs True)))"
  let ?rest = "\<lambda>q. \<exists>ks' es. map snd ks' = map snd ks1 \<and> map snd es = map snd ens1 \<and>
       list_all2 (json_key_text cfg) (map fst kvs) ks' \<and> list_all2 P (map snd kvs) es \<and>
       q = items_text True (map2 (\<lambda>k e. fst k @ fst e) ks' es) @ [0x7d]"
  have "sb.adds ?f (1 + (snd kt + (snd en + (1 + sum_list (map2 (\<lambda>k e. snd k + snd e + 1) ks1 ens1)))))
      (\<lambda>x. \<exists>p q. x = p @ q \<and> p = comma_text comma \<and> (\<exists>p q'. q = p @ q' \<and> json_key_text cfg k (p, snd kt) \<and>
        (\<exists>p q. q' = p @ q \<and> P v (p, snd en) \<and> ?rest q)))"
    by (intro sb.adds_bind json_comma_adds json_append_key_adds assms(1,2) k w Cons.IH ks ws)
  then have "sb.adds ?f (1 + sum_list (map2 (\<lambda>k e. snd k + snd e + 1) ks ens))
    (\<lambda>e. \<exists>ks' es. map snd ks' = map snd ks \<and> map snd es = map snd ens \<and>
       list_all2 (json_key_text cfg) (map fst (kv # kvs)) ks' \<and> list_all2 P (map snd (kv # kvs)) es \<and>
       e = items_text comma (map2 (\<lambda>k e. fst k @ fst e) ks' es) @ [0x7d])"
  proof (rule sb.adds_weaken, goal_cases)
    case 1
    then show ?case by (simp add: s)
  next
    case (2 x)
    then obtain p q ks' es where "x = comma_text comma @ p @ q @ items_text True (map2 (\<lambda>k e. fst k @ fst e) ks' es) @ [0x7d]"
        "json_key_text cfg k (p, snd kt)" "P v (q, snd en)" "map snd ks' = map snd ks1" "map snd es = map snd ens1"
        "list_all2 (json_key_text cfg) (map fst kvs) ks'" "list_all2 P (map snd kvs) es" by blast
    then show ?case
      by (intro exI [of _ "(p, snd kt) # ks'"] exI [of _ "(q, snd en) # es"]) (simp add: s kv)
  qed
  moreover have "json_object_loop dp cfg d (kv # kvs) comma = ?f"
    by (intro ext) (simp add: kv)
  ultimately show ?case by simp
qed

lemma check_depth_ok: "d \<le> encode_max_depth cfg \<Longrightarrow> json_check_encode_depth cfg d st = Done () st"
  by (simp add: json_check_encode_depth_def)

lemma json_append_data_table:
  assumes "d + 1 \<le> encode_max_depth cfg" "keys_in_int cfg kvs" "json_shape cfg kvs = Some len"
  shows "json_append_data dp cfg d (LTable kvs) st =
    (if 0 < len then json_append_array dp cfg (d + 1) kvs (nat len) st else json_append_object dp cfg (d + 1) kvs st)"
  using assms by (simp add: json_append_data.simps check_depth_ok lua_array_length_shape)

lemma json_append_data_adds:
  assumes "config_ok cfg" "locale_point dp"
  shows "json_text cfg d v en \<Longrightarrow>
    sb.adds (json_append_data dp cfg d v :: ('a, unit) enc) (snd en) (\<lambda>e. json_text cfg d v (e, snd en))"
proof (induction rule: json_text.induct)
  case (jt_nil d)
  have "json_append_data dp cfg d LNil = (\<lambda>st :: 'a slab_scheme sb. lift_j (strbuf_append_mem (ascii ''null'') st))"
    by (intro ext) (simp add: json_append_data.simps)
  then show ?case
    using append_mem_adds [of "ascii ''null''" 4] json_text.jt_nil [of cfg d]
    by (auto simp: ascii_def elim!: sb.adds_weaken)
next
  case (jt_null d)
  have "json_append_data dp cfg d (LLightuserdata 0) =
      (\<lambda>st :: 'a slab_scheme sb. lift_j (strbuf_append_mem (ascii ''null'') st))"
    by (intro ext) (simp add: json_append_data.simps)
  then show ?case
    using append_mem_adds [of "ascii ''null''" 4] json_text.jt_null [of cfg d]
    by (auto simp: ascii_def elim!: sb.adds_weaken)
next
  case (jt_boolean d b)
  let ?e = "if b then ascii ''true'' else ascii ''false''"
  have "json_append_data dp cfg d (LBoolean b) = (\<lambda>st :: 'a slab_scheme sb. lift_j (strbuf_append_mem ?e st))"
    by (intro ext) (simp add: json_append_data.simps)
  moreover have "length ?e \<le> 5" by (simp add: ascii_def)
  ultimately show ?case
    using append_mem_adds [of ?e 5] json_text.jt_boolean [of cfg d b]
    by (auto elim!: sb.adds_weaken)
next
  case (jt_number num e d)
  have "json_append_data dp cfg d (LNumber num) = (json_append_number dp cfg num :: ('a, unit) enc)"
    by (intro ext) (simp add: json_append_data.simps)
  then show ?case
    using json_append_number_adds [OF assms jt_number] json_text.jt_number [OF jt_number, of d]
    by (auto simp: FPCONV_G_FMT_BUFSIZE_def elim!: sb.adds_weaken)
next
  case (jt_string s e d)
  have "json_append_data dp cfg d (LString s) = (\<lambda>st :: 'a slab_scheme sb. lift_j (json_append_string s st))"
    by (intro ext) (simp add: json_append_data.simps)
  then show ?case
    using json_append_string_adds [OF jt_string(1)] json_text.jt_string [OF jt_string(1), of _ cfg d]
    by (auto elim!: sb.adds_weaken)
next
  case (jt_array d kvs len es)
  have w: "list_all2 (\<lambda>v en. writes (json_append_data dp cfg (d + 1) v :: ('a, unit) enc) (json_text cfg (d + 1) v) (snd en))
      (map (lua_rawgeti kvs) [1..<Suc (nat len)]) es"
    using jt_array(5) by (rule list_all2_mono) (simp add: writes_def)
  let ?f = "\<lambda>st :: 'a slab_scheme sb. bind_j (lift_j (strbuf_append_char 0x5b st))
      (\<lambda>_. json_array_loop dp cfg (d + 1) kvs (nat len) 1 False)"
  have "sb.adds ?f (1 + (1 + sum_list (map (\<lambda>(e, n). n + 1) es)))
      (\<lambda>x. \<exists>p q. x = p @ q \<and> p = [0x5b] \<and> (\<exists>es'. map snd es' = map snd es \<and>
         list_all2 (json_text cfg (d + 1)) (map (lua_rawgeti kvs) [1..<Suc (nat len)]) es' \<and>
         q = items_text False (map fst es') @ [0x5d]))"
    by (intro sb.adds_bind append_char_adds json_array_loop_adds w)
  then have "sb.adds ?f (2 + sum_list (map (\<lambda>(e, n). n + 1) es))
      (\<lambda>e. json_text cfg d (LTable kvs) (e, 2 + sum_list (map (\<lambda>(e, n). n + 1) es)))"
  proof (rule sb.adds_weaken, goal_cases)
    case (2 x)
    then obtain es' where es': "x = 0x5b # commas (map fst es') @ [0x5d]" "map snd es' = map snd es"
        "list_all2 (json_text cfg (d + 1)) (map (lua_rawgeti kvs) [1..<Suc (nat len)]) es'"
      by (auto simp: items_text_def)
    have "map (\<lambda>(e, n). n + 1) es' = map (\<lambda>(e, n). n + 1) es"
      using arg_cong [OF es'(2), of "map Suc"] by (simp add: comp_def case_prod_unfold)
    with es' json_text.jt_array [OF jt_array(1-4) es'(3)] show ?case by simp
  qed simp
  moreover have "json_append_data dp cfg d (LTable kvs) = ?f"
    using json_append_data_table [OF jt_array(1-3)] jt_array(4) by (intro ext) (simp add: json_append_array.simps)
  ultimately show ?case by simp
next
  case (jt_object d kvs len ks es)
  have w: "list_all2 (\<lambda>v en. writes (json_append_data dp cfg (d + 1) v :: ('a, unit) enc) (json_text cfg (d + 1) v) (snd en))
      (map snd kvs) es"
    using jt_object(6) by (rule list_all2_mono) (simp add: writes_def)
  let ?f = "\<lambda>st :: 'a slab_scheme sb. bind_j (lift_j (strbuf_append_char 0x7b st))
      (\<lambda>_. json_object_loop dp cfg (d + 1) kvs False)"
  let ?n = "2 + sum_list (map2 (\<lambda>k e. snd k + snd e + 1) ks es)"
  have "sb.adds ?f (1 + (1 + sum_list (map2 (\<lambda>k e. snd k + snd e + 1) ks es)))
      (\<lambda>x. \<exists>p q. x = p @ q \<and> p = [0x7b] \<and> (\<exists>ks' es'. map snd ks' = map snd ks \<and> map snd es' = map snd es \<and>
         list_all2 (json_key_text cfg) (map fst kvs) ks' \<and> list_all2 (json_text cfg (d + 1)) (map snd kvs) es' \<and>
         q = items_text False (map2 (\<lambda>k e. fst k @ fst e) ks' es') @ [0x7d]))"
    by (intro sb.adds_bind append_char_adds json_object_loop_adds assms jt_object(5) w)
  then have "sb.adds ?f ?n (\<lambda>e. json_text cfg d (LTable kvs) (e, ?n))"
  proof (rule sb.adds_weaken, goal_cases)
    case (2 x)
    then obtain ks' es' where es': "x = 0x7b # commas (map2 (\<lambda>k e. fst k @ fst e) ks' es') @ [0x7d]"
        "map snd ks' = map snd ks" "map snd es' = map snd es"
        "list_all2 (json_key_text cfg) (map fst kvs) ks'" "list_all2 (json_text cfg (d + 1)) (map snd kvs) es'"
      by (auto simp: items_text_def)
    have "map2 (\<lambda>k e. snd k + snd e + 1) as bs = map2 (\<lambda>k e. k + e + 1) (map snd as) (map snd bs)"
      for as bs :: "(byte list \<times> nat) list"
      by (simp add: zip_map_map comp_def case_prod_unfold)
    then have "map2 (\<lambda>k e. snd k + snd e + 1) ks' es' = map2 (\<lambda>k e. snd k + snd e + 1) ks es"
      by (simp only: es'(2,3))
    with es' json_text.jt_object [OF jt_object(1-4) es'(4,5)] show ?case by simp
  qed simp
  moreover have "json_append_data dp cfg d (LTable kvs) = ?f"
    using json_append_data_table [OF jt_object(1-3)] jt_object(4) by (intro ext) (simp add: json_append_object.simps)
  ultimately show ?case by simp
qed

section \<open>\<open>json.encode\<close>\<close>

text \<open>The configuration's own buffer is allocated exactly when it is kept.\<close>

definition encoder_ok :: "json_config \<times> 'a slab_scheme \<Rightarrow> bool" where
  "encoder_ok st \<longleftrightarrow> (case st of (cfg, h) \<Rightarrow> config_ok cfg \<and> slab_ok h \<and>
     (if encode_keep_buffer cfg = 0 then encode_buf cfg = None
      else \<exists>buf. encode_buf cfg = Some buf \<and> sb_ok (buf, h)))"

text \<open>What a call leaves of the heap: blocks in use elsewhere, and their reference counts.\<close>

definition encoder_frame :: "json_config \<times> 'a slab_scheme \<Rightarrow> json_config \<times> 'a slab_scheme \<Rightarrow> bool" where
  "encoder_frame st st' \<longleftrightarrow> (case (st, st') of ((cfg, h), (cfg', h')) \<Rightarrow>
     (case (encode_buf cfg, encode_buf cfg') of
        (Some buf, Some buf') \<Rightarrow> sb_next (buf, h) (buf', h')
      | _ \<Rightarrow> same_use h h'))"

lemma json_encode_value:
  assumes "length args = 1"
  shows "json_protect_conversion (json_encode dp) args st =
    (case json_encode dp args st of Raise msg st' \<Rightarrow> Done [LNil, LString msg] st' | r \<Rightarrow> r)"
  using assms by (simp add: json_protect_conversion_def)

lemma sb_reset_ok: "sb_ok (s, h) \<Longrightarrow> sb_ok (strbuf_reset s, h) \<and> sb_text (strbuf_reset s, h) = [] \<and> sb_next (s, h) (strbuf_reset s, h)"
  by (auto simp: sb_ok_def sb_text_def sb_next_def strbuf_reset_def Let_def)

lemma json_encode_ok:
  assumes "encoder_ok (cfg, h)" "locale_point dp" "json_text cfg 0 v (e0, n)" "n < STRBUF_LIMIT"
  shows "\<exists>e cfg' h'. json_encode dp [v] (cfg, h) = Done [LString e] (cfg', h') \<and>
    json_text cfg 0 v (e, n) \<and> length e \<le> n \<and> encoder_ok (cfg', h') \<and> encoder_frame (cfg, h) (cfg', h')"
proof (cases "encode_keep_buffer cfg = 0")
  case True
  have ok: "config_ok cfg" "slab_ok h" "encode_buf cfg = None" using assms(1) True by (auto simp: encoder_ok_def)
  obtain s h1 where i: "memslice_wrap_strbuf_init 0 h = Inr (s, h1)" "sb_ok (s, h1)" "sb_length s = 0"
      "sb_fresh h (s, h1)"
    by (rule strbuf_init_ok [OF ok(2), of 0]) (simp_all add: strbuf_size_def STRBUF_DEFAULT_SIZE_def)
  obtain r s2 h2 e where a: "json_append_data dp cfg 0 v (s, h1) = Done r (s2, h2)" "sb_ok (s2, h2)"
      "sb_next (s, h1) (s2, h2)" "sb_text (s2, h2) = sb_text (s, h1) @ e" "json_text cfg 0 v (e, n)" "length e \<le> n"
    using sb.addsE [OF json_append_data_adds [OF ok(1) assms(2,3)] i(2)] i(3) assms(4)
    by (metis add_0 length_sb_text snd_conv surj_pair)
  have e: "sb_text (s2, h2) = e" using a(4) i(3) by (simp add: sb_text_def)
  obtain h3 where f: "memslice_wrap_strbuf_free s2 h2 = Inr h3" "same_use h h3"
    by (rule strbuf_free_ok [OF a(2) sb_fresh_next [OF i(4) a(3)]])
  have "json_encode dp [v] (cfg, h) = Done [LString e] (cfg, h3)"
    using True i(1) a(1) f(1) strbuf_string_ok [OF a(2)] e by (simp add: json_encode_def)
  moreover have "encoder_ok (cfg, h3)" using f(2) ok True by (simp add: encoder_ok_def same_use_def)
  moreover have "encoder_frame (cfg, h) (cfg, h3)" using f(2) ok by (simp add: encoder_frame_def)
  ultimately show ?thesis using a(5,6) by blast
next
  case False
  then obtain buf where ok: "config_ok cfg" "encode_buf cfg = Some buf" "sb_ok (buf, h)"
    using assms(1) by (auto simp: encoder_ok_def)
  note r = sb_reset_ok [OF ok(3)]
  obtain r s2 h2 e where a: "json_append_data dp cfg 0 v (strbuf_reset buf, h) = Done r (s2, h2)" "sb_ok (s2, h2)"
      "sb_next (strbuf_reset buf, h) (s2, h2)" "sb_text (s2, h2) = sb_text (strbuf_reset buf, h) @ e" "json_text cfg 0 v (e, n)" "length e \<le> n"
    using sb.addsE [OF json_append_data_adds [OF ok(1) assms(2,3)], of "(strbuf_reset buf, h)"] r assms(4)
    by (metis add_0 list.size(3) snd_conv surj_pair)
  let ?cfg = "cfg\<lparr>encode_buf := Some s2\<rparr>"
  have "json_encode dp [v] (cfg, h) = Done [LString e] (?cfg, h2)"
    using False ok(2) a(1,4) r strbuf_string_ok [OF a(2)] by (simp add: json_encode_def)
  moreover have "encoder_ok (?cfg, h2)" using a(2) ok False by (auto simp: encoder_ok_def config_ok_def sb_ok_def)
  moreover have "encoder_frame (cfg, h) (?cfg, h2)"
    using sb_next_trans [OF _ a(3)] r ok by (simp add: encoder_frame_def)
  ultimately show ?thesis using a(5,6) by blast
qed

end
