(* ===== verification/Json_Syntax.thy ===== *)
theory Json_Syntax
  imports Json_Text
begin

text \<open>
  A reference syntax of JSON with its meaning as Lua values, after RFC 8259: white space, numbers
  with fraction and exponent, strings with all escapes and surrogate pairs, arrays, and objects in
  which a later member replaces an earlier one of the same name. It is stated without the decoder's
  tables and functions; only unescaped control characters in strings go beyond the RFC.
\<close>

section \<open>White space\<close>

definition white :: "byte list \<Rightarrow> bool" where
  "white ws \<longleftrightarrow> set ws \<subseteq> {0x20, 0x09, 0x0a, 0x0d}"

lemma white_simps [simp]:
  "white []" "white (c # ws) \<longleftrightarrow> c \<in> {0x20, 0x09, 0x0a, 0x0d} \<and> white ws" "white (ws @ ws') \<longleftrightarrow> white ws \<and> white ws'"
  by (auto simp: white_def)

section \<open>Numbers\<close>

definition digits :: "byte list \<Rightarrow> bool" where
  "digits ds \<longleftrightarrow> list_all is_digit ds"

text \<open>The exponent part and its value; an absent one is 0.\<close>

inductive json_exponent :: "int \<Rightarrow> byte list \<Rightarrow> bool" where
  je_none: "json_exponent 0 []"
| je_some: "c = 0x65 \<or> c = 0x45 \<Longrightarrow> digits ds \<Longrightarrow> ds \<noteq> [] \<Longrightarrow>
    (sign, x) \<in> {([], int (digits_val ds)), ([0x2b], int (digits_val ds)), ([0x2d], - int (digits_val ds))} \<Longrightarrow>
    json_exponent x (c # sign @ ds)"

text \<open>The number is the double nearest to the decimal fraction.\<close>

inductive json_number :: "lua_Number \<Rightarrow> byte list \<Rightarrow> bool" where
  jn: "digits ip \<Longrightarrow> ip \<noteq> [] \<Longrightarrow> hd ip = 0x30 \<longrightarrow> tl ip = [] \<Longrightarrow> digits fp \<Longrightarrow> json_exponent x xs \<Longrightarrow>
    json_number (scaled_ratio neg (digits_val (ip @ fp)) 10 (x - int (length fp)))
      ((if neg then [0x2d] else []) @ ip @ (if fp = [] then [] else 0x2e # fp) @ xs)"

section \<open>Strings\<close>

text \<open>UTF-8 as RFC 3629 defines it.\<close>

definition utf8 :: "nat \<Rightarrow> byte list" where
  "utf8 c = map word_of_nat
     (if c < 0x80 then [c]
      else if c < 0x800 then [0xC0 + c div 64, 0x80 + c mod 64]
      else if c < 0x10000 then [0xE0 + c div 4096, 0x80 + c div 64 mod 64, 0x80 + c mod 64]
      else [0xF0 + c div 262144, 0x80 + c div 4096 mod 64, 0x80 + c div 64 mod 64, 0x80 + c mod 64])"

definition hex_unit :: "nat \<Rightarrow> byte list \<Rightarrow> bool" where
  "hex_unit u ds \<longleftrightarrow> length ds = 4 \<and> list_all is_hex ds \<and> hexs_val ds = u"

text \<open>The letter of an escape and the character it stands for.\<close>

definition simple_escapes :: "(byte \<times> byte) set" where
  "simple_escapes = {(0x22, 0x22), (0x5c, 0x5c), (0x2f, 0x2f), (0x62, 0x08), (0x66, 0x0c), (0x6e, 0x0a), (0x72, 0x0d), (0x74, 0x09)}"

inductive json_chars :: "byte list \<Rightarrow> byte list \<Rightarrow> bool" where
  jc_end: "json_chars [] []"
| jc_plain: "c \<notin> {0, 0x22, 0x5c} \<Longrightarrow> json_chars s e \<Longrightarrow> json_chars (c # s) (c # e)"
| jc_escape: "(x, c) \<in> simple_escapes \<Longrightarrow> json_chars s e \<Longrightarrow> json_chars (c # s) (0x5c # x # e)"
| jc_unit: "hex_unit u ds \<Longrightarrow> \<not> (0xD800 \<le> u \<and> u < 0xE000) \<Longrightarrow> json_chars s e \<Longrightarrow>
    json_chars (utf8 u @ s) (0x5c # 0x75 # ds @ e)"
| jc_pair: "hex_unit hi ds \<Longrightarrow> 0xD800 \<le> hi \<Longrightarrow> hi < 0xDC00 \<Longrightarrow> hex_unit lo ds' \<Longrightarrow> 0xDC00 \<le> lo \<Longrightarrow> lo < 0xE000 \<Longrightarrow>
    json_chars s e \<Longrightarrow>
    json_chars (utf8 (0x10000 + (hi - 0xD800) * 0x400 + (lo - 0xDC00)) @ s) (0x5c # 0x75 # ds @ 0x5c # 0x75 # ds' @ e)"

definition json_string :: "byte list \<Rightarrow> byte list \<Rightarrow> bool" where
  "json_string s e \<longleftrightarrow> (\<exists>m. json_chars s m \<and> e = 0x22 # m @ [0x22])"

section \<open>Values\<close>

definition spaced :: "('v \<Rightarrow> byte list \<Rightarrow> bool) \<Rightarrow> 'v \<Rightarrow> byte list \<Rightarrow> bool" where
  "spaced P v e \<longleftrightarrow> (\<exists>ws m ws'. white ws \<and> white ws' \<and> P v m \<and> e = ws @ m @ ws')"

text \<open>The table of an object: each member is stored in turn.\<close>

definition table_of :: "(byte list \<times> lval) list \<Rightarrow> ltable" where
  "table_of members = foldl (\<lambda>kvs (k, v). tset kvs (LString k) v) [] members"

definition members_text :: "byte list list \<Rightarrow> byte list list \<Rightarrow> byte list" where
  "members_text kes es = commas (map2 (\<lambda>k e. k @ 0x3a # e) kes es)"

text \<open>
  \<open>json_syntax md d v e\<close>: \<open>e\<close> is a JSON text of the value \<open>v\<close>, found at nesting depth \<open>d\<close> and nowhere
  deeper than \<open>md\<close>. An array is a table with the keys 1, 2, and so on; null is the null light userdata.
\<close>

inductive json_syntax :: "int \<Rightarrow> int \<Rightarrow> lval \<Rightarrow> byte list \<Rightarrow> bool" for md where
  js_before: "w \<in> {0x20, 0x09, 0x0a, 0x0d} \<Longrightarrow> json_syntax md d v e \<Longrightarrow> json_syntax md d v (w # e)"
| js_after: "w \<in> {0x20, 0x09, 0x0a, 0x0d} \<Longrightarrow> json_syntax md d v e \<Longrightarrow> json_syntax md d v (e @ [w])"
| js_null: "json_syntax md d (LLightuserdata 0) (ascii ''null'')"
| js_true: "json_syntax md d (LBoolean True) (ascii ''true'')"
| js_false: "json_syntax md d (LBoolean False) (ascii ''false'')"
| js_number: "json_number w e \<Longrightarrow> json_syntax md d (LNumber w) e"
| js_string: "json_string s e \<Longrightarrow> json_syntax md d (LString s) e"
| js_empty_array: "d + 1 \<le> md \<Longrightarrow> white ws \<Longrightarrow> json_syntax md d (LTable []) (0x5b # ws @ [0x5d])"
| js_array: "d + 1 \<le> md \<Longrightarrow> vs \<noteq> [] \<Longrightarrow> list_all2 (json_syntax md (d + 1)) vs es \<Longrightarrow>
    json_syntax md d (LTable (seq_entries 0 vs)) (0x5b # commas es @ [0x5d])"
| js_empty_object: "d + 1 \<le> md \<Longrightarrow> white ws \<Longrightarrow> json_syntax md d (LTable []) (0x7b # ws @ [0x7d])"
| js_object: "d + 1 \<le> md \<Longrightarrow> vs \<noteq> [] \<Longrightarrow> list_all2 (spaced json_string) ks kes \<Longrightarrow> length ks = length vs \<Longrightarrow>
    list_all2 (json_syntax md (d + 1)) vs es \<Longrightarrow>
    json_syntax md d (LTable (table_of (zip ks vs))) (0x7b # members_text kes es @ [0x7d])"

section \<open>Facts about the syntax\<close>

lemma json_syntax_value: "json_syntax md d v e \<Longrightarrow> v \<noteq> LNil"
  by (induction rule: json_syntax.induct) auto

lemma json_number_nonempty: "json_number w e \<Longrightarrow> e \<noteq> []"
  by (auto elim: json_number.cases)

lemma json_syntax_nonempty: "json_syntax md d v e \<Longrightarrow> e \<noteq> []"
  by (induction rule: json_syntax.induct) (auto simp: ascii_def json_string_def dest: json_number_nonempty)

text \<open>No text has a null byte.\<close>

lemma digits_no_null: "digits ds \<Longrightarrow> 0 \<notin> set ds"
  by (auto simp: digits_def list_all_iff is_digit_def)

lemma white_no_null: "white ws \<Longrightarrow> 0 \<notin> set ws"
  by (auto simp: white_def)

lemma json_number_no_null: "json_number w e \<Longrightarrow> 0 \<notin> set e"
  by (auto elim!: json_number.cases json_exponent.cases dest: digits_no_null split: if_splits)

lemma hex_unit_no_null: "hex_unit u ds \<Longrightarrow> 0 \<notin> set ds"
  by (auto simp: hex_unit_def list_all_iff is_hex_def hex_val_def is_digit_def to_lower_def)

lemma json_chars_no_null: "json_chars s e \<Longrightarrow> 0 \<notin> set e"
  by (induction rule: json_chars.induct) (auto simp: simple_escapes_def dest: hex_unit_no_null)

lemma json_string_no_null: "json_string s e \<Longrightarrow> 0 \<notin> set e"
  by (auto simp: json_string_def dest: json_chars_no_null)

lemma commas_no_null: "(\<And>e. e \<in> set es \<Longrightarrow> 0 \<notin> set e) \<Longrightarrow> 0 \<notin> set (commas es)"
  by (induction es rule: commas.induct) auto

lemma list_all2_right: "list_all2 P xs ys \<Longrightarrow> (\<And>x y. P x y \<Longrightarrow> Q y) \<Longrightarrow> y \<in> set ys \<Longrightarrow> Q y"
  by (auto simp: list_all2_conv_all_nth in_set_conv_nth)

lemma json_syntax_no_null: "json_syntax md d v e \<Longrightarrow> 0 \<notin> set e"
proof (induction rule: json_syntax.induct)
  case (js_array d vs es)
  have "0 \<notin> set e" if "e \<in> set es" for e by (rule list_all2_right [OF js_array(3) _ that]) blast
  then show ?case by (simp add: commas_no_null)
next
  case (js_object d vs ks kes es)
  have "0 \<notin> set e" if "e \<in> set es" for e by (rule list_all2_right [OF js_object(5) _ that]) blast
  moreover have "0 \<notin> set k" if "k \<in> set kes" for k
    by (rule list_all2_right [OF js_object(3) _ that]) (auto simp: spaced_def dest: json_string_no_null white_no_null)
  ultimately have "0 \<notin> set (members_text kes es)"
    unfolding members_text_def by (intro commas_no_null) (fastforce dest: set_zip_leftD set_zip_rightD)
  then show ?case by simp
qed (auto simp: ascii_def dest: json_number_no_null json_string_no_null white_no_null)

text \<open>Elements of a list of texts are no longer than the whole, and there are no more of them.\<close>

lemma commas_length: "e \<in> set es \<Longrightarrow> length e \<le> length (commas es)"
  by (induction es rule: commas.induct) auto

lemma commas_count: "(\<And>e. e \<in> set es \<Longrightarrow> e \<noteq> []) \<Longrightarrow> length es \<le> length (commas es)"
proof (induction es rule: commas.induct)
  case (2 e)
  from this [of e] show ?case by (cases e) simp_all
next
  case (3 e e' es)
  from 3(1) 3(2) have "length (e' # es) \<le> length (commas (e' # es))" by simp
  then show ?case by simp
qed simp

end
