(* ===== verification/Json_Decode.thy ===== *)
theory Json_Decode
  imports Json_Encode
begin

text \<open>
  The decoder of \<open>src/lev_new_json.c\<close> (\<open>hexdigit2int\<close> to \<open>json_decode\<close>). The text is a byte list with
  the null byte Lua puts behind it; reading further is a fault. The parser works on positions in the
  text; a string token is collected in the temporary buffer \<open>tmp\<close> and handed on as its bytes.

  The mutual recursion through objects and arrays has fuel; \<open>json_decode\<close> gives three times as much as the
  text has bytes, which is proved to be enough.
\<close>

unbundle bit_operations_syntax

record 'h json_parse =
  jp_ptr :: nat
  jp_tmp :: strbuf
  jp_depth :: int
  jp_heap :: 'h

text \<open>The fields of the token's union are kept apart; each is read for its own type of token only.\<close>

record json_token =
  tok_type :: json_token_type
  tok_index :: nat
  tok_string :: "byte list"
  tok_number :: lua_Number
  tok_boolean :: bool

type_synonym ('a, 'r) dec = "'a slab_scheme json_parse \<Rightarrow> ('a slab_scheme json_parse, 'r) jres"

definition peek :: "byte list \<Rightarrow> nat \<Rightarrow> byte res" where
  "peek data i = (if i < length data then Inr (data ! i) else if i = length data then Inr 0
                  else Inl (Undefined ''read past the text''))"

text \<open>An operation on the temporary buffer.\<close>

definition on_tmp :: "('a slab_scheme sb \<Rightarrow> 'a slab_scheme sb res) \<Rightarrow> ('a, unit) dec" where
  "on_tmp f st = bind_r (f (jp_tmp st, jp_heap st)) (\<lambda>(s, h). Done () (st\<lparr>jp_tmp := s, jp_heap := h\<rparr>))"

section \<open>Unicode escapes\<close>

definition hexdigit2int :: "byte \<Rightarrow> int" where
  "hexdigit2int hex =
     (if 0x30 \<le> sint hex \<and> sint hex \<le> 0x39 then sint hex - 0x30
      else let hex' = hex OR 0x20 in
        if 0x61 \<le> sint hex' \<and> sint hex' \<le> 0x66 then 10 + sint hex' - 0x61 else - 1)"

text \<open>The loop over the \<open>n\<close> digits from position \<open>p\<close>: it stops at the first that is none.\<close>

fun hex_digits_at :: "byte list \<Rightarrow> nat \<Rightarrow> nat \<Rightarrow> int list option res" where
  "hex_digits_at data p 0 = Inr (Some [])"
| "hex_digits_at data p (Suc n) =
     bind_res (peek data p) (\<lambda>c.
       if hexdigit2int c < 0 then Inr None
       else bind_res (hex_digits_at data (Suc p) n) (\<lambda>ds. Inr (map_option ((#) (hexdigit2int c)) ds)))"

definition decode_hex4 :: "byte list \<Rightarrow> nat \<Rightarrow> int res" where
  "decode_hex4 data p =
     bind_res (hex_digits_at data p 4) (\<lambda>ds.
       Inr (case ds of
              None \<Rightarrow> - 1
            | Some digit \<Rightarrow> push_bit 12 (digit ! 0) + push_bit 8 (digit ! 1) + push_bit 4 (digit ! 2) + digit ! 3))"

text \<open>The bytes written to \<open>utf8\<close>; none for a codepoint that is too large.\<close>

definition codepoint_to_utf8 :: "int \<Rightarrow> byte list" where
  "codepoint_to_utf8 codepoint =
     (if codepoint \<le> 0x7F then [word_of_int codepoint]
      else if codepoint \<le> 0x7FF then
        [word_of_int (drop_bit 6 codepoint OR 0xC0), word_of_int (codepoint AND 0x3F OR 0x80)]
      else if codepoint \<le> 0xFFFF then
        [word_of_int (drop_bit 12 codepoint OR 0xE0), word_of_int (drop_bit 6 codepoint AND 0x3F OR 0x80),
         word_of_int (codepoint AND 0x3F OR 0x80)]
      else if codepoint \<le> 0x1FFFFF then
        [word_of_int (drop_bit 18 codepoint OR 0xF0), word_of_int (drop_bit 12 codepoint AND 0x3F OR 0x80),
         word_of_int (drop_bit 6 codepoint AND 0x3F OR 0x80), word_of_int (codepoint AND 0x3F OR 0x80)]
      else [])"

text \<open>
  The code point of the escape at position \<open>p\<close> and the length of the escape, or \<open>None\<close> for an
  error: the first half of \<open>json_append_unicode_escape\<close>.
\<close>

definition unicode_escape_at :: "byte list \<Rightarrow> nat \<Rightarrow> (int \<times> nat) option res" where
  "unicode_escape_at data p =
     bind_res (decode_hex4 data (p + 2)) (\<lambda>codepoint.
       if codepoint < 0 then Inr None
       else if codepoint AND 0xF800 = 0xD800 then
         if codepoint AND 0x400 \<noteq> 0 then Inr None
         else bind_res (peek data (p + 6)) (\<lambda>c1.
           if c1 \<noteq> 0x5c then Inr None
           else bind_res (peek data (p + 6 + 1)) (\<lambda>c2.
             if c2 \<noteq> 0x75 then Inr None
             else bind_res (decode_hex4 data (p + 2 + 6)) (\<lambda>surrogate_low.
               if surrogate_low < 0 then Inr None
               else if surrogate_low AND 0xFC00 \<noteq> 0xDC00 then Inr None
               else Inr (Some ((push_bit 10 (codepoint AND 0x3FF) OR (surrogate_low AND 0x3FF)) + 0x10000, 12)))))
       else Inr (Some (codepoint, 6)))"

definition json_append_unicode_escape :: "byte list \<Rightarrow> ('a, int) dec" where
  "json_append_unicode_escape data st =
     bind_r (unicode_escape_at data (jp_ptr st)) (\<lambda>r.
       case r of
         None \<Rightarrow> Done (- 1) st
       | Some (codepoint, escape_len) \<Rightarrow>
           let utf8 = codepoint_to_utf8 codepoint in
           if utf8 = [] then Done (- 1) st
           else bind_j (on_tmp (strbuf_append_mem_unsafe utf8) st) (\<lambda>_ st'.
             Done 0 (st'\<lparr>jp_ptr := jp_ptr st' + escape_len\<rparr>)))"

section \<open>Tokens\<close>

definition json_set_token_error :: "json_token \<Rightarrow> string \<Rightarrow> ('a, json_token) dec" where
  "json_set_token_error token errtype st =
     Done (token\<lparr>tok_type := T_ERROR, tok_index := jp_ptr st, tok_string := ascii errtype\<rparr>) st"

lemma json_append_unicode_escape_ptr:
  "json_append_unicode_escape data st = Done 0 st' \<Longrightarrow> jp_ptr st < jp_ptr st'"
proof -
  assume a: "json_append_unicode_escape data st = Done 0 st'"
  then obtain cp n where r: "unicode_escape_at data (jp_ptr st) = Inr (Some (cp, n))"
    by (cases "unicode_escape_at data (jp_ptr st)")
       (auto simp: json_append_unicode_escape_def split: option.splits)
  have "0 < n"
    using r unfolding unicode_escape_at_def
    by (auto simp: bind_res_Inr_iff split: if_splits)
  with a show ?thesis
    by (auto simp: json_append_unicode_escape_def r Let_def on_tmp_def bind_r_def bind_j_def
        split: if_splits sum.splits prod.splits)
qed

lemma on_tmp_ptr: "on_tmp f st = Done () st' \<Longrightarrow> jp_ptr st' = jp_ptr st \<and> jp_depth st' = jp_depth st"
  by (auto simp: on_tmp_def bind_r_def split: sum.splits)

lemma peek_le: "peek data i = Inr c \<Longrightarrow> i \<le> length data"
  by (auto simp: peek_def split: if_splits)

text \<open>The loop of \<open>json_next_string_token\<close>: an error message, or \<open>None\<close> at the closing quote.\<close>

function json_string_loop :: "byte list \<Rightarrow> json_config \<Rightarrow> ('a, string option) dec" where
  "json_string_loop data cfg st =
     bind_r (peek data (jp_ptr st)) (\<lambda>ch.
       if ch = 0x22 then Done None st
       else if ch = 0 then Done (Some ''unexpected end of string'') st
       else if ch = 0x5c then
         bind_r (peek data (jp_ptr st + 1)) (\<lambda>ch1.
           let ch2 = escape2char cfg ch1 in
           if ch2 = 0x75 then
             bind_j (json_append_unicode_escape data st) (\<lambda>r st1.
               if r = 0 then json_string_loop data cfg st1
               else Done (Some ''invalid unicode escape code'') st1)
           else if ch2 = 0 then Done (Some ''invalid escape code'') st
           else
             bind_j (on_tmp (strbuf_append_char_unsafe ch2) (st\<lparr>jp_ptr := jp_ptr st + 1\<rparr>)) (\<lambda>_ st1.
               json_string_loop data cfg (st1\<lparr>jp_ptr := jp_ptr st1 + 1\<rparr>)))
       else
         bind_j (on_tmp (strbuf_append_char_unsafe ch) st) (\<lambda>_ st1.
           json_string_loop data cfg (st1\<lparr>jp_ptr := jp_ptr st1 + 1\<rparr>)))"
  by pat_completeness auto

termination
  by (relation "measure (\<lambda>(data, cfg, st). Suc (length data) - jp_ptr st)")
     (auto dest!: peek_le on_tmp_ptr json_append_unicode_escape_ptr)

declare json_string_loop.simps [simp del]

definition json_next_string_token :: "byte list \<Rightarrow> json_config \<Rightarrow> json_token \<Rightarrow> ('a, json_token) dec" where
  "json_next_string_token data cfg token st =
     bind_r (peek data (jp_ptr st)) (\<lambda>c.
       if c \<noteq> 0x22 then Fault Assert_failed
       else
         bind_j (json_string_loop data cfg (st\<lparr>jp_ptr := jp_ptr st + 1, jp_tmp := strbuf_reset (jp_tmp st)\<rparr>)) (\<lambda>r st1.
           case r of
             Some errtype \<Rightarrow> json_set_token_error token errtype st1
           | None \<Rightarrow>
               bind_j (on_tmp strbuf_ensure_null (st1\<lparr>jp_ptr := jp_ptr st1 + 1\<rparr>)) (\<lambda>_ st2.
                 bind_r (memslice_wrap_strbuf_string (jp_tmp st2) (jp_heap st2)) (\<lambda>s.
                   Done (token\<lparr>tok_type := T_STRING, tok_string := s\<rparr>) st2))))"

text \<open>\<open>strncmp\<close> and \<open>strncasecmp\<close> with a literal stop at the null byte behind the text.\<close>

definition text_at :: "byte list \<Rightarrow> nat \<Rightarrow> string \<Rightarrow> bool" where
  "text_at data p lit \<longleftrightarrow> take (length lit) (drop p data) = ascii lit"

definition text_at_nocase :: "byte list \<Rightarrow> nat \<Rightarrow> string \<Rightarrow> bool" where
  "text_at_nocase data p lit \<longleftrightarrow> map to_lower (take (length lit) (drop p data)) = ascii lit"

text \<open>The characters are signed: a byte from \<open>0x80\<close> on counts as an ordinary number.\<close>

definition json_is_invalid_number :: "byte list \<Rightarrow> nat \<Rightarrow> bool res" where
  "json_is_invalid_number data ptr =
     bind_res (peek data ptr) (\<lambda>c0.
       if c0 = 0x2b then Inr True
       else
         let p = (if c0 = 0x2d then ptr + 1 else ptr) in
         bind_res (peek data p) (\<lambda>c.
           if c = 0x30 then
             bind_res (peek data (p + 1)) (\<lambda>ch2.
               Inr (ch2 OR 0x20 = 0x78 \<or> (0x30 \<le> sint ch2 \<and> sint ch2 \<le> 0x39)))
           else if sint c \<le> 0x39 then Inr False
           else Inr (text_at_nocase data p ''inf'' \<or> text_at_nocase data p ''nan'')))"

definition json_next_number_token :: "byte \<Rightarrow> byte list \<Rightarrow> json_token \<Rightarrow> ('a, json_token) dec" where
  "json_next_number_token dp data token st =
     (case fpconv_strtod dp (drop (jp_ptr st) data) of (v, n) \<Rightarrow>
        let token' = token\<lparr>tok_type := T_NUMBER, tok_number := v\<rparr> in
        if n = 0 then json_set_token_error token' ''invalid number'' st
        else Done token' (st\<lparr>jp_ptr := jp_ptr st + n\<rparr>))"

text \<open>The position of the first character that is no white space.\<close>

function json_skip_space :: "byte list \<Rightarrow> json_config \<Rightarrow> nat \<Rightarrow> (nat \<times> byte) res" where
  "json_skip_space data cfg p =
     bind_res (peek data p) (\<lambda>ch.
       if ch2token cfg ch = T_WHITESPACE then json_skip_space data cfg (Suc p) else Inr (p, ch))"
  by pat_completeness auto
termination
  by (relation "measure (\<lambda>(data, cfg, p). Suc (length data) - p)") (auto dest!: peek_le)

declare json_skip_space.simps [simp del]

definition json_next_token :: "byte \<Rightarrow> byte list \<Rightarrow> json_config \<Rightarrow> json_token \<Rightarrow> ('a, json_token) dec" where
  "json_next_token dp data cfg token0 st0 =
     bind_r (json_skip_space data cfg (jp_ptr st0)) (\<lambda>(p, ch).
       let st = st0\<lparr>jp_ptr := p\<rparr>;
           token = token0\<lparr>tok_type := ch2token cfg ch, tok_index := p\<rparr> in
       if tok_type token = T_ERROR then json_set_token_error token ''invalid token'' st
       else if tok_type token = T_END then Done token st
       else if tok_type token \<noteq> T_UNKNOWN then Done token (st\<lparr>jp_ptr := p + 1\<rparr>)
       else if ch = 0x22 then json_next_string_token data cfg token st
       else if ch = 0x2d \<or> (0x30 \<le> uint ch \<and> uint ch \<le> 0x39) then
         bind_r (if decode_invalid_numbers cfg = 0 then json_is_invalid_number data p else Inr False) (\<lambda>bad.
           if bad then json_set_token_error token ''invalid number'' st
           else json_next_number_token dp data token st)
       else if text_at data p ''true'' then
         Done (token\<lparr>tok_type := T_BOOLEAN, tok_boolean := True\<rparr>) (st\<lparr>jp_ptr := p + 4\<rparr>)
       else if text_at data p ''false'' then
         Done (token\<lparr>tok_type := T_BOOLEAN, tok_boolean := False\<rparr>) (st\<lparr>jp_ptr := p + 5\<rparr>)
       else if text_at data p ''null'' then
         Done (token\<lparr>tok_type := T_NULL\<rparr>) (st\<lparr>jp_ptr := p + 4\<rparr>)
       else
         bind_r (if decode_invalid_numbers cfg \<noteq> 0 then json_is_invalid_number data p else Inr False) (\<lambda>bad.
           if bad then json_next_number_token dp data token st
           else json_set_token_error token ''invalid token'' st))"

section \<open>Values\<close>

text \<open>The temporary buffer is freed before the error is raised.\<close>

definition json_throw :: "byte list \<Rightarrow> ('a, 'r) dec" where
  "json_throw msg st =
     bind_r (memslice_wrap_strbuf_free (jp_tmp st) (jp_heap st)) (\<lambda>h. Raise msg (st\<lparr>jp_heap := h\<rparr>))"

definition json_throw_parse_error :: "string \<Rightarrow> json_token \<Rightarrow> ('a, 'r) dec" where
  "json_throw_parse_error expected token =
     (let found = (if tok_type token = T_ERROR then tok_string token else json_token_type_name (tok_type token)) in
      json_throw (ascii ''Expected '' @ ascii expected @ ascii '' but found '' @ found @
        ascii '' at character '' @ int_text (int (tok_index token) + 1)))"

definition json_decode_ascend :: "'a slab_scheme json_parse \<Rightarrow> 'a slab_scheme json_parse" where
  "json_decode_ascend st = st\<lparr>jp_depth := jp_depth st - 1\<rparr>"

text \<open>\<open>lua_checkstack\<close> succeeds.\<close>

definition json_decode_descend :: "json_config \<Rightarrow> ('a, unit) dec" where
  "json_decode_descend cfg st =
     (let st' = st\<lparr>jp_depth := jp_depth st + 1\<rparr> in
      if jp_depth st' \<le> decode_max_depth cfg then Done () st'
      else json_throw (ascii ''Found too many nested data structures ('' @ int_text (jp_depth st') @
             ascii '') at character '' @ int_text (int (jp_ptr st'))) st')"

text \<open>
  \<open>json_object_pairs\<close> and \<open>json_array_items\<close> are the loops of the two contexts, with the table so far;
  \<open>i\<close> is the index of the next item.
\<close>

function (sequential) json_process_value :: "nat \<Rightarrow> byte \<Rightarrow> byte list \<Rightarrow> json_config \<Rightarrow> json_token \<Rightarrow> ('a, lval) dec"
and json_parse_object_context :: "nat \<Rightarrow> byte \<Rightarrow> byte list \<Rightarrow> json_config \<Rightarrow> json_token \<Rightarrow> ('a, lval) dec"
and json_object_pairs :: "nat \<Rightarrow> byte \<Rightarrow> byte list \<Rightarrow> json_config \<Rightarrow> ltable \<Rightarrow> json_token \<Rightarrow> ('a, lval) dec"
and json_parse_array_context :: "nat \<Rightarrow> byte \<Rightarrow> byte list \<Rightarrow> json_config \<Rightarrow> json_token \<Rightarrow> ('a, lval) dec"
and json_array_items :: "nat \<Rightarrow> byte \<Rightarrow> byte list \<Rightarrow> json_config \<Rightarrow> ltable \<Rightarrow> nat \<Rightarrow> json_token \<Rightarrow> ('a, lval) dec"
where
  "json_process_value 0 dp data cfg token st = Fault Out_of_fuel"
| "json_process_value (Suc f) dp data cfg token st =
     (case tok_type token of
        T_STRING \<Rightarrow> Done (LString (tok_string token)) st
      | T_NUMBER \<Rightarrow> Done (LNumber (tok_number token)) st
      | T_BOOLEAN \<Rightarrow> Done (LBoolean (tok_boolean token)) st
      | T_OBJ_BEGIN \<Rightarrow> json_parse_object_context f dp data cfg token st
      | T_ARR_BEGIN \<Rightarrow> json_parse_array_context f dp data cfg token st
      | T_NULL \<Rightarrow> Done (LLightuserdata 0) st
      | _ \<Rightarrow> json_throw_parse_error ''value'' token st)"
| "json_parse_object_context 0 dp data cfg token st = Fault Out_of_fuel"
| "json_parse_object_context (Suc f) dp data cfg token st =
     bind_j (json_decode_descend cfg st) (\<lambda>_ st1.
     bind_j (json_next_token dp data cfg token st1) (\<lambda>token2 st2.
       if tok_type token2 = T_OBJ_END then Done (LTable []) (json_decode_ascend st2)
       else json_object_pairs f dp data cfg [] token2 st2))"
| "json_object_pairs 0 dp data cfg kvs token st = Fault Out_of_fuel"
| "json_object_pairs (Suc f) dp data cfg kvs token st =
     (if tok_type token \<noteq> T_STRING then json_throw_parse_error ''object key string'' token st
      else
        let key = LString (tok_string token) in
        bind_j (json_next_token dp data cfg token st) (\<lambda>token1 st1.
          if tok_type token1 \<noteq> T_COLON then json_throw_parse_error ''colon'' token1 st1
          else
            bind_j (json_next_token dp data cfg token1 st1) (\<lambda>token2 st2.
            bind_j (json_process_value f dp data cfg token2 st2) (\<lambda>v st3.
            bind_r (lua_rawset kvs key v) (\<lambda>kvs'.
            bind_j (json_next_token dp data cfg token2 st3) (\<lambda>token4 st4.
              if tok_type token4 = T_OBJ_END then Done (LTable kvs') (json_decode_ascend st4)
              else if tok_type token4 \<noteq> T_COMMA then json_throw_parse_error ''comma or object end'' token4 st4
              else
                bind_j (json_next_token dp data cfg token4 st4) (\<lambda>token5 st5.
                  json_object_pairs f dp data cfg kvs' token5 st5)))))))"
| "json_parse_array_context 0 dp data cfg token st = Fault Out_of_fuel"
| "json_parse_array_context (Suc f) dp data cfg token st =
     bind_j (json_decode_descend cfg st) (\<lambda>_ st1.
     bind_j (json_next_token dp data cfg token st1) (\<lambda>token2 st2.
       if tok_type token2 = T_ARR_END then Done (LTable []) (json_decode_ascend st2)
       else json_array_items f dp data cfg [] 1 token2 st2))"
| "json_array_items 0 dp data cfg kvs i token st = Fault Out_of_fuel"
| "json_array_items (Suc f) dp data cfg kvs i token st =
     bind_j (json_process_value f dp data cfg token st) (\<lambda>v st1.
     let kvs' = lua_rawseti kvs i v in
     bind_j (json_next_token dp data cfg token st1) (\<lambda>token2 st2.
       if tok_type token2 = T_ARR_END then Done (LTable kvs') (json_decode_ascend st2)
       else if tok_type token2 \<noteq> T_COMMA then json_throw_parse_error ''comma or array end'' token2 st2
       else
         bind_j (json_next_token dp data cfg token2 st2) (\<lambda>token3 st3.
           json_array_items f dp data cfg kvs' (Suc i) token3 st3)))"
  by pat_completeness auto
termination
  by (relation "measure (case_sum (case_sum fst fst) (case_sum fst (case_sum fst fst)))") auto

text \<open>The body of \<open>json_decode\<close> from the first token on; the token starts uninitialised.\<close>

definition decode_run :: "byte \<Rightarrow> byte list \<Rightarrow> json_config \<Rightarrow> ('a, lval list) dec" where
  "decode_run dp data cfg st =
     (let token = \<lparr>tok_type = T_UNKNOWN, tok_index = 0, tok_string = [], tok_number = 0, tok_boolean = False\<rparr> in
      bind_j (json_next_token dp data cfg token st) (\<lambda>token1 st1.
      bind_j (json_process_value (3 * length data + 4) dp data cfg token1 st1) (\<lambda>v st2.
      bind_j (json_next_token dp data cfg token1 st2) (\<lambda>token3 st3.
        if tok_type token3 \<noteq> T_END then json_throw_parse_error ''the end'' token3 st3
        else bind_r (memslice_wrap_strbuf_free (jp_tmp st3) (jp_heap st3)) (\<lambda>h'.
          Done [v] (st3\<lparr>jp_heap := h'\<rparr>))))))"

definition json_decode_text :: "byte \<Rightarrow> byte list \<Rightarrow> json_config \<times> 'a slab_scheme \<Rightarrow>
    (json_config \<times> 'a slab_scheme, lval list) jres" where
  "json_decode_text dp data = (\<lambda>(cfg, h).
     if 2 \<le> length data \<and> (data ! 0 = 0 \<or> data ! 1 = 0) then
       Raise (ascii ''JSON parser does not support UTF-16 or UTF-32'') (cfg, h)
     else bind_r (memslice_wrap_strbuf_new (int (length data)) h) (\<lambda>(tmp, h1).
       case decode_run dp data cfg \<lparr>jp_ptr = 0, jp_tmp = tmp, jp_depth = 0, jp_heap = h1\<rparr> of
         Done r st' \<Rightarrow> Done r (cfg, jp_heap st')
       | Raise msg st' \<Rightarrow> Raise msg (cfg, jp_heap st')
       | Fault e \<Rightarrow> Fault e))"

text \<open>
  \<open>luaL_checklstring\<close> accepts strings and numbers; its error is raised like the others, with the
  text it has in a call from \<open>lua_pcall\<close>, where the function has no name.
\<close>

definition json_decode :: "lua_lib \<Rightarrow> byte \<Rightarrow> lval list \<Rightarrow> json_config \<times> 'a slab_scheme \<Rightarrow>
    (json_config \<times> 'a slab_scheme, lval list) jres" where
  "json_decode L dp args st =
     (if length args \<noteq> 1 then Raise (ascii ''expected 1 argument'') st
      else case lua_tolstring L (args ! 0) of
        None \<Rightarrow> Raise (ascii ''bad argument #1 to '' @ [0x27, 0x3f, 0x27] @ ascii '' (string expected, got '' @
                  lua_typename (args ! 0) @ ascii '')'') st
      | Some data \<Rightarrow> json_decode_text dp data st)"

end
