(* ===== verification/Json_Decode_Safe.thy ===== *)
theory Json_Decode_Safe
  imports Json_Decode Json_Strbuf
begin

text \<open>
  The decoder is safe: what the positions, the temporary buffer and the nesting depth satisfy between
  tokens, that every token function keeps it, and that the fuel of the parser is enough.
\<close>

section \<open>How far \<open>strtod\<close> reads\<close>

lemma scan_digits_le: "scan_digits P dp s = (ip, fp, n) \<Longrightarrow> n \<le> length s"
proof -
  assume s: "scan_digits P dp s = (ip, fp, n)"
  have ip: "length (takeWhile P s) \<le> length s" by (rule length_takeWhile_le)
  have "length (takeWhile P (tl (drop (length (takeWhile P s)) s))) \<le> length s - length (takeWhile P s) - 1"
    using length_takeWhile_le [of P "tl (drop (length (takeWhile P s)) s)"] by simp
  moreover have "drop (length (takeWhile P s)) s \<noteq> [] \<Longrightarrow> length (takeWhile P s) < length s" by simp
  ultimately show ?thesis
    using s ip by (auto simp: scan_digits_def Let_def split: if_splits)
qed

lemma scan_exp_le: "scan_exp c s = (x, k) \<Longrightarrow> k \<le> length s"
proof -
  assume s: "scan_exp c s = (x, k)"
  have "length (takeWhile is_digit (tl (tl s))) \<le> length s - 2" "length (takeWhile is_digit (tl s)) \<le> length s - 1"
    using length_takeWhile_le [of is_digit "tl (tl s)"] length_takeWhile_le [of is_digit "tl s"] by simp_all
  moreover have "tl s \<noteq> [] \<Longrightarrow> 2 \<le> length s" by (cases s; cases "tl s") auto
  moreover have "takeWhile is_digit (tl s) \<noteq> [] \<Longrightarrow> 2 \<le> length s" by (cases s; cases "tl s") auto
  moreover have "takeWhile is_digit (tl (tl s)) \<noteq> [] \<Longrightarrow> 3 \<le> length s" by (cases s; cases "tl s"; cases "tl (tl s)") auto
  ultimately show ?thesis
    using s by (auto simp: scan_exp_def Let_def split: if_splits)
qed

lemma strtod_dec_le: "strtod_dec dp neg s = (v, n) \<Longrightarrow> n \<le> length s"
proof (cases "scan_digits is_digit dp s")
  case (fields ip fp k)
  obtain x m where e: "scan_exp 0x65 (drop k s) = (x, m)" by (metis surj_pair)
  then show "strtod_dec dp neg s = (v, n) \<Longrightarrow> n \<le> length s"
    using scan_digits_le [OF fields] scan_exp_le [OF e] fields
    by (auto simp: strtod_dec_def split: if_splits)
qed

lemma strtod_hex_le: "strtod_hex dp neg s = (v, n) \<Longrightarrow> n \<le> length s"
proof (cases "scan_digits is_hex dp s")
  case (fields ip fp k)
  obtain x m where e: "scan_exp 0x70 (drop k s) = (x, m)" by (metis surj_pair)
  then show "strtod_hex dp neg s = (v, n) \<Longrightarrow> n \<le> length s"
    using scan_digits_le [OF fields] scan_exp_le [OF e] fields
    by (auto simp: strtod_hex_def split: if_splits)
qed

lemma take_map_length: "take n (map f s) = l \<Longrightarrow> length l = n \<Longrightarrow> n \<le> length s"
  by (metis length_map length_take min.absorb_iff1 min.commute nle_le)

lemma strtod_abs_le:
  assumes "strtod_abs dp neg s = (v, n)"
  shows "n \<le> length s"
proof -
  let ?l = "map to_lower s"
  consider (inf) "take 3 ?l = [0x69, 0x6e, 0x66]" | (nan) "take 3 ?l = [0x6e, 0x61, 0x6e]"
    | (hex) "take 2 ?l = [48, 0x78]" "take 3 ?l \<noteq> [0x69, 0x6e, 0x66]" "take 3 ?l \<noteq> [0x6e, 0x61, 0x6e]"
    | (dec) "take 2 ?l \<noteq> [48, 0x78]" "take 3 ?l \<noteq> [0x69, 0x6e, 0x66]" "take 3 ?l \<noteq> [0x6e, 0x61, 0x6e]" by blast
  then show ?thesis
  proof cases
    case inf
    have "3 \<le> length s" using take_map_length [OF inf] by simp
    moreover have "take 8 ?l = [0x69, 0x6e, 0x66, 0x69, 0x6e, 0x69, 0x74, 0x79] \<Longrightarrow> 8 \<le> length s"
      using take_map_length [of 8 to_lower s] by simp
    ultimately show ?thesis using assms inf by (auto simp: strtod_abs_def Let_def split: if_splits)
  next
    case nan
    have 3: "3 \<le> length s" using take_map_length [OF nan] by simp
    let ?r = "drop 3 s"
    let ?seq = "takeWhile (\<lambda>b. is_digit b \<or> b = 0x5f \<or> 97 \<le> unat (to_lower b) \<and> unat (to_lower b) \<le> 122) (tl ?r)"
    have "take 1 (drop (1 + length ?seq) ?r) = [0x29] \<Longrightarrow> 3 + 2 + length ?seq \<le> length s"
      by (cases "1 + length ?seq < length ?r") auto
    then show ?thesis using assms nan 3 by (auto simp: strtod_abs_def Let_def split: if_splits)
  next
    case hex
    have "2 \<le> length s" using take_map_length [OF hex(1)] by simp
    with assms hex show ?thesis
      using strtod_hex_le [of dp neg "drop 2 s"]
      by (cases "strtod_hex dp neg (drop 2 s)") (fastforce simp: strtod_abs_def Let_def split: if_splits)
  next
    case dec
    with assms show ?thesis using strtod_dec_le by (simp add: strtod_abs_def Let_def)
  qed
qed

lemma c_strtod_le: "c_strtod dp str = (v, n) \<Longrightarrow> n \<le> length str"
proof -
  assume a: "c_strtod dp str = (v, n)"
  define w where "w = length (takeWhile is_space str)"
  define s where "s = drop w str"
  define signed where "signed \<longleftrightarrow> s \<noteq> [] \<and> (hd s = 0x2b \<or> hd s = 0x2d)"
  obtain v' k where k: "strtod_abs dp (signed \<and> hd s = 0x2d) (if signed then tl s else s) = (v', k)" by (metis surj_pair)
  have "n = (if k = 0 then 0 else w + (if signed then 1 else 0) + k)"
    using a unfolding c_strtod_def Let_def w_def [symmetric] s_def [symmetric] signed_def [symmetric] k prod.case
    by (simp split: if_splits)
  moreover have "k \<le> length (if signed then tl s else s)" by (rule strtod_abs_le [OF k])
  moreover have "w \<le> length str" by (simp add: w_def length_takeWhile_le)
  moreover have "signed \<Longrightarrow> 0 < length s" by (auto simp: signed_def)
  ultimately show ?thesis by (auto simp: s_def split: if_splits)
qed

lemma length_replace_first [simp]: "length (replace_first a b xs) = length xs"
  by (induction a b xs rule: replace_first.induct) auto

lemma fpconv_strtod_le: "fpconv_strtod dp s = (v, n) \<Longrightarrow> n \<le> length s"
  by (auto simp: fpconv_strtod_def Let_def split: if_splits dest!: c_strtod_le)

section \<open>What holds between tokens\<close>

text \<open>
  \<open>h\<close> is the heap before the call. The temporary buffer was made there and has kept its size, which
  is that of the text; the position is in the text.
\<close>

definition dec_ok :: "byte list \<Rightarrow> 'a slab_scheme \<Rightarrow> 'a slab_scheme json_parse \<Rightarrow> bool" where
  "dec_ok data h st \<longleftrightarrow> sb_ok (jp_tmp st, jp_heap st) \<and> sb_fresh h (jp_tmp st, jp_heap st) \<and>
     length data < ms_until (sb_ms (jp_tmp st)) \<and> jp_ptr st \<le> length data"

lemma dec_ok_ptr [simp]: "dec_ok data h (st\<lparr>jp_ptr := p\<rparr>) \<longleftrightarrow>
    sb_ok (jp_tmp st, jp_heap st) \<and> sb_fresh h (jp_tmp st, jp_heap st) \<and>
     length data < ms_until (sb_ms (jp_tmp st)) \<and> p \<le> length data"
  by (simp add: dec_ok_def)

lemma dec_ok_depth [simp]: "dec_ok data h (st\<lparr>jp_depth := d\<rparr>) \<longleftrightarrow> dec_ok data h st"
  by (simp add: dec_ok_def)

lemma peek_ok: "p \<le> length data \<Longrightarrow> peek data p = Inr (if p < length data then data ! p else 0)"
  by (simp add: peek_def)

text \<open>A store of bytes into the room of the temporary buffer.\<close>

lemma on_tmp_append:
  assumes "dec_ok data h st" "sb_length (jp_tmp st) + length bs < ms_until (sb_ms (jp_tmp st))"
  shows "\<exists>st'. on_tmp (strbuf_append_mem_unsafe bs) st = Done () st' \<and> dec_ok data h st' \<and>
    jp_ptr st' = jp_ptr st \<and> jp_depth st' = jp_depth st \<and>
    sb_length (jp_tmp st') = sb_length (jp_tmp st) + length bs \<and>
    sb_text (jp_tmp st', jp_heap st') = sb_text (jp_tmp st, jp_heap st) @ bs"
proof -
  let ?s = "jp_tmp st" and ?h = "jp_heap st"
  have ok: "sb_ok (?s, ?h)" using assms(1) by (simp add: dec_ok_def)
  obtain h' where h': "slice_store (sb_ms ?s) (sb_length ?s) bs ?h = Inr h'"
    "\<And>n. n \<le> ms_until (sb_ms ?s) \<Longrightarrow> sb_ok (?s\<lparr>sb_length := n\<rparr>, h') \<and> sb_next (?s, ?h) (?s\<lparr>sb_length := n\<rparr>, h')"
    "slice_mem h' (sb_ms ?s) = mem_write (slice_mem ?h (sb_ms ?s)) (sb_length ?s) bs"
    by (rule sb_store [OF ok, of bs]) (use assms(2) in auto)
  let ?s' = "?s\<lparr>sb_length := sb_length ?s + length bs\<rparr>"
  have "\<lparr>sb_ms = sb_ms ?s, sb_length = sb_length ?s + length bs\<rparr> = ?s'" by (cases ?s) simp
  then have "on_tmp (strbuf_append_mem_unsafe bs) st = Done () (st\<lparr>jp_tmp := ?s', jp_heap := h'\<rparr>)"
    using h'(1) by (simp add: on_tmp_def strbuf_append_mem_unsafe_def lev_memslice_append_mem_unsafe_def)
  moreover have n: "sb_ok (?s', h')" "sb_next (?s, ?h) (?s', h')" using h'(2) assms(2) by auto
  moreover have "sb_fresh h (?s', h')"
    using sb_fresh_next [OF _ n(2)] assms(1) by (simp add: dec_ok_def)
  ultimately show ?thesis
    using sb_text_store [OF h'(3) refl] assms(1) by (intro exI [of _ "st\<lparr>jp_tmp := ?s', jp_heap := h'\<rparr>"]) (simp add: dec_ok_def)
qed

lemma append_char_unsafe_mem: "strbuf_append_char_unsafe c = strbuf_append_mem_unsafe [c]"
  by (auto simp: strbuf_append_char_unsafe_def strbuf_append_mem_unsafe_def
      lev_memslice_append_char_unsafe_def lev_memslice_append_mem_unsafe_def)

lemma on_tmp_null:
  assumes "dec_ok data h st" "sb_length (jp_tmp st) < ms_until (sb_ms (jp_tmp st))"
  shows "\<exists>st'. on_tmp strbuf_ensure_null st = Done () st' \<and> dec_ok data h st' \<and>
    jp_ptr st' = jp_ptr st \<and> jp_depth st' = jp_depth st \<and>
    sb_text (jp_tmp st', jp_heap st') = sb_text (jp_tmp st, jp_heap st)"
proof -
  let ?s = "jp_tmp st" and ?h = "jp_heap st"
  have ok: "sb_ok (?s, ?h)" using assms(1) by (simp add: dec_ok_def)
  obtain h' where h': "slice_store (sb_ms ?s) (sb_length ?s) [0] ?h = Inr h'"
    "\<And>n. n \<le> ms_until (sb_ms ?s) \<Longrightarrow> sb_ok (?s\<lparr>sb_length := n\<rparr>, h') \<and> sb_next (?s, ?h) (?s\<lparr>sb_length := n\<rparr>, h')"
    "slice_mem h' (sb_ms ?s) = mem_write (slice_mem ?h (sb_ms ?s)) (sb_length ?s) [0]"
    by (rule sb_store [OF ok, of "[0]"]) (use assms(2) in auto)
  have n: "sb_ok (?s, h')" "sb_next (?s, ?h) (?s, h')" using h'(2) [of "sb_length ?s"] assms(2) by auto
  have "sb_fresh h (?s, h')" using sb_fresh_next [OF _ n(2)] assms(1) by (simp add: dec_ok_def)
  moreover have "sb_text (?s, h') = sb_text (?s, ?h)"
    by (simp add: sb_text_def h'(3) mem_read_write_disjoint)
  moreover have "on_tmp strbuf_ensure_null st = Done () (st\<lparr>jp_tmp := ?s, jp_heap := h'\<rparr>)"
    using h'(1) by (simp add: on_tmp_def strbuf_ensure_null_def lev_memslice_ensure_null_def)
  ultimately show ?thesis
    using n assms(1) by (intro exI [of _ "st\<lparr>jp_tmp := ?s, jp_heap := h'\<rparr>"]) (simp add: dec_ok_def)
qed

section \<open>String tokens\<close>

lemma hex_digits_at_total:
  "p \<le> length data \<Longrightarrow> \<exists>r. hex_digits_at data p n = Inr r \<and> (r \<noteq> None \<longrightarrow> p + n \<le> length data)"
proof (induction n arbitrary: p)
  case (Suc n)
  show ?case
  proof (cases "p < length data")
    case True
    then obtain r where "hex_digits_at data (Suc p) n = Inr r" "r \<noteq> None \<longrightarrow> Suc p + n \<le> length data"
      using Suc.IH [of "Suc p"] by auto
    with True show ?thesis by (auto simp: peek_def)
  next
    case False
    then have "peek data p = Inr 0" using Suc.prems by (simp add: peek_def)
    moreover have "hexdigit2int 0 < 0" by (simp add: hexdigit2int_def)
    ultimately show ?thesis by simp
  qed
qed simp

lemma decode_hex4_total:
  assumes "p \<le> length data"
  shows "\<exists>r. decode_hex4 data p = Inr r \<and> (0 \<le> r \<longrightarrow> p + 4 \<le> length data)"
proof -
  obtain r where "hex_digits_at data p 4 = Inr r" "r \<noteq> None \<longrightarrow> p + 4 \<le> length data"
    using hex_digits_at_total [OF assms] by blast
  then show ?thesis by (cases r) (auto simp: decode_hex4_def)
qed

lemma unicode_escape_at_total:
  assumes "p + 2 \<le> length data"
  shows "\<exists>r. unicode_escape_at data p = Inr r \<and>
    (case r of None \<Rightarrow> True | Some (cp, n) \<Rightarrow>
       p + n \<le> length data \<and> length (codepoint_to_utf8 cp) < n)"
proof -
  obtain cp where cp: "decode_hex4 data (p + 2) = Inr cp" "0 \<le> cp \<longrightarrow> p + 6 \<le> length data"
    using decode_hex4_total [OF assms] by auto
  have utf8: "length (codepoint_to_utf8 c) \<le> 4" for c by (simp add: codepoint_to_utf8_def)
  show ?thesis
  proof (cases "0 \<le> cp \<and> cp AND 0xF800 = 0xD800 \<and> cp AND 0x400 = 0")
    case False
    have "length (codepoint_to_utf8 cp) < 6" using utf8 [of cp] by simp
    with False cp show ?thesis unfolding unicode_escape_at_def by (auto simp: not_le)
  next
    case True
    then have 6: "p + 6 \<le> length data" using cp by simp
    define c1 where "c1 = (if p + 6 < length data then data ! (p + 6) else 0)"
    define c2 where "c2 = (if p + 7 < length data then data ! (p + 7) else 0)"
    have "\<not> cp < 0" "\<not> cp AND 0x400 \<noteq> 0" and e: "p + 6 + 1 = p + 7" "p + 2 + 6 = p + 8" using True by simp_all
    then have u: "unicode_escape_at data p =
        (if c1 \<noteq> 0x5c then Inr None
         else bind_res (peek data (p + 7)) (\<lambda>c2. if c2 \<noteq> 0x75 then Inr None
           else bind_res (decode_hex4 data (p + 8)) (\<lambda>lo.
             if lo < 0 then Inr None else if lo AND 0xFC00 \<noteq> 0xDC00 then Inr None
             else Inr (Some ((push_bit 10 (cp AND 0x3FF) OR (lo AND 0x3FF)) + 0x10000, 12)))))"
      unfolding unicode_escape_at_def cp(1) bind_res_simps e peek_ok [OF 6] c1_def [symmetric] using True by simp
    show ?thesis
    proof (cases "c1 = 0x5c \<and> c2 = 0x75")
      case False
      have "p + 7 \<le> length data" if "c1 = 0x5c" using that by (simp add: c1_def split: if_splits)
      then have "unicode_escape_at data p = Inr None"
        unfolding u using False by (auto simp: peek_ok c2_def [symmetric])
      then show ?thesis by simp
    next
      case c: True
      then have 7: "p + 7 < length data" by (simp add: c2_def split: if_splits)
      obtain lo where lo: "decode_hex4 data (p + 8) = Inr lo" "0 \<le> lo \<longrightarrow> p + 8 + 4 \<le> length data"
        using decode_hex4_total [of "p + 8" data] 7 by auto
      define v where "v = (push_bit 10 (cp AND 0x3FF) OR (lo AND 0x3FF)) + 0x10000"
      have "peek data (p + 7) = Inr c2" using 7 by (simp add: peek_def c2_def)
      then have "unicode_escape_at data p =
          (if lo < 0 \<or> lo AND 0xFC00 \<noteq> 0xDC00 then Inr None else Inr (Some (v, 12)))"
        unfolding u lo(1) bind_res_simps v_def using c by simp
      moreover have "length (codepoint_to_utf8 v) < 12" using utf8 [of v] by simp
      ultimately show ?thesis using lo(2) by auto
    qed
  qed
qed

text \<open>The tables are filled by \<open>json_create_config\<close> and never changed.\<close>

definition tables_ok :: "json_config \<Rightarrow> bool" where
  "tables_ok cfg \<longleftrightarrow> ch2token cfg = default_ch2token \<and> escape2char cfg = default_escape2char"

lemma escape2char_null: "tables_ok cfg \<Longrightarrow> escape2char cfg 0 = 0"
  by (simp add: tables_ok_def default_escape2char_def)

lemma json_append_unicode_escape_total:
  assumes "dec_ok data h st" "sb_length (jp_tmp st) < jp_ptr st" "jp_ptr st + 2 \<le> length data"
  shows "\<exists>r st'. json_append_unicode_escape data st = Done r st' \<and> dec_ok data h st' \<and>
    jp_depth st' = jp_depth st \<and> jp_ptr st \<le> jp_ptr st' \<and> sb_length (jp_tmp st') < jp_ptr st'"
proof -
  obtain r where r: "unicode_escape_at data (jp_ptr st) = Inr r"
    "case r of None \<Rightarrow> True | Some (cp, n) \<Rightarrow> jp_ptr st + n \<le> length data \<and> length (codepoint_to_utf8 cp) < n"
    using unicode_escape_at_total [OF assms(3)] by blast
  show ?thesis
  proof (cases r)
    case None
    with r assms show ?thesis by (simp add: json_append_unicode_escape_def)
  next
    case (Some cpn)
    obtain cp n where cpn: "cpn = (cp, n)" by (cases cpn)
    have n: "jp_ptr st + n \<le> length data" "length (codepoint_to_utf8 cp) < n" using r(2) Some cpn by auto
    show ?thesis
    proof (cases "codepoint_to_utf8 cp = []")
      case True
      with r Some cpn assms show ?thesis by (simp add: json_append_unicode_escape_def)
    next
      case False
      have "length data < ms_until (sb_ms (jp_tmp st))" using assms(1) by (simp add: dec_ok_def)
      then obtain st1 where "on_tmp (strbuf_append_mem_unsafe (codepoint_to_utf8 cp)) st = Done () st1" "dec_ok data h st1"
          "jp_ptr st1 = jp_ptr st" "jp_depth st1 = jp_depth st"
          "sb_length (jp_tmp st1) = sb_length (jp_tmp st) + length (codepoint_to_utf8 cp)"
        using on_tmp_append [OF assms(1), of "codepoint_to_utf8 cp"] n assms(2) by auto
      with r(1) Some cpn False n assms(2) show ?thesis
        by (auto simp: json_append_unicode_escape_def Let_def dec_ok_def)
    qed
  qed
qed

lemma on_tmp_char:
  assumes "dec_ok data h st" "sb_length (jp_tmp st) < jp_ptr st" "jp_ptr st < length data"
  shows "\<exists>st1. on_tmp (strbuf_append_char_unsafe c) st = Done () st1 \<and>
    dec_ok data h (st1\<lparr>jp_ptr := jp_ptr st1 + 1\<rparr>) \<and> jp_depth st1 = jp_depth st \<and> jp_ptr st1 = jp_ptr st \<and>
    sb_length (jp_tmp st1) = sb_length (jp_tmp st) + 1 \<and>
    sb_text (jp_tmp st1, jp_heap st1) = sb_text (jp_tmp st, jp_heap st) @ [c]"
  using on_tmp_append [OF assms(1), of "[c]"] assms
  by (auto simp: append_char_unsafe_mem dec_ok_def)

lemma json_string_loop_total:
  assumes "tables_ok cfg" "dec_ok data h st" "sb_length (jp_tmp st) < jp_ptr st"
  shows "\<exists>r st'. json_string_loop data cfg st = Done r st' \<and> dec_ok data h st' \<and>
    jp_depth st' = jp_depth st \<and> jp_ptr st \<le> jp_ptr st' \<and> sb_length (jp_tmp st') < jp_ptr st' \<and>
    (r = None \<longrightarrow> jp_ptr st' < length data)"
  using assms(2,3)
proof (induction "Suc (length data) - jp_ptr st" arbitrary: st rule: less_induct)
  case less
  have le: "jp_ptr st \<le> length data" using less.prems(1) by (simp add: dec_ok_def)
  define ch where "ch = (if jp_ptr st < length data then data ! jp_ptr st else 0)"
  have pk: "peek data (jp_ptr st) = Inr ch" using le by (simp add: peek_ok ch_def)
  note loop = json_string_loop.simps [of data cfg st, unfolded pk bind_r_simps]
  consider (quote) "ch = 0x22" | (null) "ch = 0" | (escape) "ch = 0x5c" | (plain) "ch \<noteq> 0x22" "ch \<noteq> 0" "ch \<noteq> 0x5c" by blast
  then show ?case
  proof cases
    case quote
    then have "jp_ptr st < length data" by (simp add: ch_def split: if_splits)
    with quote less.prems show ?thesis by (simp add: loop)
  next
    case null
    with less.prems show ?thesis by (simp add: loop)
  next
    case plain
    then have lt: "jp_ptr st < length data" by (simp add: ch_def split: if_splits)
    obtain st1 where 1: "on_tmp (strbuf_append_char_unsafe ch) st = Done () st1"
        "dec_ok data h (st1\<lparr>jp_ptr := jp_ptr st1 + 1\<rparr>)" "jp_depth st1 = jp_depth st" "jp_ptr st1 = jp_ptr st"
        "sb_length (jp_tmp st1) = sb_length (jp_tmp st) + 1"
      using on_tmp_char [OF less.prems lt] by blast
    have "json_string_loop data cfg st = json_string_loop data cfg (st1\<lparr>jp_ptr := jp_ptr st1 + 1\<rparr>)"
      using plain 1(1) by (simp add: loop)
    with less.hyps [of "st1\<lparr>jp_ptr := jp_ptr st1 + 1\<rparr>", OF _ 1(2)] 1(3-5) lt less.prems(2) show ?thesis
      by (auto simp: less_diff_conv)
  next
    case escape
    then have lt: "jp_ptr st < length data" by (simp add: ch_def split: if_splits)
    define c1 where "c1 = (if jp_ptr st + 1 < length data then data ! (jp_ptr st + 1) else 0)"
    have pk1: "peek data (jp_ptr st + 1) = Inr c1" using lt by (simp add: peek_ok c1_def)
    define c2 where "c2 = escape2char cfg c1"
    have loop2: "json_string_loop data cfg st =
        (if c2 = 0x75 then bind_j (json_append_unicode_escape data st) (\<lambda>r st1.
           if r = 0 then json_string_loop data cfg st1 else Done (Some ''invalid unicode escape code'') st1)
         else if c2 = 0 then Done (Some ''invalid escape code'') st
         else bind_j (on_tmp (strbuf_append_char_unsafe c2) (st\<lparr>jp_ptr := jp_ptr st + 1\<rparr>)) (\<lambda>_ st1.
           json_string_loop data cfg (st1\<lparr>jp_ptr := jp_ptr st1 + 1\<rparr>)))"
      unfolding loop pk1 bind_r_simps Let_def c2_def using escape by simp
    have in1: "jp_ptr st + 2 \<le> length data" if "c2 \<noteq> 0"
      using that escape2char_null [OF assms(1)] lt by (auto simp: c2_def c1_def split: if_splits)
    consider (unicode) "c2 = 0x75" | (bad) "c2 = 0" | (char) "c2 \<noteq> 0x75" "c2 \<noteq> 0" by blast
    then show ?thesis
    proof cases
      case bad
      with less.prems show ?thesis by (simp add: loop2)
    next
      case unicode
      obtain r st1 where 1: "json_append_unicode_escape data st = Done r st1" "dec_ok data h st1"
          "jp_depth st1 = jp_depth st" "jp_ptr st \<le> jp_ptr st1" "sb_length (jp_tmp st1) < jp_ptr st1"
        using json_append_unicode_escape_total [OF less.prems in1] unicode by auto
      show ?thesis
      proof (cases "r = 0")
        case False
        with unicode 1 show ?thesis by (simp add: loop2)
      next
        case True
        then have lt1: "jp_ptr st < jp_ptr st1" using json_append_unicode_escape_ptr 1(1) by blast
        then have "Suc (length data) - jp_ptr st1 < Suc (length data) - jp_ptr st" using le by arith
        moreover have "json_string_loop data cfg st = json_string_loop data cfg st1"
          using unicode 1(1) True by (simp add: loop2)
        ultimately show ?thesis
          using less.hyps [of st1, OF _ 1(2,5)] 1(3,4) by (auto intro: order_trans)
      qed
    next
      case char
      let ?st = "st\<lparr>jp_ptr := jp_ptr st + 1\<rparr>"
      have ok: "dec_ok data h ?st" using less.prems(1) in1 char(2) by (simp add: dec_ok_def)
      obtain st1 where 1: "on_tmp (strbuf_append_char_unsafe c2) ?st = Done () st1"
          "dec_ok data h (st1\<lparr>jp_ptr := jp_ptr st1 + 1\<rparr>)" "jp_depth st1 = jp_depth ?st" "jp_ptr st1 = jp_ptr ?st"
          "sb_length (jp_tmp st1) = sb_length (jp_tmp ?st) + 1"
        using on_tmp_char [OF ok, of c2] less.prems(2) in1 char(2) by auto
      have "json_string_loop data cfg st = json_string_loop data cfg (st1\<lparr>jp_ptr := jp_ptr st1 + 1\<rparr>)"
        using char 1(1) by (simp add: loop2)
      moreover have "Suc (length data) - jp_ptr (st1\<lparr>jp_ptr := jp_ptr st1 + 1\<rparr>) < Suc (length data) - jp_ptr st"
        "sb_length (jp_tmp (st1\<lparr>jp_ptr := jp_ptr st1 + 1\<rparr>)) < jp_ptr (st1\<lparr>jp_ptr := jp_ptr st1 + 1\<rparr>)"
        using 1(4,5) lt less.prems(2) by simp_all
      ultimately show ?thesis
        using less.hyps [of "st1\<lparr>jp_ptr := jp_ptr st1 + 1\<rparr>", OF _ 1(2)] 1(3,4) by auto
    qed
  qed
qed

section \<open>Tokens\<close>

text \<open>
  What reading a token does: it succeeds, keeps \<open>dec_ok\<close> and the depth, moves forward unless the
  token is the end or an error, and never reports white space.
\<close>

definition token_read :: "byte list \<Rightarrow> 'a slab_scheme \<Rightarrow> 'a slab_scheme json_parse \<Rightarrow> ('a slab_scheme json_parse, json_token) jres \<Rightarrow> bool" where
  "token_read data h st r \<longleftrightarrow> (\<exists>token st'. r = Done token st' \<and> dec_ok data h st' \<and>
     jp_depth st' = jp_depth st \<and> jp_ptr st \<le> jp_ptr st' \<and>
     (tok_type token \<noteq> T_END \<and> tok_type token \<noteq> T_ERROR \<longrightarrow> jp_ptr st < jp_ptr st'))"

lemma json_set_token_error_read:
  "dec_ok data h st \<Longrightarrow> token_read data h st (json_set_token_error token e st)"
  by (simp add: token_read_def json_set_token_error_def)

lemma token_read_from:
  assumes "token_read data h st1 r" "jp_depth st1 = jp_depth st" "jp_ptr st \<le> jp_ptr st1"
  shows "token_read data h st r"
proof -
  obtain token st' where "r = Done token st'" "dec_ok data h st'" "jp_depth st' = jp_depth st1"
      "jp_ptr st1 \<le> jp_ptr st'" "tok_type token \<noteq> T_END \<and> tok_type token \<noteq> T_ERROR \<longrightarrow> jp_ptr st1 < jp_ptr st'"
    using assms(1) by (auto simp: token_read_def)
  with assms(2,3) show ?thesis
    unfolding token_read_def by (intro exI [of _ token] exI [of _ st']) auto
qed

lemma json_next_string_token_read:
  assumes "tables_ok cfg" "dec_ok data h st" "jp_ptr st < length data" "data ! jp_ptr st = 0x22"
  shows "token_read data h st (json_next_string_token data cfg token st)"
proof -
  let ?st = "st\<lparr>jp_ptr := jp_ptr st + 1, jp_tmp := strbuf_reset (jp_tmp st)\<rparr>"
  have tmp: "sb_ok (jp_tmp st, jp_heap st)" "sb_fresh h (jp_tmp st, jp_heap st)"
      "length data < ms_until (sb_ms (jp_tmp st))"
    using assms(2) by (auto simp: dec_ok_def)
  have "sb_ok (strbuf_reset (jp_tmp st), jp_heap st)" "sb_fresh h (strbuf_reset (jp_tmp st), jp_heap st)"
    using tmp by (simp_all add: sb_ok_def strbuf_reset_def sb_fresh_def)
  then have ok: "dec_ok data h ?st" "sb_length (jp_tmp ?st) < jp_ptr ?st"
    using tmp(3) assms(3) by (simp_all add: dec_ok_def strbuf_reset_def)
  obtain r st1 where 1: "json_string_loop data cfg ?st = Done r st1" "dec_ok data h st1" "jp_depth st1 = jp_depth st"
      "jp_ptr st < jp_ptr st1" "sb_length (jp_tmp st1) < jp_ptr st1" "r = None \<longrightarrow> jp_ptr st1 < length data"
    using json_string_loop_total [OF assms(1) ok] by auto
  have pk: "peek data (jp_ptr st) = Inr 0x22" using assms(3,4) by (simp add: peek_def)
  show ?thesis
  proof (cases r)
    case (Some e)
    have "token_read data h st1 (json_set_token_error token e st1)"
      by (rule json_set_token_error_read [OF 1(2)])
    then have "token_read data h st (json_set_token_error token e st1)"
      by (rule token_read_from) (use 1 in auto)
    with Some 1(1) pk show ?thesis by (simp add: json_next_string_token_def)
  next
    case None
    have ok2: "dec_ok data h (st1\<lparr>jp_ptr := jp_ptr st1 + 1\<rparr>)"
      using 1(2,6) None by (simp add: dec_ok_def)
    have "sb_length (jp_tmp st1) < ms_until (sb_ms (jp_tmp st1))"
      using 1(2,5) by (simp add: dec_ok_def)
    then obtain st2 where 2: "on_tmp strbuf_ensure_null (st1\<lparr>jp_ptr := jp_ptr st1 + 1\<rparr>) = Done () st2" "dec_ok data h st2"
        "jp_ptr st2 = jp_ptr st1 + 1" "jp_depth st2 = jp_depth st1"
      using on_tmp_null [OF ok2] by auto
    have "memslice_wrap_strbuf_string (jp_tmp st2) (jp_heap st2) = Inr (sb_text (jp_tmp st2, jp_heap st2))"
      using 2(2) by (intro strbuf_string_ok) (simp add: dec_ok_def)
    with None 1(1,3,4) 2 pk show ?thesis by (simp add: json_next_string_token_def token_read_def)
  qed
qed

lemma json_next_number_token_read:
  assumes "dec_ok data h st"
  shows "token_read data h st (json_next_number_token dp data token st)"
proof -
  obtain v n where vn: "fpconv_strtod dp (drop (jp_ptr st) data) = (v, n)" by (metis surj_pair)
  have "n \<le> length data - jp_ptr st" using fpconv_strtod_le [OF vn] by simp
  moreover have "jp_ptr st \<le> length data" using assms by (simp add: dec_ok_def)
  ultimately have "dec_ok data h (st\<lparr>jp_ptr := jp_ptr st + n\<rparr>)" using assms by (simp add: dec_ok_def)
  then show ?thesis
    using json_set_token_error_read [OF assms] vn
    by (auto simp: json_next_number_token_def token_read_def Let_def)
qed

lemma json_is_invalid_number_total:
  assumes "p \<le> length data"
  shows "\<exists>b. json_is_invalid_number data p = Inr b"
proof -
  define c0 where "c0 = (if p < length data then data ! p else 0)"
  define q where "q = (if c0 = 0x2d then p + 1 else p)"
  define c where "c = (if q < length data then data ! q else 0)"
  have q: "q \<le> length data" using assms by (auto simp: q_def c0_def split: if_splits)
  have "q + 1 \<le> length data" if "c = 0x30" using that q by (auto simp: c_def split: if_splits)
  then obtain d where d: "c = 0x30 \<Longrightarrow> peek data (q + 1) = Inr d" by (auto simp: peek_ok)
  show ?thesis
    unfolding json_is_invalid_number_def Let_def peek_ok [OF assms] c0_def [symmetric] bind_res_simps
      q_def [symmetric] peek_ok [OF q] c_def [symmetric]
    using d by auto
qed

lemma json_skip_space_total:
  assumes "tables_ok cfg" "p \<le> length data"
  shows "\<exists>q ch. json_skip_space data cfg p = Inr (q, ch) \<and> p \<le> q \<and> q \<le> length data \<and>
    ch = (if q < length data then data ! q else 0) \<and> ch2token cfg ch \<noteq> T_WHITESPACE"
  using assms(2)
proof (induction "length data - p" arbitrary: p rule: less_induct)
  case less
  define c where "c = (if p < length data then data ! p else 0)"
  have pk: "peek data p = Inr c" using less.prems by (simp add: peek_ok c_def)
  have step: "json_skip_space data cfg p =
      (if ch2token cfg c = T_WHITESPACE then json_skip_space data cfg (Suc p) else Inr (p, c))"
    by (subst json_skip_space.simps) (simp add: pk)
  show ?case
  proof (cases "ch2token cfg c = T_WHITESPACE")
    case True
    then have p: "p < length data" using assms(1) by (auto simp: c_def tables_ok_def default_ch2token_def split: if_splits)
    then have "length data - Suc p < length data - p" "Suc p \<le> length data" by simp_all
    from less.hyps [OF this] obtain q ch where "json_skip_space data cfg (Suc p) = Inr (q, ch)" "Suc p \<le> q" "q \<le> length data"
        "ch = (if q < length data then data ! q else 0)" "ch2token cfg ch \<noteq> T_WHITESPACE" by blast
    with True step show ?thesis by (intro exI [of _ q] exI [of _ ch]) simp
  next
    case False
    with step less.prems show ?thesis by (intro exI [of _ p] exI [of _ c]) (simp add: c_def)
  qed
qed

lemma text_at_le: "text_at data p lit \<Longrightarrow> p \<le> length data \<Longrightarrow> p + length lit \<le> length data"
proof -
  assume a: "text_at data p lit" "p \<le> length data"
  then have "length (take (length lit) (drop p data)) = length lit" by (simp add: text_at_def ascii_def)
  then show ?thesis using a(2) by auto
qed

lemma json_next_token_read:
  assumes "tables_ok cfg" "dec_ok data h st"
  shows "token_read data h st (json_next_token dp data cfg token0 st)"
proof -
  have le: "jp_ptr st \<le> length data" using assms(2) by (simp add: dec_ok_def)
  obtain q ch where q: "json_skip_space data cfg (jp_ptr st) = Inr (q, ch)" "jp_ptr st \<le> q" "q \<le> length data"
      "ch = (if q < length data then data ! q else 0)" "ch2token cfg ch \<noteq> T_WHITESPACE"
    using json_skip_space_total [OF assms(1) le] by blast
  let ?st = "st\<lparr>jp_ptr := q\<rparr>" and ?tok = "token0\<lparr>tok_type := ch2token cfg ch, tok_index := q\<rparr>"
  have ok: "dec_ok data h ?st" using assms(2) q(3) by (simp add: dec_ok_def)
  have via: "token_read data h st r" if "token_read data h ?st r" for r
    using token_read_from [OF that] q(2) by simp
  have lt: "q < length data" if "ch \<noteq> 0" using that q(3,4) by (auto split: if_splits)
  have T0: "ch2token cfg 0 = T_END" using assms(1) by (simp add: tables_ok_def default_ch2token_def)
  have err: "token_read data h st (json_set_token_error ?tok e ?st)" for e
    by (rule via [OF json_set_token_error_read [OF ok]])
  have num: "token_read data h st (json_next_number_token dp data ?tok ?st)"
    by (rule via [OF json_next_number_token_read [OF ok]])
  have moved: "token_read data h st (Done t (?st\<lparr>jp_ptr := q + n\<rparr>))" if "0 < n" "q + n \<le> length data" for t n
    using that assms(2) q(2) by (simp add: token_read_def dec_ok_def)
  obtain b where b: "json_is_invalid_number data q = Inr b" using json_is_invalid_number_total [OF q(3)] by blast
  have str: "token_read data h st (json_next_string_token data cfg ?tok ?st)" if "ch = 0x22"
  proof -
    have "q < length data" using that lt by simp
    moreover from this have "data ! q = 0x22" using that q(4) by simp
    ultimately show ?thesis by (intro via json_next_string_token_read [OF assms(1) ok]) simp_all
  qed
  have end0: "token_read data h st (Done ?tok ?st)" if "ch2token cfg ch = T_END"
    using that ok q(2) by (simp add: token_read_def)
  have single: "token_read data h st (Done ?tok (?st\<lparr>jp_ptr := q + 1\<rparr>))" if "ch2token cfg ch \<noteq> T_END"
    using that T0 lt by (intro moved) (auto simp: Suc_le_eq)
  have lits: "token_read data h st (Done t (?st\<lparr>jp_ptr := q + n\<rparr>))"
    if "text_at data q lit" "n = length lit" "0 < n" for t lit n
    using that text_at_le [OF that(1) q(3)] by (intro moved) auto
  have inv: "token_read data h st (bind_r (if c then Inr b else Inr False) (\<lambda>bad. if bad then x else y))"
    if "token_read data h st x" "token_read data h st y" for c x y
    using that by (cases c; cases b) simp_all
  have choose: "token_read data h st (if c then x else y)"
    if "c \<Longrightarrow> token_read data h st x" "\<not> c \<Longrightarrow> token_read data h st y" for c x y
    using that by simp
  show ?thesis
    unfolding json_next_token_def q(1) bind_r_simps prod.case Let_def b
    by (intro choose inv err num)
       (rule end0 single str lits [where lit = "''true''"] lits [where lit = "''false''"] lits [where lit = "''null''"]; simp)+
qed

section \<open>Values\<close>

text \<open>
  A run of the parser: it ends with a value and everything in order, or with an error, after which
  the heap is used as before the call.
\<close>

definition parsed :: "byte list \<Rightarrow> 'a slab_scheme \<Rightarrow> int \<Rightarrow> nat \<Rightarrow> ('a slab_scheme json_parse, 'r) jres \<Rightarrow> bool" where
  "parsed data h d p r \<longleftrightarrow>
     (case r of
        Done v st' \<Rightarrow> dec_ok data h st' \<and> jp_depth st' = d \<and> p \<le> jp_ptr st'
      | Raise msg st' \<Rightarrow> same_use h (jp_heap st')
      | Fault e \<Rightarrow> False)"

lemma parsed_Done: "dec_ok data h st \<Longrightarrow> jp_depth st = d \<Longrightarrow> p \<le> jp_ptr st \<Longrightarrow> parsed data h d p (Done v st)"
  by (simp add: parsed_def)

lemma parsed_mono: "parsed data h d q r \<Longrightarrow> p \<le> q \<Longrightarrow> parsed data h d p r"
  by (cases r) (auto simp: parsed_def)

lemma parsed_throw: "dec_ok data h st \<Longrightarrow> parsed data h d p (json_throw msg st)"
proof -
  assume "dec_ok data h st"
  then obtain h'' where "memslice_wrap_strbuf_free (jp_tmp st) (jp_heap st) = Inr h''" "same_use h h''"
    using strbuf_free_ok [of "jp_tmp st" "jp_heap st" h] by (auto simp: dec_ok_def)
  then show ?thesis by (simp add: parsed_def json_throw_def)
qed

lemma parsed_error: "dec_ok data h st \<Longrightarrow> parsed data h d p (json_throw_parse_error e token st)"
  by (simp add: json_throw_parse_error_def Let_def parsed_throw)

lemma parsed_error_bind:
  assumes "dec_ok data h st"
  shows "parsed data h d p (bind_j (json_throw_parse_error e token st) f)"
proof -
  obtain h'' where "memslice_wrap_strbuf_free (jp_tmp st) (jp_heap st) = Inr h''" "same_use h h''"
    using strbuf_free_ok [of "jp_tmp st" "jp_heap st" h] assms by (auto simp: dec_ok_def)
  then show ?thesis by (simp add: parsed_def json_throw_parse_error_def json_throw_def Let_def)
qed

lemma parsed_token:
  assumes "token_read data h st r"
    and "\<And>token st'. dec_ok data h st' \<Longrightarrow> jp_depth st' = jp_depth st \<Longrightarrow> jp_ptr st \<le> jp_ptr st' \<Longrightarrow>
      (tok_type token \<noteq> T_END \<and> tok_type token \<noteq> T_ERROR \<Longrightarrow> jp_ptr st < jp_ptr st') \<Longrightarrow> parsed data h d p (f token st')"
  shows "parsed data h d p (bind_j r f)"
proof -
  obtain token st' where "r = Done token st'" "dec_ok data h st'" "jp_depth st' = jp_depth st" "jp_ptr st \<le> jp_ptr st'"
      "tok_type token \<noteq> T_END \<and> tok_type token \<noteq> T_ERROR \<longrightarrow> jp_ptr st < jp_ptr st'"
    using assms(1) by (auto simp: token_read_def)
  with assms(2) [of st' token] show ?thesis by simp
qed

lemma parsed_bind:
  assumes "parsed data h d' p' r"
    and "\<And>v st'. dec_ok data h st' \<Longrightarrow> jp_depth st' = d' \<Longrightarrow> p' \<le> jp_ptr st' \<Longrightarrow> parsed data h d p (f v st')"
  shows "parsed data h d p (bind_j r f)"
  using assms by (cases r) (auto simp: parsed_def)

lemma json_decode_descend_parsed:
  "dec_ok data h st \<Longrightarrow> parsed data h (jp_depth st + 1) (jp_ptr st) (json_decode_descend cfg st)"
proof -
  assume ok: "dec_ok data h st"
  then have "dec_ok data h (st\<lparr>jp_depth := jp_depth st + 1\<rparr>)" by simp
  from parsed_throw [OF this] ok show ?thesis
    by (auto simp: json_decode_descend_def Let_def intro!: parsed_Done)
qed

lemma json_process_value_simple:
  assumes "dec_ok data h st" "tok_type token \<noteq> T_OBJ_BEGIN" "tok_type token \<noteq> T_ARR_BEGIN"
  shows "parsed data h (jp_depth st) (jp_ptr st) (json_process_value (Suc f) dp data cfg token st)"
  using assms by (cases "tok_type token") (auto intro!: parsed_Done parsed_error)

text \<open>The fuel each function needs at a position: three units a byte and a few more.\<close>

definition fuel_left :: "byte list \<Rightarrow> 'h json_parse \<Rightarrow> nat" where
  "fuel_left data st = 3 * (length data - jp_ptr st)"

lemma fuel_left_less: "jp_ptr st < jp_ptr st' \<Longrightarrow> dec_ok data h st' \<Longrightarrow> fuel_left data st' + 3 \<le> fuel_left data st"
  by (auto simp: fuel_left_def dec_ok_def)

lemma fuel_left_le: "jp_ptr st \<le> jp_ptr st' \<Longrightarrow> fuel_left data st' \<le> fuel_left data st"
  by (auto simp: fuel_left_def)

definition ends :: "json_token \<Rightarrow> bool" where
  "ends token \<longleftrightarrow> tok_type token = T_END \<or> tok_type token = T_ERROR"

lemma json_decode_ascend_parsed:
  "dec_ok data h st \<Longrightarrow> d = jp_depth st - 1 \<Longrightarrow> p \<le> jp_ptr st \<Longrightarrow> parsed data h d p (Done v (json_decode_ascend st))"
  by (simp add: json_decode_ascend_def parsed_Done)

lemma json_values_parsed:
  assumes "tables_ok cfg"
  shows "(\<forall>token st. dec_ok data h st \<longrightarrow> fuel_left data st + 4 \<le> f \<longrightarrow>
            parsed data h (jp_depth st) (jp_ptr st) (json_process_value f dp data cfg token st)) \<and>
    (\<forall>kvs token st. dec_ok data h st \<longrightarrow> fuel_left data st + 2 \<le> f \<longrightarrow>
            parsed data h (jp_depth st - 1) (jp_ptr st) (json_object_pairs f dp data cfg kvs token st)) \<and>
    (\<forall>kvs i token st. dec_ok data h st \<longrightarrow> fuel_left data st + 5 \<le> f \<or> ends token \<and> 2 \<le> f \<longrightarrow>
            parsed data h (jp_depth st - 1) (jp_ptr st) (json_array_items f dp data cfg kvs i token st))"
proof (induction f rule: less_induct)
  case (less f)
  note read = json_next_token_read [OF assms]
  have V: "parsed data h (jp_depth st) (jp_ptr st) (json_process_value g dp data cfg token st)"
    if "g < f" "dec_ok data h st" "fuel_left data st + 4 \<le> g" for g token st
    using less.IH [OF that(1)] that(2,3) by blast
  have P: "parsed data h (jp_depth st - 1) (jp_ptr st) (json_object_pairs g dp data cfg kvs token st)"
    if "g < f" "dec_ok data h st" "fuel_left data st + 2 \<le> g" for g kvs token st
    using less.IH [OF that(1)] that(2,3) by blast
  have A: "parsed data h (jp_depth st - 1) (jp_ptr st) (json_array_items g dp data cfg kvs i token st)"
    if "g < f" "dec_ok data h st" "fuel_left data st + 5 \<le> g \<or> ends token \<and> 2 \<le> g" for g kvs i token st
    using less.IH [OF that(1)] that(2,3) by blast
  show ?case
  proof (intro conjI allI impI)
    fix token :: json_token and st :: "'a slab_scheme json_parse"
    assume ok: "dec_ok data h st" and fuel: "fuel_left data st + 4 \<le> f"
    have f: "f = Suc (Suc (f - 2))" using fuel by arith
    let ?g = "f - 2" and ?d = "jp_depth st" and ?p = "jp_ptr st"
    have obj: "parsed data h ?d ?p (json_parse_object_context (Suc ?g) dp data cfg token st)"
      unfolding json_parse_object_context.simps
    proof (rule parsed_bind [OF json_decode_descend_parsed [OF ok]], rule parsed_token [OF read], assumption)
      fix v and token2 :: json_token and st1 st2 :: "'a slab_scheme json_parse"
      assume "jp_depth st1 = ?d + 1" "?p \<le> jp_ptr st1" and 2: "dec_ok data h st2" "jp_depth st2 = jp_depth st1" "jp_ptr st1 \<le> jp_ptr st2"
      then have d: "jp_depth st2 - 1 = ?d" "?p \<le> jp_ptr st2" by auto
      have "fuel_left data st2 + 2 \<le> ?g" using fuel fuel_left_le [OF d(2), of data] by arith
      then have "parsed data h ?d (jp_ptr st2) (json_object_pairs ?g dp data cfg [] token2 st2)"
        using P [of ?g st2 "[]" token2] 2(1) d(1) f by auto
      then show "parsed data h ?d ?p (if tok_type token2 = T_OBJ_END then Done (LTable []) (json_decode_ascend st2)
          else json_object_pairs ?g dp data cfg [] token2 st2)"
        using json_decode_ascend_parsed [OF 2(1)] d by (auto intro: parsed_mono)
    qed
    have arr: "parsed data h ?d ?p (json_parse_array_context (Suc ?g) dp data cfg token st)"
      unfolding json_parse_array_context.simps
    proof (rule parsed_bind [OF json_decode_descend_parsed [OF ok]], rule parsed_token [OF read], assumption)
      fix v and token2 :: json_token and st1 st2 :: "'a slab_scheme json_parse"
      assume 1: "jp_depth st1 = ?d + 1" "?p \<le> jp_ptr st1" and 2: "dec_ok data h st2" "jp_depth st2 = jp_depth st1" "jp_ptr st1 \<le> jp_ptr st2"
        and moved: "tok_type token2 \<noteq> T_END \<and> tok_type token2 \<noteq> T_ERROR \<Longrightarrow> jp_ptr st1 < jp_ptr st2"
      then have d: "jp_depth st2 - 1 = ?d" "?p \<le> jp_ptr st2" by auto
      have "fuel_left data st2 + 5 \<le> ?g \<or> ends token2 \<and> 2 \<le> ?g"
      proof (cases "ends token2")
        case True
        then show ?thesis using fuel by arith
      next
        case False
        then have "?p < jp_ptr st2" using moved 1(2) by (simp add: ends_def)
        from fuel_left_less [OF this 2(1)] show ?thesis using fuel by arith
      qed
      then have "parsed data h ?d (jp_ptr st2) (json_array_items ?g dp data cfg [] 1 token2 st2)"
        using A [of ?g st2 token2 "[]" 1] 2(1) d(1) f by auto
      then show "parsed data h ?d ?p (if tok_type token2 = T_ARR_END then Done (LTable []) (json_decode_ascend st2)
          else json_array_items ?g dp data cfg [] 1 token2 st2)"
        using json_decode_ascend_parsed [OF 2(1)] d by (auto intro: parsed_mono)
    qed
    have step: "json_process_value f dp data cfg token st =
        (if tok_type token = T_OBJ_BEGIN then json_parse_object_context (Suc ?g) dp data cfg token st
         else if tok_type token = T_ARR_BEGIN then json_parse_array_context (Suc ?g) dp data cfg token st
         else json_process_value (Suc (Suc ?g)) dp data cfg token st)"
      by (subst f, subst (2) f, cases "tok_type token") simp_all
    show "parsed data h ?d ?p (json_process_value f dp data cfg token st)"
      unfolding step using obj arr json_process_value_simple [OF ok, of token "Suc ?g"] by simp
  next
    fix kvs and token :: json_token and st :: "'a slab_scheme json_parse"
    assume ok: "dec_ok data h st" and fuel: "fuel_left data st + 2 \<le> f"
    obtain g where f: "f = Suc g" using fuel by (cases f) auto
    let ?d = "jp_depth st - 1" and ?p = "jp_ptr st"
    have body: "parsed data h ?d ?p
        (bind_j (json_next_token dp data cfg token st) (\<lambda>token1 st1.
          if tok_type token1 \<noteq> T_COLON then json_throw_parse_error ''colon'' token1 st1
          else
            bind_j (json_next_token dp data cfg token1 st1) (\<lambda>token2 st2.
            bind_j (json_process_value g dp data cfg token2 st2) (\<lambda>v st3.
            bind_r (lua_rawset kvs (LString (tok_string token)) v) (\<lambda>kvs'.
            bind_j (json_next_token dp data cfg token2 st3) (\<lambda>token4 st4.
              if tok_type token4 = T_OBJ_END then Done (LTable kvs') (json_decode_ascend st4)
              else if tok_type token4 \<noteq> T_COMMA then json_throw_parse_error ''comma or object end'' token4 st4
              else
                bind_j (json_next_token dp data cfg token4 st4) (\<lambda>token5 st5.
                  json_object_pairs g dp data cfg kvs' token5 st5)))))))"
    proof (rule parsed_token [OF read [OF ok]])
      fix token1 :: json_token and st1 :: "'a slab_scheme json_parse"
      assume 1: "dec_ok data h st1" "jp_depth st1 = jp_depth st"
        and m1: "tok_type token1 \<noteq> T_END \<and> tok_type token1 \<noteq> T_ERROR \<Longrightarrow> ?p < jp_ptr st1"
      show "parsed data h ?d ?p (if tok_type token1 \<noteq> T_COLON then json_throw_parse_error ''colon'' token1 st1
          else
            bind_j (json_next_token dp data cfg token1 st1) (\<lambda>token2 st2.
            bind_j (json_process_value g dp data cfg token2 st2) (\<lambda>v st3.
            bind_r (lua_rawset kvs (LString (tok_string token)) v) (\<lambda>kvs'.
            bind_j (json_next_token dp data cfg token2 st3) (\<lambda>token4 st4.
              if tok_type token4 = T_OBJ_END then Done (LTable kvs') (json_decode_ascend st4)
              else if tok_type token4 \<noteq> T_COMMA then json_throw_parse_error ''comma or object end'' token4 st4
              else
                bind_j (json_next_token dp data cfg token4 st4) (\<lambda>token5 st5.
                  json_object_pairs g dp data cfg kvs' token5 st5))))))"
      proof (cases "tok_type token1 = T_COLON")
        case False
        then show ?thesis using parsed_error [OF 1(1)] by simp
      next
        case True
        then have lt: "?p < jp_ptr st1" using m1 by simp
        note left1 = fuel_left_less [OF lt 1(1)]
        have "parsed data h ?d ?p (bind_j (json_next_token dp data cfg token1 st1) (\<lambda>token2 st2.
            bind_j (json_process_value g dp data cfg token2 st2) (\<lambda>v st3.
            bind_j (json_next_token dp data cfg token2 st3) (\<lambda>token4 st4.
              if tok_type token4 = T_OBJ_END then Done (LTable (tset kvs (LString (tok_string token)) v)) (json_decode_ascend st4)
              else if tok_type token4 \<noteq> T_COMMA then json_throw_parse_error ''comma or object end'' token4 st4
              else
                bind_j (json_next_token dp data cfg token4 st4) (\<lambda>token5 st5.
                  json_object_pairs g dp data cfg (tset kvs (LString (tok_string token)) v) token5 st5)))))"
        proof (rule parsed_token [OF read [OF 1(1)]])
          fix token2 :: json_token and st2 :: "'a slab_scheme json_parse"
          assume 2: "dec_ok data h st2" "jp_depth st2 = jp_depth st1" "jp_ptr st1 \<le> jp_ptr st2"
          have left2: "fuel_left data st2 + 4 \<le> g" using fuel f left1 fuel_left_le [OF 2(3), of data] by arith
          show "parsed data h ?d ?p (bind_j (json_process_value g dp data cfg token2 st2) (\<lambda>v st3.
            bind_j (json_next_token dp data cfg token2 st3) (\<lambda>token4 st4.
              if tok_type token4 = T_OBJ_END then Done (LTable (tset kvs (LString (tok_string token)) v)) (json_decode_ascend st4)
              else if tok_type token4 \<noteq> T_COMMA then json_throw_parse_error ''comma or object end'' token4 st4
              else
                bind_j (json_next_token dp data cfg token4 st4) (\<lambda>token5 st5.
                  json_object_pairs g dp data cfg (tset kvs (LString (tok_string token)) v) token5 st5))))"
          proof (rule parsed_bind [OF V [OF _ 2(1) left2]], use f in simp, rule parsed_token [OF read], assumption)
            fix v and token4 :: json_token and st3 st4 :: "'a slab_scheme json_parse"
            assume 3: "jp_depth st3 = jp_depth st2" "jp_ptr st2 \<le> jp_ptr st3"
              and 4: "dec_ok data h st4" "jp_depth st4 = jp_depth st3" "jp_ptr st3 \<le> jp_ptr st4"
            let ?kvs = "tset kvs (LString (tok_string token)) v"
            have p4: "?p < jp_ptr st4" "jp_depth st4 = jp_depth st" using lt 1(2) 2(2,3) 3 4(2,3) by auto
            have "parsed data h ?d ?p (bind_j (json_next_token dp data cfg token4 st4) (\<lambda>token5 st5.
                  json_object_pairs g dp data cfg ?kvs token5 st5))"
            proof (rule parsed_token [OF read [OF 4(1)]])
              fix token5 :: json_token and st5 :: "'a slab_scheme json_parse"
              assume 5: "dec_ok data h st5" "jp_depth st5 = jp_depth st4" "jp_ptr st4 \<le> jp_ptr st5"
              have lt5: "?p < jp_ptr st5" using p4 5(3) by simp
              have "fuel_left data st5 + 2 \<le> g" using fuel_left_less [OF lt5 5(1)] fuel f by arith
              then have "parsed data h ?d (jp_ptr st5) (json_object_pairs g dp data cfg ?kvs token5 st5)"
                using P [of g st5 ?kvs token5] 5(1,2) p4(2) f by auto
              then show "parsed data h ?d ?p (json_object_pairs g dp data cfg ?kvs token5 st5)"
                using lt5 by (auto intro: parsed_mono)
            qed
            then show "parsed data h ?d ?p
              (if tok_type token4 = T_OBJ_END then Done (LTable ?kvs) (json_decode_ascend st4)
               else if tok_type token4 \<noteq> T_COMMA then json_throw_parse_error ''comma or object end'' token4 st4
               else bind_j (json_next_token dp data cfg token4 st4) (\<lambda>token5 st5.
                  json_object_pairs g dp data cfg ?kvs token5 st5))"
              using p4 by (auto intro: json_decode_ascend_parsed [OF 4(1)] parsed_error [OF 4(1)])
          qed
        qed
        with True show ?thesis by (simp add: lua_rawset_def)
      qed
    qed
    then show "parsed data h ?d ?p (json_object_pairs f dp data cfg kvs token st)"
      by (simp add: f Let_def parsed_error [OF ok] del: bind_j_simps)
  next
    fix kvs i and token :: json_token and st :: "'a slab_scheme json_parse"
    assume ok: "dec_ok data h st" and fuel: "fuel_left data st + 5 \<le> f \<or> ends token \<and> 2 \<le> f"
    obtain g where f: "f = Suc g" using fuel by (cases f) auto
    let ?d = "jp_depth st - 1" and ?p = "jp_ptr st"
    show "parsed data h ?d ?p (json_array_items f dp data cfg kvs i token st)"
    proof (cases "ends token")
      case True
      have "json_process_value g dp data cfg token st = json_throw_parse_error ''value'' token st"
      proof -
        obtain k where "g = Suc k" using fuel True f by (cases g) auto
        then show ?thesis using True by (auto simp: ends_def)
      qed
      then show ?thesis by (simp add: f parsed_error_bind [OF ok] del: bind_j_simps)
    next
      case False
      then have left: "fuel_left data st + 5 \<le> f" using fuel by simp
      have body: "parsed data h ?d ?p (bind_j (json_process_value g dp data cfg token st) (\<lambda>v st1.
         bind_j (json_next_token dp data cfg token st1) (\<lambda>token2 st2.
         if tok_type token2 = T_ARR_END then Done (LTable (lua_rawseti kvs i v)) (json_decode_ascend st2)
         else if tok_type token2 \<noteq> T_COMMA then json_throw_parse_error ''comma or array end'' token2 st2
         else bind_j (json_next_token dp data cfg token2 st2) (\<lambda>token3 st3.
             json_array_items g dp data cfg (lua_rawseti kvs i v) (Suc i) token3 st3))))"
      proof (rule parsed_bind [OF V [OF _ ok]], use f in simp, use left f in simp, rule parsed_token [OF read], assumption)
        fix v and token2 :: json_token and st1 st2 :: "'a slab_scheme json_parse"
        assume 1: "jp_depth st1 = jp_depth st" "?p \<le> jp_ptr st1"
          and 2: "dec_ok data h st2" "jp_depth st2 = jp_depth st1" "jp_ptr st1 \<le> jp_ptr st2"
          and m2: "tok_type token2 \<noteq> T_END \<and> tok_type token2 \<noteq> T_ERROR \<Longrightarrow> jp_ptr st1 < jp_ptr st2"
        have rest: "parsed data h ?d ?p (bind_j (json_next_token dp data cfg token2 st2) (\<lambda>token3 st3.
             json_array_items g dp data cfg (lua_rawseti kvs i v) (Suc i) token3 st3))" if "tok_type token2 = T_COMMA"
        proof (rule parsed_token [OF read [OF 2(1)]])
          fix token3 :: json_token and st3 :: "'a slab_scheme json_parse"
          assume 3: "dec_ok data h st3" "jp_depth st3 = jp_depth st2" "jp_ptr st2 \<le> jp_ptr st3"
          have lt: "?p < jp_ptr st3" using m2 that 1(2) 3(3) by simp
          have "fuel_left data st3 + 5 \<le> g" using fuel_left_less [OF lt 3(1)] left f by arith
          then have "parsed data h ?d (jp_ptr st3) (json_array_items g dp data cfg (lua_rawseti kvs i v) (Suc i) token3 st3)"
            using A [of g st3 token3 "lua_rawseti kvs i v" "Suc i"] 3(1,2) 1(1) 2(2) f by auto
          then show "parsed data h ?d ?p (json_array_items g dp data cfg (lua_rawseti kvs i v) (Suc i) token3 st3)"
            using lt by (auto intro: parsed_mono)
        qed
        show "parsed data h ?d ?p
          (if tok_type token2 = T_ARR_END then Done (LTable (lua_rawseti kvs i v)) (json_decode_ascend st2)
           else if tok_type token2 \<noteq> T_COMMA then json_throw_parse_error ''comma or array end'' token2 st2
           else bind_j (json_next_token dp data cfg token2 st2) (\<lambda>token3 st3.
             json_array_items g dp data cfg (lua_rawseti kvs i v) (Suc i) token3 st3))"
          using rest 1 2(2,3) by (auto intro: json_decode_ascend_parsed [OF 2(1)] parsed_error [OF 2(1)])
      qed
      then show ?thesis by (simp add: f Let_def del: bind_j_simps)
    qed
  qed
qed

section \<open>\<open>json.decode\<close>\<close>

text \<open>The state the parser starts in.\<close>

lemma strbuf_new_ok:
  assumes "slab_ok h" "length data < 1024 * 1024"
  obtains s h' where "memslice_wrap_strbuf_new (int (length data)) h = Inr (s, h')"
    "dec_ok data h \<lparr>jp_ptr = 0, jp_tmp = s, jp_depth = 0, jp_heap = h'\<rparr>"
proof -
  have "strbuf_size (int (length data)) \<le> 1024 * 1024" "length data < strbuf_size (int (length data))"
    using assms(2) by (simp_all add: strbuf_size_def STRBUF_DEFAULT_SIZE_def)
  then show thesis
    using assms(1) by (elim strbuf_init_ok [of h "int (length data)"])
      (auto intro: that simp: memslice_wrap_strbuf_new_def dec_ok_def)
qed

lemma decode_run_safe:
  assumes "tables_ok cfg" "dec_ok data h st" "jp_ptr st = 0"
  shows "case decode_run dp data cfg st of
      Done r st' \<Rightarrow> length r = 1 \<and> same_use h (jp_heap st') | Raise msg st' \<Rightarrow> same_use h (jp_heap st') | Fault e \<Rightarrow> False"
proof -
  note read = json_next_token_read [OF assms(1)]
  obtain token1 st1 where 1: "json_next_token dp data cfg \<lparr>tok_type = T_UNKNOWN, tok_index = 0, tok_string = [],
      tok_number = 0, tok_boolean = False\<rparr> st = Done token1 st1" "dec_ok data h st1"
    using read [OF assms(2)] by (force simp: token_read_def)
  have "fuel_left data st1 + 4 \<le> 3 * length data + 4" by (simp add: fuel_left_def)
  then have v: "parsed data h (jp_depth st1) (jp_ptr st1) (json_process_value (3 * length data + 4) dp data cfg token1 st1)"
    using json_values_parsed [OF assms(1), of data h "3 * length data + 4" dp] 1(2) by blast
  show ?thesis
  proof (cases "json_process_value (3 * length data + 4) dp data cfg token1 st1")
    case (Done v st2)
    then have 2: "dec_ok data h st2" using v by (simp add: parsed_def)
    obtain token3 st3 where 3: "json_next_token dp data cfg token1 st2 = Done token3 st3" "dec_ok data h st3"
      using read [OF 2] by (force simp: token_read_def)
    obtain h'' where f: "memslice_wrap_strbuf_free (jp_tmp st3) (jp_heap st3) = Inr h''" "same_use h h''"
      using strbuf_free_ok [of "jp_tmp st3" "jp_heap st3" h] 3(2) by (auto simp: dec_ok_def)
    show ?thesis
      using 1(1) Done 3(1) f by (simp add: decode_run_def Let_def json_throw_parse_error_def json_throw_def)
  qed (use 1(1) v in \<open>simp_all add: decode_run_def Let_def parsed_def\<close>)
qed

lemma json_decode_text_safe:
  assumes "slab_ok h" "tables_ok cfg" "length data < 1024 * 1024"
  shows "case json_decode_text dp data (cfg, h) of
      Done vs (cfg', h') \<Rightarrow> length vs = 1 \<and> cfg' = cfg \<and> same_use h h'
    | Raise msg (cfg', h') \<Rightarrow> cfg' = cfg \<and> same_use h h'
    | Fault e \<Rightarrow> False"
proof -
  obtain s h' where s: "memslice_wrap_strbuf_new (int (length data)) h = Inr (s, h')"
    "dec_ok data h \<lparr>jp_ptr = 0, jp_tmp = s, jp_depth = 0, jp_heap = h'\<rparr>"
    by (rule strbuf_new_ok [OF assms(1,3)])
  have "same_use h h" using assms(1) by (simp add: same_use_def)
  with s(1) decode_run_safe [OF assms(2) s(2), of dp] show ?thesis
    by (auto simp: json_decode_text_def split: jres.splits)
qed

end
