(* ===== verification/Json_Tokens.thy ===== *)
theory Json_Tokens
  imports Json_Syntax Json_Decode_Safe
begin

text \<open>
  What the decoder's token functions make of the tokens of the reference syntax: white space,
  literals, numbers in any locale, and strings with their escapes.
\<close>

unbundle bit_operations_syntax

section \<open>Hexadecimal digits\<close>

lemma byte_in_list: "unat b \<in> set ns \<Longrightarrow> (\<And>n. n \<in> set ns \<Longrightarrow> P (word_of_nat n)) \<Longrightarrow> P (b :: byte)"
proof -
  assume "unat b \<in> set ns" "\<And>n. n \<in> set ns \<Longrightarrow> P (word_of_nat n)"
  then have "P (word_of_nat (unat b))" by blast
  then show "P b" by simp
qed

lemma hexdigit2int_val: "hex_val c = Some v \<Longrightarrow> hexdigit2int c = int v"
proof -
  assume v: "hex_val c = Some v"
  then have "unat c \<in> {48..<58} \<union> {65..<71} \<union> {97..<103}"
    by (auto simp: hex_val_def is_digit_def to_lower_def unat_plus_if' split: if_splits)
  then have m: "unat c \<in> set ([48..<58] @ [65..<71] @ [97..<103])"
    by (simp only: set_append set_upt Un_assoc)
  have all: "list_all (\<lambda>n. hexdigit2int (word_of_nat n) = int (the (hex_val (word_of_nat n)))) ([48..<58] @ [65..<71] @ [97..<103])"
    by code_simp
  have "hexdigit2int c = int (the (hex_val c))"
    by (rule byte_in_list [OF m, where P = "\<lambda>c. hexdigit2int c = int (the (hex_val c))"]) (use all in \<open>simp only: list_all_iff\<close>)
  with v show ?thesis by simp
qed

lemma peek_append: "peek (pre @ c # rest) (length pre) = Inr c"
  by (simp add: peek_def)

lemma hex_unitE:
  assumes "hex_unit u ds"
  obtains a b c d where "ds = [a, b, c, d]" "is_hex a" "is_hex b" "is_hex c" "is_hex d"
    "u = ((the (hex_val a) * 16 + the (hex_val b)) * 16 + the (hex_val c)) * 16 + the (hex_val d)"
proof -
  have "\<exists>a b c d. ds = [a, b, c, d]"
    using assms unfolding hex_unit_def numeral_eq_Suc by (auto simp: length_Suc_conv numeral_3_eq_3)
  then show thesis using assms that by (auto simp: hex_unit_def hexs_val_def)
qed

lemma decode_hex4_unit:
  assumes "hex_unit u ds" "data = pre @ ds @ rest" "p = length pre"
  shows "decode_hex4 data p = Inr (int u)"
proof -
  obtain a b c d where ds: "ds = [a, b, c, d]" "is_hex a" "is_hex b" "is_hex c" "is_hex d"
      and u: "u = ((the (hex_val a) * 16 + the (hex_val b)) * 16 + the (hex_val c)) * 16 + the (hex_val d)"
    by (rule hex_unitE [OF assms(1)])
  then have val: "hexdigit2int x = int (the (hex_val x))" if "x \<in> {a, b, c, d}" for x
    using that hexdigit2int_val by (auto simp: is_hex_def)
  have pk: "peek data p = Inr a" "peek data (Suc p) = Inr b" "peek data (Suc (Suc p)) = Inr c" "peek data (Suc (Suc (Suc p))) = Inr d"
    by (simp_all add: assms(2,3) ds(1) peek_def nth_append)
  have 4: "4 = Suc (Suc (Suc (Suc 0)))" by simp
  have "hex_digits_at data p 4 = Inr (Some [int (the (hex_val a)), int (the (hex_val b)), int (the (hex_val c)), int (the (hex_val d))])"
    unfolding 4 by (simp add: pk val)
  then show ?thesis by (simp add: decode_hex4_def push_bit_eq_mult u)
qed

section \<open>Bits of code units and code points\<close>

lemma and_field: "k AND push_bit n (mask m) = push_bit n (take_bit m (drop_bit n k))" for k :: int
  by (rule bit_eqI) (auto simp: bit_simps)

lemma and_code_unit:
  fixes k :: int
  assumes "0 \<le> k" "k < 65536"
  shows "k AND 0xF800 = k div 2048 * 2048" "k AND 0xFC00 = k div 1024 * 1024"
    "k AND 0x3FF = k mod 1024" "k AND 0x400 = 0 \<longleftrightarrow> even (k div 1024)"
proof -
  have "0 \<le> k div 2048" "0 \<le> k div 1024" using assms(1) by (simp_all add: pos_imp_zdiv_nonneg_iff)
  moreover have "k div 2048 < 32" "k div 1024 < 64" using assms(2) by linarith+
  ultimately have t: "take_bit 5 (k div 2048) = k div 2048" "take_bit 6 (k div 1024) = k div 1024"
    by (simp_all add: take_bit_int_eq_self_iff)
  have d: "drop_bit 11 k = k div 2048" "drop_bit 10 k = k div 1024" by (simp_all add: drop_bit_eq_div)
  have m: "(0xF800 :: int) = push_bit 11 (mask 5)" "(0xFC00 :: int) = push_bit 10 (mask 6)" "(0x3FF :: int) = mask 10"
    "(0x400 :: int) = 2 ^ 10" by (simp_all add: push_bit_eq_mult mask_eq_exp_minus_1)
  show "k AND 0xF800 = k div 2048 * 2048" unfolding m(1) and_field d t by (simp add: push_bit_eq_mult)
  show "k AND 0xFC00 = k div 1024 * 1024" unfolding m(2) and_field d t by (simp add: push_bit_eq_mult)
  show "k AND 0x3FF = k mod 1024" unfolding m(3) take_bit_eq_mask [symmetric] by (simp add: take_bit_eq_mod)
  show "k AND 0x400 = 0 \<longleftrightarrow> even (k div 1024)" unfolding m(4) and_exp_eq_0_iff_not_bit bit_iff_odd by simp
qed

lemma or_push_bit:
  fixes x m :: int
  assumes "0 \<le> x" "x < 2 ^ n"
  shows "x OR push_bit n m = x + m * 2 ^ n"
proof -
  have "take_bit n x = x" using assms by (simp add: take_bit_int_eq_self_iff)
  then have "x AND push_bit n m = 0" by (metis (no_types) and_zero_eq bit_and_iff bit_eqI bit_push_bit_iff bit_take_bit_iff bit_0_eq not_less)
  then show ?thesis using plus_and_or [of x "push_bit n m"] by (simp add: push_bit_eq_mult)
qed

lemma codepoint_to_utf8_spec:
  assumes "c < 0x110000"
  shows "codepoint_to_utf8 (int c) = utf8 c"
proof -
  have low: "int k AND 0x3F = int (k mod 64)" for k
    using take_bit_eq_mask [of 6 "int k"] by (simp add: mask_eq_exp_minus_1 take_bit_eq_mod zmod_int)
  have shift: "drop_bit 6 (int c) = int (c div 64)" "drop_bit 12 (int c) = int (c div 4096)" "drop_bit 18 (int c) = int (c div 262144)"
    by (simp_all add: drop_bit_eq_div zdiv_int)
  have tail: "int (k mod 64) OR 0x80 = int (0x80 + k mod 64)" for k
    using or_push_bit [of "int (k mod 64)" 7 1] by (simp add: push_bit_eq_mult) 
  have head: "k < 32 \<Longrightarrow> int k OR 0xC0 = int (0xC0 + k)" "k < 16 \<Longrightarrow> int k OR 0xE0 = int (0xE0 + k)"
    "k < 8 \<Longrightarrow> int k OR 0xF0 = int (0xF0 + k)" for k
    using or_push_bit [of "int k" 5 6] or_push_bit [of "int k" 4 14] or_push_bit [of "int k" 3 30]
    by (simp_all add: push_bit_eq_mult)
  have w: "word_of_int (int n) = word_of_nat n" for n by simp
  consider "c < 0x80" | "0x80 \<le> c" "c < 0x800" | "0x800 \<le> c" "c < 0x10000" | "0x10000 \<le> c" by linarith
  then show ?thesis
  proof cases
    case 1
    then show ?thesis by (simp add: codepoint_to_utf8_def utf8_def)
  next
    case 2
    then have "c div 64 < 32" by simp
    with 2 show ?thesis by (simp only: codepoint_to_utf8_def utf8_def low shift tail head w) simp
  next
    case 3
    then have "c div 4096 < 16" by simp
    with 3 show ?thesis by (simp only: codepoint_to_utf8_def utf8_def low shift tail head w) simp
  next
    case 4
    then have "c div 262144 < 8" using assms by simp
    with 4 show ?thesis using assms by (simp only: codepoint_to_utf8_def utf8_def low shift tail head w) simp
  qed
qed

lemma utf8_nonempty [simp]: "utf8 c \<noteq> []"
  by (simp add: utf8_def)

lemma unicode_escape_unit:
  assumes "hex_unit u ds" "\<not> (0xD800 \<le> u \<and> u < 0xE000)" "u < 65536" "data = pre @ 0x5c # 0x75 # ds @ rest" "p = length pre"
  shows "unicode_escape_at data p = Inr (Some (int u, 6))"
proof -
  have "decode_hex4 data (p + 2) = Inr (int u)"
    by (rule decode_hex4_unit [OF assms(1), of data "pre @ [0x5c, 0x75]" rest]) (use assms in simp_all)
  moreover have "int u AND 0xF800 \<noteq> 0xD800"
  proof
    assume "int u AND 0xF800 = 0xD800"
    then have "int u div 2048 = 27" using and_code_unit(1) [of "int u"] assms(3) by simp
    with assms(2) show False by linarith
  qed
  ultimately show ?thesis by (simp add: unicode_escape_at_def)
qed

lemma hex_unit_less: "hex_unit u ds \<Longrightarrow> u < 65536"
proof -
  assume u: "hex_unit u ds"
  have lt: "is_hex x \<Longrightarrow> the (hex_val x) < 16" for x by (auto simp: is_hex_def hex_val_def is_digit_def split: if_splits)
  obtain a b c d where h: "is_hex a" "is_hex b" "is_hex c" "is_hex d"
      and "u = ((the (hex_val a) * 16 + the (hex_val b)) * 16 + the (hex_val c)) * 16 + the (hex_val d)"
    by (rule hex_unitE [OF u])
  with lt [OF h(1)] lt [OF h(2)] lt [OF h(3)] lt [OF h(4)] show ?thesis by (simp add: add_mult_distrib)
qed

lemma unicode_escape_pair:
  assumes "hex_unit hi ds" "0xD800 \<le> hi" "hi < 0xDC00" "hex_unit lo ds'" "0xDC00 \<le> lo" "lo < 0xE000"
    and "data = pre @ 0x5c # 0x75 # ds @ 0x5c # 0x75 # ds' @ rest" "p = length pre"
  shows "unicode_escape_at data p = Inr (Some (int (0x10000 + (hi - 0xD800) * 0x400 + (lo - 0xDC00)), 12))"
proof -
  have len: "length ds = 4" using assms(1) by (simp add: hex_unit_def)
  have hi: "decode_hex4 data (p + 2) = Inr (int hi)"
    by (rule decode_hex4_unit [OF assms(1), of data "pre @ [0x5c, 0x75]" "0x5c # 0x75 # ds' @ rest"]) (use assms in simp_all)
  have lo: "decode_hex4 data (p + 2 + 6) = Inr (int lo)"
    by (rule decode_hex4_unit [OF assms(4), of data "pre @ 0x5c # 0x75 # ds @ [0x5c, 0x75]" rest]) (use assms len in simp_all)
  have pk: "peek data (p + 6) = Inr 0x5c" "peek data (p + 6 + 1) = Inr 0x75"
    using len by (simp_all add: assms(7,8) peek_def nth_append nth_Cons')
  have hi_d: "int hi div 2048 = 27" "int hi div 1024 = 54" using assms(2,3) by linarith+
  have lo_d: "int lo div 1024 = 55" using assms(5,6) by linarith
  have m: "int hi mod 1024 = int (hi - 0xD800)" "int lo mod 1024 = int (lo - 0xDC00)"
    using div_mult_mod_eq [of "int hi" 1024] div_mult_mod_eq [of "int lo" 1024] hi_d lo_d assms(2,5) by linarith+
  have h: "int hi AND 0xF800 = 0xD800" "int hi AND 0x400 = 0" "int hi AND 0x3FF = int (hi - 0xD800)"
    using and_code_unit [of "int hi"] assms(3) hi_d m by simp_all
  have l: "int lo AND 0xFC00 = 0xDC00" "int lo AND 0x3FF = int (lo - 0xDC00)"
    using and_code_unit [of "int lo"] assms(6) lo_d m by simp_all
  have or: "push_bit 10 (int (hi - 0xD800)) OR int (lo - 0xDC00) = int ((hi - 0xD800) * 0x400 + (lo - 0xDC00))"
    using or_push_bit [of "int (lo - 0xDC00)" 10 "int (hi - 0xD800)"] assms(5,6)
    by (simp add: or.commute [of "push_bit 10 _"])
  show ?thesis
    unfolding unicode_escape_at_def hi bind_res_simps h if_P [OF refl]
    using pk lo l or by (simp add: algebra_simps)
qed

section \<open>Strings\<close>

text \<open>One round of the loop of \<open>json_next_string_token\<close> takes the escaped text of one byte.\<close>

definition loop_takes :: "byte list \<Rightarrow> 'a slab_scheme \<Rightarrow> json_config \<Rightarrow> 'a slab_scheme json_parse \<Rightarrow> nat \<Rightarrow> byte list \<Rightarrow> bool" where
  "loop_takes data h cfg st n bs \<longleftrightarrow> (\<exists>st'. json_string_loop data cfg st = json_string_loop data cfg st' \<and>
     dec_ok data h st' \<and> jp_depth st' = jp_depth st \<and> jp_ptr st' = jp_ptr st + n \<and>
     sb_length (jp_tmp st') < jp_ptr st' \<and>
     sb_text (jp_tmp st', jp_heap st') = sb_text (jp_tmp st, jp_heap st) @ bs)"

lemma loop_takes_plain:
  assumes "dec_ok data h st" "sb_length (jp_tmp st) < jp_ptr st"
    and "data = pre @ c # rest" "jp_ptr st = length pre" "c \<noteq> 0" "c \<noteq> 0x22" "c \<noteq> 0x5c"
  shows "loop_takes data h cfg st 1 [c]"
proof -
  have pk: "peek data (jp_ptr st) = Inr c" by (simp add: assms(3,4) peek_append)
  obtain st1 where 1: "on_tmp (strbuf_append_char_unsafe c) st = Done () st1"
      "dec_ok data h (st1\<lparr>jp_ptr := jp_ptr st1 + 1\<rparr>)" "jp_depth st1 = jp_depth st" "jp_ptr st1 = jp_ptr st"
      "sb_length (jp_tmp st1) = sb_length (jp_tmp st) + 1"
      "sb_text (jp_tmp st1, jp_heap st1) = sb_text (jp_tmp st, jp_heap st) @ [c]"
    using on_tmp_char [OF assms(1,2)] assms(3,4) by auto
  have "json_string_loop data cfg st = json_string_loop data cfg (st1\<lparr>jp_ptr := jp_ptr st1 + 1\<rparr>)"
    using assms(5-7) 1(1) by (subst json_string_loop.simps) (simp add: pk)
  with 1 assms(2) show ?thesis
    unfolding loop_takes_def by (intro exI [of _ "st1\<lparr>jp_ptr := jp_ptr st1 + 1\<rparr>"]) simp
qed

lemma loop_takes_escape:
  assumes "dec_ok data h st" "sb_length (jp_tmp st) < jp_ptr st"
    and "data = pre @ 0x5c # x # rest" "jp_ptr st = length pre" "escape2char cfg x = c" "c \<noteq> 0" "c \<noteq> 0x75"
  shows "loop_takes data h cfg st 2 [c]"
proof -
  have pk: "peek data (jp_ptr st) = Inr 0x5c" "peek data (Suc (jp_ptr st)) = Inr x"
    by (simp_all add: assms(3,4) peek_def nth_append)
  let ?st = "st\<lparr>jp_ptr := jp_ptr st + 1\<rparr>"
  have ok: "dec_ok data h ?st" using assms(1,3,4) by (simp add: dec_ok_def)
  obtain st1 where 1: "on_tmp (strbuf_append_char_unsafe c) ?st = Done () st1"
      "dec_ok data h (st1\<lparr>jp_ptr := jp_ptr st1 + 1\<rparr>)" "jp_depth st1 = jp_depth ?st" "jp_ptr st1 = jp_ptr ?st"
      "sb_length (jp_tmp st1) = sb_length (jp_tmp ?st) + 1"
      "sb_text (jp_tmp st1, jp_heap st1) = sb_text (jp_tmp ?st, jp_heap ?st) @ [c]"
    using on_tmp_char [OF ok, of c] assms(2,3,4) by auto
  have "json_string_loop data cfg st = json_string_loop data cfg (st1\<lparr>jp_ptr := jp_ptr st1 + 1\<rparr>)"
    using assms(5-7) 1(1) by (subst json_string_loop.simps) (simp add: pk Let_def)
  with 1 assms(2) show ?thesis
    unfolding loop_takes_def by (intro exI [of _ "st1\<lparr>jp_ptr := jp_ptr st1 + 1\<rparr>"]) simp
qed

lemma loop_takes_unicode:
  assumes "dec_ok data h st" "sb_length (jp_tmp st) < jp_ptr st" "tables_ok cfg"
    and "data = pre @ 0x5c # 0x75 # rest" "jp_ptr st = length pre"
    and "unicode_escape_at data (jp_ptr st) = Inr (Some (cp, n))" "codepoint_to_utf8 cp \<noteq> []"
  shows "loop_takes data h cfg st n (codepoint_to_utf8 cp)"
proof -
  have pk: "peek data (jp_ptr st) = Inr 0x5c" "peek data (Suc (jp_ptr st)) = Inr 0x75"
    by (simp_all add: assms(4,5) peek_def nth_append)
  have u: "escape2char cfg 0x75 = 0x75" using assms(3) by (simp add: tables_ok_def default_escape2char_def)
  have n: "jp_ptr st + n \<le> length data" "length (codepoint_to_utf8 cp) < n"
    using unicode_escape_at_total [of "jp_ptr st" data] assms(4-6) by auto
  have "sb_length (jp_tmp st) + length (codepoint_to_utf8 cp) < ms_until (sb_ms (jp_tmp st))"
    using n assms(1,2) by (simp add: dec_ok_def)
  then obtain st1 where 1: "on_tmp (strbuf_append_mem_unsafe (codepoint_to_utf8 cp)) st = Done () st1" "dec_ok data h st1"
      "jp_ptr st1 = jp_ptr st" "jp_depth st1 = jp_depth st"
      "sb_length (jp_tmp st1) = sb_length (jp_tmp st) + length (codepoint_to_utf8 cp)"
      "sb_text (jp_tmp st1, jp_heap st1) = sb_text (jp_tmp st, jp_heap st) @ codepoint_to_utf8 cp"
    using on_tmp_append [OF assms(1), of "codepoint_to_utf8 cp"] by auto
  have "json_append_unicode_escape data st = Done 0 (st1\<lparr>jp_ptr := jp_ptr st1 + n\<rparr>)"
    using assms(6,7) 1(1) by (simp add: json_append_unicode_escape_def Let_def)
  then have "json_string_loop data cfg st = json_string_loop data cfg (st1\<lparr>jp_ptr := jp_ptr st1 + n\<rparr>)"
    by (subst json_string_loop.simps) (simp add: pk u Let_def)
  with 1 n assms(2) show ?thesis
    unfolding loop_takes_def by (intro exI [of _ "st1\<lparr>jp_ptr := jp_ptr st1 + n\<rparr>"]) (simp add: dec_ok_def)
qed

text \<open>The loop reads the characters \<open>m\<close> up to the closing quote, and collects the bytes \<open>s\<close>.\<close>

definition loop_reads :: "byte list \<Rightarrow> 'a slab_scheme \<Rightarrow> json_config \<Rightarrow> byte list \<Rightarrow> byte list \<Rightarrow> byte list \<Rightarrow> bool" where
  "loop_reads data h cfg rest m s \<longleftrightarrow> (\<forall>st pre. dec_ok data h st \<longrightarrow> sb_length (jp_tmp st) < jp_ptr st \<longrightarrow>
     data = pre @ m @ 0x22 # rest \<longrightarrow> jp_ptr st = length pre \<longrightarrow>
     (\<exists>st'. json_string_loop data cfg st = Done None st' \<and> dec_ok data h st' \<and> jp_depth st' = jp_depth st \<and>
        jp_ptr st' = jp_ptr st + length m \<and> sb_length (jp_tmp st') < jp_ptr st' \<and>
        sb_text (jp_tmp st', jp_heap st') = sb_text (jp_tmp st, jp_heap st) @ s))"

lemma loop_takes_then:
  assumes "loop_reads data h cfg rest m s"
    and "\<And>st pre. dec_ok data h st \<Longrightarrow> sb_length (jp_tmp st) < jp_ptr st \<Longrightarrow> data = pre @ t @ m @ 0x22 # rest \<Longrightarrow>
      jp_ptr st = length pre \<Longrightarrow> loop_takes data h cfg st (length t) bs"
  shows "loop_reads data h cfg rest (t @ m) (bs @ s)"
  unfolding loop_reads_def
proof (intro allI impI)
  fix st pre
  assume st: "dec_ok data h st" "sb_length (jp_tmp st) < jp_ptr st" "data = pre @ (t @ m) @ 0x22 # rest" "jp_ptr st = length pre"
  have "loop_takes data h cfg st (length t) bs" by (rule assms(2) [of _ pre]) (use st in simp_all)
  then obtain st1 where 1: "json_string_loop data cfg st = json_string_loop data cfg st1" "dec_ok data h st1"
      "jp_depth st1 = jp_depth st" "jp_ptr st1 = jp_ptr st + length t" "sb_length (jp_tmp st1) < jp_ptr st1"
      "sb_text (jp_tmp st1, jp_heap st1) = sb_text (jp_tmp st, jp_heap st) @ bs"
    unfolding loop_takes_def by blast
  have "data = (pre @ t) @ m @ 0x22 # rest" "jp_ptr st1 = length (pre @ t)" using st(3,4) 1(4) by simp_all
  with assms(1) 1(2,5) obtain st' where "json_string_loop data cfg st1 = Done None st'" "dec_ok data h st'"
      "jp_depth st' = jp_depth st1" "jp_ptr st' = jp_ptr st1 + length m" "sb_length (jp_tmp st') < jp_ptr st'"
      "sb_text (jp_tmp st', jp_heap st') = sb_text (jp_tmp st1, jp_heap st1) @ s"
    unfolding loop_reads_def by blast
  with 1 show "\<exists>st'. json_string_loop data cfg st = Done None st' \<and> dec_ok data h st' \<and> jp_depth st' = jp_depth st \<and>
      jp_ptr st' = jp_ptr st + length (t @ m) \<and> sb_length (jp_tmp st') < jp_ptr st' \<and>
      sb_text (jp_tmp st', jp_heap st') = sb_text (jp_tmp st, jp_heap st) @ bs @ s"
    by (intro exI [of _ st']) simp
qed

lemma json_string_loop_reads:
  assumes "tables_ok cfg" "json_chars s m"
  shows "loop_reads data h cfg rest m s"
  using assms(2)
proof (induction rule: json_chars.induct)
  case jc_end
  show ?case
    unfolding loop_reads_def
  proof (intro allI impI)
    fix st pre assume "data = pre @ [] @ 0x22 # rest" "jp_ptr st = length pre" and st: "dec_ok data h st" "sb_length (jp_tmp st) < jp_ptr st"
    then have "peek data (jp_ptr st) = Inr 0x22" by (simp add: peek_append)
    then have "json_string_loop data cfg st = Done None st" by (subst json_string_loop.simps) simp
    with st show "\<exists>st'. json_string_loop data cfg st = Done None st' \<and> dec_ok data h st' \<and> jp_depth st' = jp_depth st \<and>
        jp_ptr st' = jp_ptr st + length ([] :: byte list) \<and> sb_length (jp_tmp st') < jp_ptr st' \<and>
        sb_text (jp_tmp st', jp_heap st') = sb_text (jp_tmp st, jp_heap st) @ []" by simp
  qed
next
  case (jc_plain c s e)
  have "loop_reads data h cfg rest ([c] @ e) ([c] @ s)"
  proof (rule loop_takes_then [OF jc_plain.IH])
    fix st pre assume "dec_ok data h st" "sb_length (jp_tmp st) < jp_ptr st" "data = pre @ [c] @ e @ 0x22 # rest" "jp_ptr st = length pre"
    then show "loop_takes data h cfg st (length [c]) [c]"
      using loop_takes_plain [of data h st pre c "e @ 0x22 # rest" cfg] jc_plain(1) by simp
  qed
  then show ?case by simp
next
  case (jc_escape x c s e)
  have c: "escape2char cfg x = c" "c \<noteq> 0" "c \<noteq> 0x75"
    using jc_escape(1) assms(1) by (auto simp: simple_escapes_def tables_ok_def default_escape2char_def)
  have "loop_reads data h cfg rest ([0x5c, x] @ e) ([c] @ s)"
  proof (rule loop_takes_then [OF jc_escape.IH])
    fix st pre assume "dec_ok data h st" "sb_length (jp_tmp st) < jp_ptr st" "data = pre @ [0x5c, x] @ e @ 0x22 # rest" "jp_ptr st = length pre"
    then show "loop_takes data h cfg st (length [0x5c, x]) [c]"
      using loop_takes_escape [of data h st pre x "e @ 0x22 # rest" cfg c] c by (simp add: numeral_2_eq_2)
  qed
  then show ?case by simp
next
  case (jc_unit u ds s e)
  have u: "u < 65536" by (rule hex_unit_less [OF jc_unit(1)])
  then have utf8: "codepoint_to_utf8 (int u) = utf8 u" by (simp add: codepoint_to_utf8_spec)
  have len: "length (0x5c # 0x75 # ds) = 6" using jc_unit(1) by (simp add: hex_unit_def)
  have "loop_reads data h cfg rest ((0x5c # 0x75 # ds) @ e) (utf8 u @ s)"
  proof (rule loop_takes_then [OF jc_unit.IH])
    fix st pre assume st: "dec_ok data h st" "sb_length (jp_tmp st) < jp_ptr st" "data = pre @ (0x5c # 0x75 # ds) @ e @ 0x22 # rest" "jp_ptr st = length pre"
    then have data: "data = pre @ 0x5c # 0x75 # ds @ e @ 0x22 # rest" by simp
    have "loop_takes data h cfg st 6 (codepoint_to_utf8 (int u))"
      by (rule loop_takes_unicode [OF st(1,2) assms(1) data st(4) unicode_escape_unit [OF jc_unit(1,2) u data st(4)]]) (simp add: utf8)
    then show "loop_takes data h cfg st (length (0x5c # 0x75 # ds)) (utf8 u)" unfolding len utf8 .
  qed
  then show ?case by simp
next
  case (jc_pair hi ds lo ds' s e)
  let ?c = "0x10000 + (hi - 0xD800) * 0x400 + (lo - 0xDC00)" and ?t = "0x5c # 0x75 # ds @ 0x5c # 0x75 # ds'"
  have "?c < 0x110000" using jc_pair(2,3,5,6) by simp
  then have utf8: "codepoint_to_utf8 (int ?c) = utf8 ?c" by (rule codepoint_to_utf8_spec)
  have len: "length ?t = 12" using jc_pair(1,4) by (simp add: hex_unit_def)
  have "loop_reads data h cfg rest (?t @ e) (utf8 ?c @ s)"
  proof (rule loop_takes_then [OF jc_pair.IH])
    fix st pre assume st: "dec_ok data h st" "sb_length (jp_tmp st) < jp_ptr st" "data = pre @ ?t @ e @ 0x22 # rest" "jp_ptr st = length pre"
    then have data: "data = pre @ 0x5c # 0x75 # ds @ 0x5c # 0x75 # ds' @ e @ 0x22 # rest" by simp
    have "loop_takes data h cfg st 12 (codepoint_to_utf8 (int ?c))"
      by (rule loop_takes_unicode [OF st(1,2) assms(1) _ st(4) unicode_escape_pair [OF jc_pair(1-6) data st(4)], of "ds @ 0x5c # 0x75 # ds' @ e @ 0x22 # rest"])
         (use data in simp, simp only: utf8 utf8_nonempty not_False_eq_True)
    then show "loop_takes data h cfg st (length ?t) (utf8 ?c)" unfolding len utf8 .
  qed
  then show ?case by simp
qed

section \<open>Tokens at a position\<close>

text \<open>The next token satisfies \<open>P\<close> and is \<open>n\<close> bytes long.\<close>

definition token_at :: "byte \<Rightarrow> byte list \<Rightarrow> 'a slab_scheme \<Rightarrow> json_config \<Rightarrow> 'a slab_scheme json_parse \<Rightarrow> nat \<Rightarrow> (json_token \<Rightarrow> bool) \<Rightarrow> bool" where
  "token_at dp data h cfg st n P \<longleftrightarrow> (\<forall>token0. \<exists>token st'. json_next_token dp data cfg token0 st = Done token st' \<and>
     dec_ok data h st' \<and> jp_depth st' = jp_depth st \<and> jp_ptr st' = jp_ptr st + n \<and> P token)"

lemma token_atE:
  assumes "token_at dp data h cfg st n P"
  obtains token st' where "json_next_token dp data cfg token0 st = Done token st'" "dec_ok data h st'"
    "jp_depth st' = jp_depth st" "jp_ptr st' = jp_ptr st + n" "P token"
  using assms unfolding token_at_def by meson

lemma skip_space_at:
  assumes "tables_ok cfg" "data = pre @ ch # rest" "p = length pre" "default_ch2token ch \<noteq> T_WHITESPACE"
  shows "json_skip_space data cfg p = Inr (p, ch)"
  using assms by (subst json_skip_space.simps) (simp add: peek_append tables_ok_def)

lemma token_at_single:
  assumes "tables_ok cfg" "dec_ok data h st" "data = pre @ ch # rest" "jp_ptr st = length pre"
    and "default_ch2token ch = T" "T \<notin> {T_WHITESPACE, T_ERROR, T_END, T_UNKNOWN}"
  shows "token_at dp data h cfg st 1 (\<lambda>token. tok_type token = T)"
proof -
  have s: "json_skip_space data cfg (jp_ptr st) = Inr (jp_ptr st, ch)"
    using skip_space_at [OF assms(1,3,4)] assms(5,6) by auto
  have c: "ch2token cfg ch = T" using assms(1,5) by (simp add: tables_ok_def)
  have "json_next_token dp data cfg token0 st =
      Done (token0\<lparr>tok_type := T, tok_index := jp_ptr st\<rparr>) (st\<lparr>jp_ptr := jp_ptr st + 1\<rparr>)" for token0
    using assms(6) by (simp add: json_next_token_def s c Let_def)
  moreover have "dec_ok data h (st\<lparr>jp_ptr := jp_ptr st + 1\<rparr>)"
    using assms(2) by (simp add: dec_ok_def assms(3,4))
  ultimately show ?thesis unfolding token_at_def by simp
qed

lemma token_at_end:
  assumes "tables_ok cfg" "dec_ok data h st" "jp_ptr st = length data"
  shows "token_at dp data h cfg st 0 (\<lambda>token. tok_type token = T_END)"
proof -
  have c: "ch2token cfg 0 = T_END" using assms(1) by (simp add: tables_ok_def default_ch2token_def)
  then have "json_skip_space data cfg (jp_ptr st) = Inr (jp_ptr st, 0)"
    using assms(3) by (subst json_skip_space.simps) (simp add: peek_def)
  note this c
  then have "json_next_token dp data cfg token0 st = Done (token0\<lparr>tok_type := T_END, tok_index := jp_ptr st\<rparr>) st" for token0
    by (simp add: json_next_token_def Let_def)
  then show ?thesis using assms(2) unfolding token_at_def by simp
qed

lemma token_at_string:
  assumes "tables_ok cfg" "dec_ok data h st" "data = pre @ e @ rest" "jp_ptr st = length pre" "json_string s e"
  shows "token_at dp data h cfg st (length e) (\<lambda>token. tok_type token = T_STRING \<and> tok_string token = s)"
  unfolding token_at_def
proof
  fix token0 :: json_token
  let ?st = "st\<lparr>jp_ptr := jp_ptr st + 1, jp_tmp := strbuf_reset (jp_tmp st)\<rparr>"
  let ?tok = "token0\<lparr>tok_type := T_UNKNOWN, tok_index := jp_ptr st\<rparr>"
  obtain m where m: "json_chars s m" "e = 0x22 # m @ [0x22]" using assms(5) by (auto simp: json_string_def)
  have data: "data = pre @ 0x22 # m @ 0x22 # rest" using assms(3) m(2) by simp
  have s: "json_skip_space data cfg (jp_ptr st) = Inr (jp_ptr st, 0x22)"
    by (rule skip_space_at [OF assms(1) data assms(4)]) (simp add: default_ch2token_def)
  have c: "ch2token cfg 0x22 = T_UNKNOWN" using assms(1) by (simp add: tables_ok_def default_ch2token_def)
  have pk: "peek data (jp_ptr st) = Inr 0x22" by (simp add: data assms(4) peek_append)
  have tmp: "sb_ok (strbuf_reset (jp_tmp st), jp_heap st)" "sb_fresh h (strbuf_reset (jp_tmp st), jp_heap st)"
      "length data < ms_until (sb_ms (jp_tmp st))"
    using assms(2) by (auto simp: dec_ok_def sb_ok_def strbuf_reset_def sb_fresh_def)
  then have ok: "dec_ok data h ?st" "sb_length (jp_tmp ?st) < jp_ptr ?st"
    by (simp_all add: dec_ok_def strbuf_reset_def data assms(4))
  have text0: "sb_text (jp_tmp ?st, jp_heap ?st) = []" by (simp add: sb_text_def strbuf_reset_def)
  have "data = (pre @ [0x22]) @ m @ 0x22 # rest" "jp_ptr ?st = length (pre @ [0x22])"
    using data assms(4) by simp_all
  then obtain st1 where
      a: "json_string_loop data cfg ?st = Done None st1" "dec_ok data h st1" "jp_depth st1 = jp_depth ?st"
        "jp_ptr st1 = jp_ptr ?st + length (m)" "sb_length (jp_tmp st1) < jp_ptr st1"
        "sb_text (jp_tmp st1, jp_heap st1) = sb_text (jp_tmp ?st, jp_heap ?st) @ s"
    using json_string_loop_reads [OF assms(1) m(1), of data h rest] ok unfolding loop_reads_def by blast
  have 1: "json_string_loop data cfg ?st = Done None st1" "dec_ok data h st1" "jp_depth st1 = jp_depth st"
      "jp_ptr st1 = jp_ptr st + 1 + length (m)" "sb_length (jp_tmp st1) < jp_ptr st1"
      "sb_text (jp_tmp st1, jp_heap st1) = s"
    using a(1,2,5) a(3,4) a(6) unfolding text0 by simp_all
  have ok2: "dec_ok data h (st1\<lparr>jp_ptr := jp_ptr st1 + 1\<rparr>)"
    using 1(2,4) by (simp add: dec_ok_def data assms(4))
  have "sb_length (jp_tmp st1) < ms_until (sb_ms (jp_tmp st1))"
    using 1(2,5) by (simp add: dec_ok_def)
  then obtain st2 where 2: "on_tmp strbuf_ensure_null (st1\<lparr>jp_ptr := jp_ptr st1 + 1\<rparr>) = Done () st2" "dec_ok data h st2"
      "jp_ptr st2 = jp_ptr st1 + 1" "jp_depth st2 = jp_depth st1" "sb_text (jp_tmp st2, jp_heap st2) = s"
    using on_tmp_null [OF ok2] 1(6) by auto
  have "memslice_wrap_strbuf_string (jp_tmp st2) (jp_heap st2) = Inr s"
    using strbuf_string_ok [of "jp_tmp st2" "jp_heap st2"] 2(2,5) by (simp add: dec_ok_def)
  with 1 2 have "json_next_string_token data cfg ?tok st = Done (?tok\<lparr>tok_type := T_STRING, tok_string := s\<rparr>) st2"
    by (simp add: json_next_string_token_def pk)
  then have "json_next_token dp data cfg token0 st = Done (?tok\<lparr>tok_type := T_STRING, tok_string := s\<rparr>) st2"
    by (simp add: json_next_token_def s c Let_def)
  moreover have "jp_ptr st2 = jp_ptr st + length e" using 1(4) 2(3) m(2) by simp
  ultimately show "\<exists>token st'. json_next_token dp data cfg token0 st = Done token st' \<and> dec_ok data h st' \<and>
      jp_depth st' = jp_depth st \<and> jp_ptr st' = jp_ptr st + length e \<and>
      tok_type token = T_STRING \<and> tok_string token = s"
    using 1(3) 2(2,4) by simp
qed

lemma token_at_literal:
  assumes "tables_ok cfg" "dec_ok data h st" "data = pre @ ascii lit @ rest" "jp_ptr st = length pre"
    and "lit = ''true'' \<or> lit = ''false'' \<or> lit = ''null''"
  shows "token_at dp data h cfg st (length lit) (\<lambda>token.
    (lit = ''true'' \<longrightarrow> tok_type token = T_BOOLEAN \<and> tok_boolean token) \<and>
    (lit = ''false'' \<longrightarrow> tok_type token = T_BOOLEAN \<and> \<not> tok_boolean token) \<and>
    (lit = ''null'' \<longrightarrow> tok_type token = T_NULL))"
proof -
  obtain ch cs where ch: "ascii lit = ch # cs" "ch = 0x74 \<or> ch = 0x66 \<or> ch = 0x6e"
    using assms(5) by (auto simp: ascii_def)
  have data: "data = pre @ ch # cs @ rest" using assms(3) ch(1) by simp
  have s: "json_skip_space data cfg (jp_ptr st) = Inr (jp_ptr st, ch)"
    by (rule skip_space_at [OF assms(1) data assms(4)]) (use ch(2) in \<open>auto simp: default_ch2token_def is_digit_def\<close>)
  have c: "ch2token cfg ch = T_UNKNOWN" using assms(1) ch(2) by (auto simp: tables_ok_def default_ch2token_def)
  have ch': "ch \<noteq> 0x22" "\<not> (ch = 0x2d \<or> 0x30 \<le> uint ch \<and> uint ch \<le> 0x39)" using ch(2) by auto
  have t: "text_at data (jp_ptr st) l \<longleftrightarrow> take (length l) (ascii lit @ rest) = ascii l" for l
    by (simp add: text_at_def assms(3,4))
  have "jp_ptr st + length lit \<le> length data" using assms(3,4) by (simp add: ascii_def)
  then have ok: "dec_ok data h (st\<lparr>jp_ptr := jp_ptr st + length lit\<rparr>)" using assms(2) by (simp add: dec_ok_def)
  have lits: "text_at data (jp_ptr st) ''true'' \<longleftrightarrow> lit = ''true''" "text_at data (jp_ptr st) ''false'' \<longleftrightarrow> lit = ''false''"
    "text_at data (jp_ptr st) ''null'' \<longleftrightarrow> lit = ''null''"
    using assms(5) by (auto simp: t ascii_def)
  let ?tok = "\<lambda>token0. token0\<lparr>tok_type := T_UNKNOWN, tok_index := jp_ptr st\<rparr>" and ?st = "st\<lparr>jp_ptr := jp_ptr st + length lit\<rparr>"
  from assms(5) show ?thesis
  proof (elim disjE)
    assume l: "lit = ''true''"
    then have "json_next_token dp data cfg token0 st = Done ((?tok token0)\<lparr>tok_type := T_BOOLEAN, tok_boolean := True\<rparr>) ?st" for token0
      using ch'(1) l by (simp add: json_next_token_def s c Let_def lits if_not_P [OF ch'(2)])
    then show ?thesis using ok l unfolding token_at_def by simp
  next
    assume l: "lit = ''false''"
    then have "json_next_token dp data cfg token0 st = Done ((?tok token0)\<lparr>tok_type := T_BOOLEAN, tok_boolean := False\<rparr>) ?st" for token0
      using ch'(1) l by (simp add: json_next_token_def s c Let_def lits if_not_P [OF ch'(2)])
    then show ?thesis using ok l unfolding token_at_def by simp
  next
    assume l: "lit = ''null''"
    then have "json_next_token dp data cfg token0 st = Done ((?tok token0)\<lparr>tok_type := T_NULL\<rparr>) ?st" for token0
      using ch'(1) l by (simp add: json_next_token_def s c Let_def lits if_not_P [OF ch'(2)])
    then show ?thesis using ok l unfolding token_at_def by simp
  qed
qed
section \<open>White space before a token\<close>

lemma json_skip_white:
  assumes "tables_ok cfg" "white ws" "data = pre @ ws @ rest" "p = length pre"
  shows "json_skip_space data cfg p = json_skip_space data cfg (p + length ws)"
  using assms
proof (induction ws arbitrary: pre p)
  case (Cons w ws)
  have "peek data p = Inr w" using Cons.prems(3,4) by (simp add: peek_def)
  moreover have "ch2token cfg w = T_WHITESPACE" using Cons.prems(1,2) by (auto simp: tables_ok_def default_ch2token_def)
  ultimately have "json_skip_space data cfg p = json_skip_space data cfg (Suc p)"
    by (subst json_skip_space.simps) simp
  also have "\<dots> = json_skip_space data cfg (Suc p + length ws)"
    by (rule Cons.IH [OF Cons.prems(1), of "pre @ [w]"]) (use Cons.prems in simp_all)
  finally show ?case by simp
qed simp

lemma next_token_white:
  assumes "tables_ok cfg" "white ws" "data = pre @ ws @ rest" "jp_ptr st = length pre"
  shows "json_next_token dp data cfg token0 st = json_next_token dp data cfg token0 (st\<lparr>jp_ptr := jp_ptr st + length ws\<rparr>)"
  using json_skip_white [OF assms] by (simp add: json_next_token_def)

lemma token_at_white:
  assumes "tables_ok cfg" "white ws" "data = pre @ ws @ rest" "jp_ptr st = length pre"
    and "token_at dp data h cfg (st\<lparr>jp_ptr := jp_ptr st + length ws\<rparr>) n P"
  shows "token_at dp data h cfg st (length ws + n) P"
  using assms(5) next_token_white [OF assms(1-4)] by (simp add: token_at_def add.assoc)

section \<open>Numbers\<close>

text \<open>What may follow a value: the end of the text, white space, or the punctuation of a table.\<close>

definition value_ends :: "byte list \<Rightarrow> bool" where
  "value_ends rest \<longleftrightarrow> rest = [] \<or> hd rest \<in> {0x2c, 0x5d, 0x7d, 0x20, 0x09, 0x0a, 0x0d}"

lemma value_endsI [simp]: "value_ends []" "value_ends (0x2c # xs)" "value_ends (0x5d # xs)" "value_ends (0x7d # xs)"
  "w \<in> {0x20, 0x09, 0x0a, 0x0d} \<Longrightarrow> value_ends (w # xs)"
  by (auto simp: value_ends_def)

lemma value_ends_number: "value_ends rest \<Longrightarrow> number_ends rest"
  by (auto simp: value_ends_def number_ends_def)

lemma value_ends_takeWhile: "value_ends rest \<Longrightarrow> takeWhile valid_number_character rest = []"
  by (cases rest) (auto simp: value_ends_def valid_number_character_def Let_def)

lemma digits_takeWhile: "digits ds \<Longrightarrow> rest = [] \<or> \<not> is_digit (hd rest) \<Longrightarrow> takeWhile is_digit (ds @ rest) = ds"
  by (cases rest) (simp_all add: digits_def list_all_iff)

lemma value_ends_digit: "value_ends rest \<Longrightarrow> rest = [] \<or> \<not> is_digit (hd rest)"
  by (auto simp: value_ends_def is_digit_def)

lemma scan_exp_json:
  assumes "json_exponent x xs" "value_ends rest"
  shows "scan_exp 0x65 (xs @ rest) = (x, length xs)"
  using assms(1)
proof cases
  case je_none
  then show ?thesis
    using assms(2) by (cases rest) (auto simp: scan_exp_def value_ends_def to_lower_def)
next
  case (je_some c ds sign)
  have ds: "takeWhile is_digit (ds @ rest) = ds"
    by (rule digits_takeWhile [OF je_some(3) value_ends_digit [OF assms(2)]])
  obtain d ds' where d: "ds = d # ds'" "is_digit d" using je_some(3,4) by (cases ds) (auto simp: digits_def)
  then have "d \<noteq> 0x2b" "d \<noteq> 0x2d" by (auto simp: is_digit_def)
  moreover have "to_lower c = 0x65" using je_some(2) by (auto simp: to_lower_def)
  ultimately show ?thesis
    using je_some(1,4,5) ds d by (auto simp: scan_exp_def Let_def)
qed

text \<open>A decimal point that is no part of a number otherwise, as every locale has it.\<close>

lemma locale_pointE:
  assumes "locale_point dp"
  shows "\<not> is_digit dp" "dp \<notin> {0x2b, 0x2d, 0x45, 0x65, 0x58, 0x78}"
  using assms valid_digit [of dp] by (auto simp: locale_point_def valid_number_character_def is_digit_def)

lemma exponent_head: "json_exponent x xs \<Longrightarrow> xs = [] \<or> hd xs \<in> {0x45, 0x65}"
  by (auto elim: json_exponent.cases)

lemma strtod_abs_json:
  assumes "digits ip" "ip \<noteq> []" "digits fp" "json_exponent x xs" "value_ends rest"
    and "locale_point dp" "rest = [] \<or> hd rest \<noteq> dp"
  shows "strtod_abs dp neg (ip @ (if fp = [] then [] else dp # fp) @ xs @ rest) =
    (scaled_ratio neg (digits_val (ip @ fp)) 10 (x - int (length fp)), length ip + (if fp = [] then 0 else 1 + length fp) + length xs)"
proof -
  define tail where "tail = xs @ rest"
  define s where "s = ip @ (if fp = [] then [] else dp # fp) @ tail"
  note dp = locale_pointE [OF assms(6)]
  have tail: "tail = [] \<or> hd tail \<in> {0x45, 0x65} \<or> hd tail \<in> {0x2c, 0x5d, 0x7d, 0x20, 0x09, 0x0a, 0x0d} \<and> hd tail \<noteq> dp"
    using exponent_head [OF assms(4)] assms(5,7) by (cases xs) (auto simp: tail_def value_ends_def)
  then have nd: "tail = [] \<or> \<not> is_digit (hd tail)" "tail = [] \<or> hd tail \<noteq> dp" using dp by (auto simp: is_digit_def)
  have "takeWhile is_digit s = ip"
    unfolding s_def by (rule digits_takeWhile [OF assms(1)]) (use nd dp in auto)
  moreover have "takeWhile is_digit (fp @ tail) = fp" by (rule digits_takeWhile [OF assms(3) nd(1)])
  ultimately have scan: "scan_digits is_digit dp s = (ip, fp, length ip + (if fp = [] then 0 else 1 + length fp))"
    using assms(2) nd(2) by (auto simp: scan_digits_def Let_def s_def)
  have dec: "strtod_dec dp neg s =
      (scaled_ratio neg (digits_val (ip @ fp)) 10 (x - int (length fp)), length ip + (if fp = [] then 0 else 1 + length fp) + length xs)"
    using scan scan_exp_json [OF assms(4,5)] assms(2) by (simp add: strtod_dec_def s_def tail_def)
  obtain d ds where d: "ip = d # ds" "is_digit d" using assms(1,2) by (cases ip) (auto simp: digits_def)
  obtain b where b: "s = d # tl s" "tl s = [] \<or> hd (tl s) = b \<and> to_lower b \<noteq> 0x78"
  proof (cases "tl s")
    case Nil
    then show thesis using that d by (simp add: s_def)
  next
    case (Cons b r)
    have "is_digit b \<or> b = dp \<or> b \<in> {0x45, 0x65, 0x2c, 0x5d, 0x7d, 0x20, 0x09, 0x0a, 0x0d}"
    proof (cases ds)
      case Nil
      then show ?thesis using Cons tail d by (cases tail) (auto simp: s_def split: if_splits)
    next
      case (Cons d2 ds2)
      then show ?thesis using \<open>tl s = b # r\<close> assms(1) d by (auto simp: s_def digits_def)
    qed
    moreover have "to_lower b = 0x78 \<Longrightarrow> b = 0x58 \<or> b = 0x78"
      by (auto simp: to_lower_def split: if_splits)
    ultimately have "to_lower b \<noteq> 0x78" using dp by (auto simp: is_digit_def)
    then show thesis using that [of b] Cons d by (simp add: s_def)
  qed
  have "strtod_abs dp neg s = strtod_dec dp neg s"
    using b digit_range [OF d(2)] by (cases "tl s") (auto simp: strtod_abs_def Let_def)
  then show ?thesis unfolding dec by (simp add: s_def tail_def)
qed
text \<open>The text of a number with the decimal point \<open>dp\<close>.\<close>

definition number_with :: "byte \<Rightarrow> bool \<Rightarrow> byte list \<Rightarrow> byte list \<Rightarrow> byte list \<Rightarrow> byte list" where
  "number_with dp neg ip fp xs = (if neg then [0x2d] else []) @ ip @ (if fp = [] then [] else dp # fp) @ xs"

lemma c_strtod_json:
  assumes "digits ip" "ip \<noteq> []" "digits fp" "json_exponent x xs" "value_ends rest"
    and "locale_point dp" "rest = [] \<or> hd rest \<noteq> dp"
  shows "c_strtod dp (number_with dp neg ip fp xs @ rest) =
    (scaled_ratio neg (digits_val (ip @ fp)) 10 (x - int (length fp)), length (number_with dp neg ip fp xs))"
proof -
  obtain d ds where d: "ip = d # ds" "is_digit d" using assms(1,2) by (cases ip) (auto simp: digits_def)
  note r = digit_range [OF d(2)] and abs = strtod_abs_json [OF assms, of neg]
  have sp: "\<not> is_space 0x2d" by (simp add: is_space_def)
  show ?thesis
    using abs r sp d by (cases neg) (auto simp: c_strtod_def Let_def number_with_def)
qed

lemma digits_valid: "digits ds \<Longrightarrow> b \<in> set ds \<Longrightarrow> valid_number_character b \<and> b \<noteq> 0x2e"
  using valid_digit by (auto simp: digits_def list_all_iff is_digit_def)

lemma exponent_valid: "json_exponent x xs \<Longrightarrow> b \<in> set xs \<Longrightarrow> valid_number_character b \<and> b \<noteq> 0x2e"
proof -
  have "valid_number_character 0x65" "valid_number_character 0x45" "valid_number_character 0x2b" "valid_number_character 0x2d"
    by (simp_all add: valid_number_character_def)
  then show "json_exponent x xs \<Longrightarrow> b \<in> set xs \<Longrightarrow> valid_number_character b \<and> b \<noteq> 0x2e"
    by (auto elim!: json_exponent.cases dest: digits_valid)
qed

lemma replace_first_append: "a \<notin> set xs \<Longrightarrow> replace_first a b (xs @ ys) = xs @ replace_first a b ys"
  by (induction xs) auto

lemma replace_first_none: "a \<notin> set xs \<Longrightarrow> replace_first a b xs = xs"
  by (induction xs) auto

text \<open>The value does not depend on the locale.\<close>

lemma fpconv_strtod_json:
  assumes "json_number w e" "locale_point dp" "value_ends rest"
  shows "fpconv_strtod dp (e @ rest) = (w, length e)"
  using assms(1)
proof cases
  case (jn ip fp x xs neg)
  let ?e = "\<lambda>p. number_with p neg ip fp xs"
  have e: "e = ?e 0x2e" using jn(2) by (simp add: number_with_def)
  show ?thesis
  proof (cases "dp = 0x2e")
    case True
    have "rest = [] \<or> hd rest \<noteq> dp" using assms(3) True by (auto simp: value_ends_def)
    from c_strtod_json [OF jn(3,4,6,7) assms(3,2) this, of neg] True show ?thesis
      by (simp add: fpconv_strtod_def e jn(1))
  next
    case False
    have "valid_number_character 0x2d" "valid_number_character 0x2e" by (simp_all add: valid_number_character_def)
    then have valid: "valid_number_character b" if "b \<in> set e" for b
      using that digits_valid [OF jn(3)] digits_valid [OF jn(6)] exponent_valid [OF jn(7)]
      by (auto simp: e number_with_def split: if_splits)
    have "takeWhile valid_number_character (e @ rest) = e"
      using valid value_ends_takeWhile [OF assms(3)] by (subst takeWhile_append2) auto
    then have n: "strtod_buffer_size (e @ rest) = length e" by (simp add: strtod_buffer_size_def)
    have ip: "0x2e \<notin> set ((if neg then [0x2d] else []) @ ip)" using digits_valid [OF jn(3)] by auto
    have "0x2e \<notin> set xs" using exponent_valid [OF jn(7)] by auto
    then have r: "replace_first 0x2e dp e = ?e dp"
      using replace_first_append [OF ip, of dp "(if fp = [] then [] else 0x2e # fp) @ xs"]
      by (auto simp: e number_with_def replace_first_none)
    have len: "length (?e dp) = length e" by (simp add: e number_with_def)
    have "e \<noteq> []" by (rule json_number_nonempty [OF assms(1)])
    then show ?thesis
      using False n r len c_strtod_json [OF jn(3,4,6,7) value_endsI(1) assms(2), of neg]
      by (simp add: fpconv_strtod_def jn(1))
  qed
qed

lemma digit_bounds: "is_digit d \<Longrightarrow> 0x30 \<le> uint d \<and> uint d \<le> 0x39 \<and> 0x30 \<le> sint d \<and> sint d \<le> 0x39"
proof -
  assume "is_digit d"
  then have u: "48 \<le> unat d" "unat d \<le> 57" by (auto simp: is_digit_def)
  have n: "uint d = int (unat d)" by simp
  with u have "- 128 \<le> uint d" "uint d < 128" by linarith+
  then have "sint d = uint d" by (simp add: sint_uint signed_take_bit_int_eq_self_iff)
  with n u show ?thesis by linarith
qed

text \<open>A JSON number starts with a digit after its sign, and a leading zero is not followed by a digit or an x.\<close>

lemma json_is_invalid_number_json:
  assumes "json_number w e" "data = pre @ e @ rest" "p = length pre" "value_ends rest"
  shows "json_is_invalid_number data p = Inr False"
  using assms(1)
proof cases
  case (jn ip fp x xs neg)
  define sign where "sign = (if neg then [0x2d] else [] :: byte list)"
  define tail where "tail = (if fp = [] then [] else 0x2e # fp) @ xs @ rest"
  obtain d ds where d: "ip = d # ds" "is_digit d" using jn(3,4) by (cases ip) (auto simp: digits_def)
  have data: "data = pre @ sign @ d # ds @ tail" using assms(2) jn(2) d by (simp add: sign_def tail_def)
  have c0: "peek data p = Inr (if neg then 0x2d else d)" by (simp add: data assms(3) sign_def peek_def)
  have c: "peek data (if neg then p + 1 else p) = Inr d" by (simp add: data assms(3) sign_def peek_def nth_append)
  have p: "(if (if neg then 0x2d else d) = 0x2d then p + 1 else p) = (if neg then p + 1 else p)"
    using digit_range [OF d(2)] by auto
  have plus: "(if neg then 0x2d else d) \<noteq> 0x2b" using digit_range [OF d(2)] by auto
  show ?thesis
  proof (cases "d = 0x30")
    case False
    then show ?thesis using digit_bounds [OF d(2)] c0 plus p c by (simp add: json_is_invalid_number_def Let_def)
  next
    case True
    then have ds: "ds = []" using jn(5) d by simp
    have "tail = [] \<or> hd tail \<in> {0x2e, 0x45, 0x65, 0x2c, 0x5d, 0x7d, 0x20, 0x09, 0x0a, 0x0d}"
      using exponent_head [OF jn(7)] assms(4) by (cases xs) (auto simp: tail_def value_ends_def)
    then have b: "(if tail = [] then 0 else hd tail) \<in> {0, 0x2e, 0x45, 0x65, 0x2c, 0x5d, 0x7d, 0x20, 0x09, 0x0a, 0x0d}" by auto
    have "peek data ((if neg then p + 1 else p) + 1) = Inr (if tail = [] then 0 else hd tail)"
      by (cases tail) (simp_all add: data assms(3) sign_def peek_def nth_append ds)
    with True b c0 plus p c show ?thesis by (auto simp: json_is_invalid_number_def Let_def)
  qed
qed

lemma token_at_number:
  assumes "tables_ok cfg" "dec_ok data h st" "data = pre @ e @ rest" "jp_ptr st = length pre"
    and "locale_point dp" "value_ends rest" "json_number w e"
  shows "token_at dp data h cfg st (length e) (\<lambda>token. tok_type token = T_NUMBER \<and> tok_number token = w)"
proof -
  obtain ch cs where ch: "e = ch # cs" "ch = 0x2d \<or> is_digit ch"
    using assms(7)
  proof cases
    case (jn ip fp x xs neg)
    then obtain d ds where "ip = d # ds" "is_digit d" by (cases ip) (auto simp: digits_def)
    with jn(2) that show thesis by (cases neg) auto
  qed
  have data: "data = pre @ ch # cs @ rest" using assms(3) ch by simp
  have dt: "default_ch2token ch = T_UNKNOWN"
    using ch(2) by (auto simp: default_ch2token_def is_digit_def)
  have s: "json_skip_space data cfg (jp_ptr st) = Inr (jp_ptr st, ch)"
    by (rule skip_space_at [OF assms(1) data assms(4)]) (simp add: dt)
  have c: "ch2token cfg ch = T_UNKNOWN" using assms(1) dt by (simp add: tables_ok_def)
  have num: "ch \<noteq> 0x22" "ch = 0x2d \<or> 0x30 \<le> uint ch \<and> uint ch \<le> 0x39"
    using ch(2) digit_bounds [of ch] by (auto simp: is_digit_def)
  have bad: "json_is_invalid_number data (jp_ptr st) = Inr False"
    by (rule json_is_invalid_number_json [OF assms(7,3,4,6)])
  have v: "fpconv_strtod dp (drop (jp_ptr st) data) = (w, length e)"
    using fpconv_strtod_json [OF assms(7,5,6)] assms(3,4) by simp
  have "json_next_token dp data cfg token0 st =
      Done (token0\<lparr>tok_type := T_NUMBER, tok_index := jp_ptr st, tok_number := w\<rparr>)
        (st\<lparr>jp_ptr := jp_ptr st + length e\<rparr>)" for token0
    using num(1) ch(1) by (simp add: json_next_token_def s c Let_def if_P [OF num(2)] bad json_next_number_token_def v)
  moreover have "jp_ptr st + length e \<le> length data" using assms(3,4) by simp
  ultimately show ?thesis using assms(2) unfolding token_at_def by (simp add: dec_ok_def)
qed

text \<open>The integers the encoder writes are such numbers.\<close>

lemma json_number_int: "\<bar>k\<bar> < 2 ^ 53 \<Longrightarrow> json_number (dbl_of_int k) (int_text k)"
proof -
  assume k: "\<bar>k\<bar> < 2 ^ 53"
  define ip where "ip = dec_digits (nat \<bar>k\<bar>)"
  have ip: "digits ip" "ip \<noteq> []" using dec_digits_digits by (auto simp: ip_def digits_def list_all_iff)
  have "hd ip = 0x30 \<longrightarrow> tl ip = []"
    using hd_dec_digits [of "nat \<bar>k\<bar>"] by (cases "k = 0") (auto simp: ip_def dec_digits.simps)
  from jn [OF ip this _ je_none, of "[]" "k < 0"]
  have "json_number (scaled_ratio (k < 0) (nat \<bar>k\<bar>) 10 0) (int_text k)"
    by (simp add: digits_def ip_def int_text_def)
  moreover have "nat \<bar>k\<bar> < 2 ^ 53" using k by (simp add: nat_less_iff)
  then have "scaled_ratio (k < 0) (nat \<bar>k\<bar>) 10 0 = dbl_of_int k"
    using dbl_of_ratio_int [of "nat \<bar>k\<bar>" "k < 0"]
    by (simp add: scaled_ratio_def dbl_of_int_def dbl_of_nat_sign_def dbl_make_def)
  ultimately show ?thesis by simp
qed

end
