(* ===== verification/Json_Values.thy ===== *)
theory Json_Values
  imports Json_Tokens
begin

text \<open>
  The decoder reads every text of the reference syntax, and gives the value the text has there: the
  functions of the mutual recursion, from a position in the text, and \<open>json_decode\<close> as a whole.
\<close>

section \<open>Positions\<close>

definition parser_at :: "byte list \<Rightarrow> 'a slab_scheme \<Rightarrow> int \<Rightarrow> nat \<Rightarrow> 'a slab_scheme json_parse \<Rightarrow> bool" where
  "parser_at data h d p st \<longleftrightarrow> dec_ok data h st \<and> jp_depth st = d \<and> jp_ptr st = p"

lemma token_at_parser:
  assumes "token_at dp data h cfg st n P" "parser_at data h d p st"
  obtains token st' where "json_next_token dp data cfg token0 st = Done token st'"
    "parser_at data h d (p + n) st'" "P token"
  using assms unfolding token_at_def parser_at_def by meson

lemma parser_at_move: "parser_at data h d p st \<Longrightarrow> p + n \<le> length data \<Longrightarrow> parser_at data h d (p + n) (st\<lparr>jp_ptr := p + n\<rparr>)"
  by (simp add: parser_at_def dec_ok_def)

text \<open>A token after white space.\<close>

lemma spaced_token:
  assumes "tables_ok cfg" "parser_at data h d p st" "data = pre @ ws @ rest" "white ws" "p = length pre"
    and "\<And>st'. parser_at data h d (p + length ws) st' \<Longrightarrow> token_at dp data h cfg st' n P"
  obtains token st' where "json_next_token dp data cfg token0 st = Done token st'"
    "parser_at data h d (p + length ws + n) st'" "P token"
proof -
  have st: "jp_ptr st = length pre" using assms(2,5) by (simp add: parser_at_def)
  have "p + length ws \<le> length data" using assms(3,5) by simp
  then have "token_at dp data h cfg (st\<lparr>jp_ptr := jp_ptr st + length ws\<rparr>) n P"
    using assms(6) parser_at_move [OF assms(2)] st assms(5) by simp
  then have "token_at dp data h cfg st (length ws + n) P" by (rule token_at_white [OF assms(1,4,3) st])
  then show thesis by (rule token_at_parser [OF _ assms(2), where ?token0.0 = token0]) (simp add: that add.assoc)
qed

text \<open>Punctuation.\<close>

lemma single_token:
  assumes "tables_ok cfg" "parser_at data h d p st" "data = pre @ ws @ ch # rest" "white ws" "p = length pre"
    and "default_ch2token ch = T" "T \<notin> {T_WHITESPACE, T_ERROR, T_END, T_UNKNOWN}"
  obtains token st' where "json_next_token dp data cfg token0 st = Done token st'"
    "parser_at data h d (p + length ws + 1) st'" "tok_type token = T"
proof -
  have data: "data = (pre @ ws) @ ch # rest" using assms(3) by simp
  have "token_at dp data h cfg st' 1 (\<lambda>token. tok_type token = T)" if "parser_at data h d (p + length ws) st'" for st'
    by (rule token_at_single [OF assms(1) _ data _ assms(6,7)]) (use that assms(5) in \<open>simp_all add: parser_at_def\<close>)
  then show thesis by (rule spaced_token [OF assms(1-5)]) (auto intro: that)
qed

section \<open>Reading a value\<close>

text \<open>
  From the state \<open>st\<close> the next token starts the value \<open>v\<close>, whose text is \<open>e\<close> up to the white space
  behind it; the fuel \<open>f\<close> is enough to read it.
\<close>

definition value_read :: "byte \<Rightarrow> byte list \<Rightarrow> 'a slab_scheme \<Rightarrow> json_config \<Rightarrow> json_token \<Rightarrow> int \<Rightarrow> nat \<Rightarrow> 'a slab_scheme json_parse \<Rightarrow>
    lval \<Rightarrow> byte list \<Rightarrow> nat \<Rightarrow> bool" where
  "value_read dp data h cfg token0 d p st v e f \<longleftrightarrow> (\<exists>token st1 st2 m ws. e = m @ ws \<and> white ws \<and>
     json_next_token dp data cfg token0 st = Done token st1 \<and> tok_type token \<notin> {T_OBJ_END, T_ARR_END} \<and>
     json_process_value f dp data cfg token st1 = Done v st2 \<and> parser_at data h d (p + length m) st2)"

definition reads :: "'a slab_scheme \<Rightarrow> byte \<Rightarrow> json_config \<Rightarrow> int \<Rightarrow> lval \<Rightarrow> byte list \<Rightarrow> bool" where
  "reads h dp cfg d v e \<longleftrightarrow> (\<forall>data pre rest st f token0. data = pre @ e @ rest \<longrightarrow> parser_at data h d (length pre) st \<longrightarrow>
     value_ends rest \<longrightarrow> 3 * length e \<le> f \<longrightarrow> value_read dp data h cfg token0 d (length pre) st v e f)"

lemma readsI:
  assumes "\<And>data pre rest st f token0. data = pre @ e @ rest \<Longrightarrow> parser_at data h d (length pre) st \<Longrightarrow> value_ends rest \<Longrightarrow>
     3 * length e \<le> f \<Longrightarrow> value_read dp data h cfg token0 d (length pre) st v e f"
  shows "reads h dp cfg d v e"
  using assms unfolding reads_def by blast

lemma readsD:
  "reads h dp cfg d v e \<Longrightarrow> data = pre @ e @ rest \<Longrightarrow> parser_at data h d (length pre) st \<Longrightarrow> value_ends rest \<Longrightarrow>
   3 * length e \<le> f \<Longrightarrow> value_read dp data h cfg token0 d (length pre) st v e f"
  unfolding reads_def by blast

lemma readsE:
  assumes "reads h dp cfg d v e" "data = pre @ e @ rest" "parser_at data h d (length pre) st" "value_ends rest" "3 * length e \<le> f"
  obtains token st1 st2 m ws where "json_next_token dp data cfg token0 st = Done token st1"
    "tok_type token \<noteq> T_OBJ_END" "tok_type token \<noteq> T_ARR_END" "e = m @ ws" "white ws"
    "json_process_value f dp data cfg token st1 = Done v st2" "parser_at data h d (length pre + length m) st2"
  using readsD [OF assms, of token0] unfolding value_read_def by (elim exE conjE) simp

lemma reads_before:
  assumes "tables_ok cfg" "reads h dp cfg d v e" "w \<in> {0x20, 0x09, 0x0a, 0x0d}"
  shows "reads h dp cfg d v (w # e)"
proof (rule readsI)
  fix data pre rest st f token0
  assume data: "data = pre @ (w # e) @ rest" and at: "parser_at data h d (length pre) st" and rest: "value_ends rest"
    and f: "3 * length (w # e) \<le> f"
  have data': "data = (pre @ [w]) @ e @ rest" using data by simp
  have "length pre + 1 \<le> length data" using data by simp
  then have at': "parser_at data h d (length (pre @ [w])) (st\<lparr>jp_ptr := length pre + 1\<rparr>)"
    using parser_at_move [OF at, of 1] by simp
  have "white [w]" "data = pre @ [w] @ e @ rest" "jp_ptr st = length pre" using assms(3) data at by (simp_all add: parser_at_def)
  from next_token_white [OF assms(1) this, of dp] \<open>jp_ptr st = length pre\<close>
  have nx: "json_next_token dp data cfg token0 st = json_next_token dp data cfg token0 (st\<lparr>jp_ptr := length pre + 1\<rparr>)"
    by simp
  have "3 * length e \<le> f" using f by simp
  then have "value_read dp data h cfg token0 d (length (pre @ [w])) (st\<lparr>jp_ptr := length pre + 1\<rparr>) v e f"
    by (rule readsD [OF assms(2) data' at' rest])
  then obtain token st1 st2 m ws where "e = m @ ws" "white ws" "json_next_token dp data cfg token0 st = Done token st1"
      "tok_type token \<notin> {T_OBJ_END, T_ARR_END}" "json_process_value f dp data cfg token st1 = Done v st2"
      "parser_at data h d (length pre + length (w # m)) st2"
    unfolding value_read_def nx by auto
  moreover from this have "w # e = (w # m) @ ws" by simp
  ultimately show "value_read dp data h cfg token0 d (length pre) st v (w # e) f"
    unfolding value_read_def by blast
qed

lemma reads_after:
  assumes "reads h dp cfg d v e" "w \<in> {0x20, 0x09, 0x0a, 0x0d}"
  shows "reads h dp cfg d v (e @ [w])"
proof (rule readsI)
  fix data pre rest st f token0
  assume data: "data = pre @ (e @ [w]) @ rest" and at: "parser_at data h d (length pre) st" and f: "3 * length (e @ [w]) \<le> f"
  have "data = pre @ e @ w # rest" "value_ends (w # rest)" "3 * length e \<le> f" using data f assms(2) by simp_all
  from readsD [OF assms(1) this(1) at this(2,3), of token0] obtain token st1 st2 m ws where "e = m @ ws" "white ws"
      "json_next_token dp data cfg token0 st = Done token st1"
      "tok_type token \<notin> {T_OBJ_END, T_ARR_END}" "json_process_value f dp data cfg token st1 = Done v st2"
      "parser_at data h d (length pre + length m) st2"
    unfolding value_read_def by blast
  moreover from this have "e @ [w] = m @ (ws @ [w])" "white (ws @ [w])" using assms(2) by simp_all
  ultimately show "value_read dp data h cfg token0 d (length pre) st v (e @ [w]) f"
    unfolding value_read_def by blast
qed

text \<open>A value of one token.\<close>

lemma reads_token:
  assumes "\<And>data pre rest st. data = pre @ e @ rest \<Longrightarrow> dec_ok data h st \<Longrightarrow> jp_ptr st = length pre \<Longrightarrow> value_ends rest \<Longrightarrow>
      token_at dp data h cfg st (length e) P"
    and "\<And>data token f st. P token \<Longrightarrow> tok_type token \<notin> {T_OBJ_END, T_ARR_END} \<and>
      json_process_value (Suc f) dp data cfg token st = Done v (st :: 'a slab_scheme json_parse)"
    and "e \<noteq> []"
  shows "reads (h :: 'a slab_scheme) dp cfg d v e"
proof (rule readsI)
  fix data pre rest f token0 and st :: "'a slab_scheme json_parse"
  assume data: "data = pre @ e @ rest" and at: "parser_at data h d (length pre) st" and rest: "value_ends rest"
    and f: "3 * length e \<le> f"
  then obtain f' where f': "f = Suc f'" using assms(3) by (cases f) auto
  have t: "token_at dp data h cfg st (length e) P"
    using at by (intro assms(1) [OF data _ _ rest]) (simp_all add: parser_at_def)
  obtain token st' where "json_next_token dp data cfg token0 st = Done token st'"
    "parser_at data h d (length pre + length e) st'" "P token"
    by (rule token_at_parser [OF t at])
  moreover have "e = e @ []" "white []" by simp_all
  ultimately show "value_read dp data h cfg token0 d (length pre) st v e f"
    unfolding value_read_def f' using assms(2) [of token f' data st'] by blast
qed

lemma ascii_length [simp]: "length (ascii s) = length s"
  by (simp add: ascii_def)

lemma reads_literal:
  assumes "tables_ok cfg"
  shows "reads h dp cfg d (LLightuserdata 0) (ascii ''null'')"
    and "reads h dp cfg d (LBoolean True) (ascii ''true'')"
    and "reads h dp cfg d (LBoolean False) (ascii ''false'')"
proof -
  note lit = token_at_literal [OF assms, where h = h and dp = dp]
  show "reads h dp cfg d (LLightuserdata 0) (ascii ''null'')"
  proof (rule reads_token [where P = "\<lambda>token. tok_type token = T_NULL"], goal_cases)
    case (1 data pre rest st)
    from lit [OF 1(2,1,3)] show ?case by simp
  qed (simp_all add: ascii_def)
  show "reads h dp cfg d (LBoolean True) (ascii ''true'')"
  proof (rule reads_token [where P = "\<lambda>token. tok_type token = T_BOOLEAN \<and> tok_boolean token"], goal_cases)
    case (1 data pre rest st)
    from lit [OF 1(2,1,3)] show ?case by simp
  qed (simp_all add: ascii_def)
  show "reads h dp cfg d (LBoolean False) (ascii ''false'')"
  proof (rule reads_token [where P = "\<lambda>token. tok_type token = T_BOOLEAN \<and> \<not> tok_boolean token"], goal_cases)
    case (1 data pre rest st)
    from lit [OF 1(2,1,3)] show ?case by simp
  qed (simp_all add: ascii_def)
qed

lemma reads_string: "tables_ok cfg \<Longrightarrow> json_string s e \<Longrightarrow> reads h dp cfg d (LString s) e"
  by (rule reads_token [where P = "\<lambda>token. tok_type token = T_STRING \<and> tok_string token = s"], rule token_at_string)
     (auto simp: json_string_def)

lemma reads_number: "tables_ok cfg \<Longrightarrow> locale_point dp \<Longrightarrow> json_number w e \<Longrightarrow> reads h dp cfg d (LNumber w) e"
  by (rule reads_token [where P = "\<lambda>token. tok_type token = T_NUMBER \<and> tok_number token = w"], rule token_at_number)
     (auto dest: json_number_nonempty)
section \<open>Tables\<close>

text \<open>A table is its opening character and what the function of its context reads.\<close>

lemma reads_table:
  assumes tables: "tables_ok cfg" and T: "default_ch2token ch = T" "T = T_ARR_BEGIN \<or> T = T_OBJ_BEGIN"
    and inside: "\<And>data pre rest token st f. data = pre @ e @ rest \<Longrightarrow> parser_at data h d (length pre) st \<Longrightarrow> 3 * length e \<le> f \<Longrightarrow>
      \<exists>st'. (if T = T_ARR_BEGIN then json_parse_array_context (Suc f) dp data cfg token st
             else json_parse_object_context (Suc f) dp data cfg token st) = Done v st' \<and>
        parser_at data h d (length pre + length e) st'"
  shows "reads (h :: 'a slab_scheme) dp cfg d v (ch # e)"
proof (rule readsI)
  fix data pre rest f token0 and st :: "'a slab_scheme json_parse"
  assume data: "data = pre @ (ch # e) @ rest" and at: "parser_at data h d (length pre) st" and f: "3 * length (ch # e) \<le> f"
  obtain g where g: "f = Suc (Suc g)" using f by (intro that [of "f - 2"]) simp
  have d1: "data = pre @ [] @ ch # e @ rest" using data by simp
  obtain token st1 where 1: "json_next_token dp data cfg token0 st = Done token st1"
      "parser_at data h d (length pre + length ([] :: byte list) + 1) st1" "tok_type token = T"
    by (rule single_token [OF tables at d1, where T = T and ?token0.0 = token0]) (use T in auto)
  have "data = (pre @ [ch]) @ e @ rest" "parser_at data h d (length (pre @ [ch])) st1" "3 * length e \<le> g"
    using d1 1(2) f g by simp_all
  from inside [OF this, of token] obtain st2 where 2:
      "(if T = T_ARR_BEGIN then json_parse_array_context (Suc g) dp data cfg token st1
        else json_parse_object_context (Suc g) dp data cfg token st1) = Done v st2"
      "parser_at data h d (length (pre @ [ch]) + length e) st2" by blast
  have "json_process_value f dp data cfg token st1 = Done v st2"
    using T(2) 1(3) 2(1) by (auto simp: g simp del: json_parse_array_context.simps json_parse_object_context.simps)
  moreover have "parser_at data h d (length pre + length (ch # e)) st2" using 2(2) by simp
  moreover have "tok_type token \<notin> {T_OBJ_END, T_ARR_END}" "ch # e = (ch # e) @ []" "white []" using T(2) 1(3) by auto
  ultimately show "value_read dp data h cfg token0 d (length pre) st v (ch # e) f"
    unfolding value_read_def using 1(1) by blast
qed

lemma descend_at:
  assumes "parser_at data h d p st" "d + 1 \<le> decode_max_depth cfg"
  obtains st' where "json_decode_descend cfg st = Done () st'" "parser_at data h (d + 1) p st'"
  using assms by (auto simp: json_decode_descend_def Let_def parser_at_def intro: that)

lemma ascend_at: "parser_at data h d p st \<Longrightarrow> parser_at data h (d - 1) p (json_decode_ascend st)"
  by (simp add: parser_at_def json_decode_ascend_def)

subsection \<open>Arrays\<close>

lemma array_items_read:
  assumes tables: "tables_ok cfg" and "list_all2 (reads h dp cfg d) vs es" "vs \<noteq> []" "LNil \<notin> set vs"
    and "length us + length vs < 2 ^ 31" "data = pre @ commas es @ 0x5d # rest" "parser_at data h d (length pre) st"
    and "3 * length (commas es) + 2 \<le> f"
  shows "\<exists>token st1 st2. json_next_token dp data cfg token0 st = Done token st1 \<and> tok_type token \<noteq> T_ARR_END \<and>
    json_array_items f dp data cfg (seq_entries 0 us) (Suc (length us)) token st1 =
      Done (LTable (seq_entries 0 (us @ vs))) st2 \<and>
    parser_at data h (d - 1) (length pre + length (commas es) + 1) st2"
  using assms(2-)
proof (induction vs es arbitrary: us pre st f token0 rule: list_all2_induct)
  case (Cons v vs e es)
  obtain g where g: "f = Suc g" using Cons.prems(6) by (cases f) auto
  define tail where "tail = (if es = [] then 0x5d # rest else 0x2c # commas es @ 0x5d # rest)"
  have data: "data = pre @ e @ tail"
    using Cons.prems(4) by (cases es) (simp_all add: tail_def)
  have len: "length (commas (e # es)) = length e + (if es = [] then 0 else 1 + length (commas es))"
    by (cases es) simp_all
  have "value_ends tail" "3 * length e \<le> g" using Cons.prems(6) len g by (auto simp: tail_def)
  from readsE [OF Cons.hyps(1) data Cons.prems(5) this] obtain token st1 st2 m ws where
      1: "json_next_token dp data cfg token0 st = Done token st1" "tok_type token \<noteq> T_ARR_END" "e = m @ ws" "white ws"
        "json_process_value g dp data cfg token st1 = Done v st2" "parser_at data h d (length pre + length m) st2"
    by metis
  have set: "lua_rawseti (seq_entries 0 us) (Suc (length us)) v = seq_entries 0 (us @ [v])"
    using Cons.prems(2,3) by (intro lua_rawseti_seq) auto
  have at2: "parser_at data h d (length (pre @ m)) st2" using 1(6) by simp
  show ?case
  proof (cases es)
    case Nil
    then have vs: "vs = []" using Cons.hyps(2) by simp
    have d2: "data = (pre @ m) @ ws @ 0x5d # rest" using data Nil 1(3) by (simp add: tail_def)
    obtain token2 st3 where 2: "json_next_token dp data cfg token st2 = Done token2 st3"
        "parser_at data h d (length (pre @ m) + length ws + 1) st3" "tok_type token2 = T_ARR_END"
      by (rule single_token [OF tables at2 d2 1(4) refl, where T = T_ARR_END and ?token0.0 = token]) (auto simp: default_ch2token_def)
    have "json_array_items f dp data cfg (seq_entries 0 us) (Suc (length us)) token st1 =
        Done (LTable (seq_entries 0 (us @ [v]))) (json_decode_ascend st3)"
      using 1(5) 2(1,3) set by (simp add: g)
    moreover have "parser_at data h (d - 1) (length pre + length e + 1) (json_decode_ascend st3)"
      using ascend_at [OF 2(2)] 1(3) by (simp add: add.assoc)
    ultimately show ?thesis using 1(1,2) Nil vs by auto
  next
    case (Cons e' es')
    then have vs: "vs \<noteq> []" using Cons.hyps(2) by auto
    have d2: "data = (pre @ m) @ ws @ 0x2c # (commas es @ 0x5d # rest)" using data Cons 1(3) by (simp add: tail_def)
    obtain token2 st3 where 2: "json_next_token dp data cfg token st2 = Done token2 st3"
        "parser_at data h d (length (pre @ m) + length ws + 1) st3" "tok_type token2 = T_COMMA"
      by (rule single_token [OF tables at2 d2 1(4) refl, where T = T_COMMA and ?token0.0 = token]) (auto simp: default_ch2token_def)
    have "LNil \<notin> set vs" "length (us @ [v]) + length vs < 2 ^ 31" using Cons.prems(2,3) by auto
    moreover have "data = (pre @ e @ [0x2c]) @ commas es @ 0x5d # rest" using d2 1(3) by simp
    moreover have "parser_at data h d (length (pre @ e @ [0x2c])) st3" using 2(2) 1(3) by (simp add: add.assoc)
    moreover have "3 * length (commas es) + 2 \<le> g" using Cons.prems(6) len g Cons by simp
    ultimately obtain token3 st4 st5 where
      3: "json_next_token dp data cfg token2 st3 = Done token3 st4"
        "json_array_items g dp data cfg (seq_entries 0 (us @ [v])) (Suc (length (us @ [v]))) token3 st4 =
           Done (LTable (seq_entries 0 ((us @ [v]) @ vs))) st5"
        "parser_at data h (d - 1) (length (pre @ e @ [0x2c]) + length (commas es) + 1) st5"
      using Cons.IH [OF vs, of "us @ [v]" "pre @ e @ [0x2c]" st3 g token2] by blast
    have "json_array_items f dp data cfg (seq_entries 0 us) (Suc (length us)) token st1 =
        Done (LTable (seq_entries 0 (us @ v # vs))) st5"
      using 1(5) 2(1,3) set 3(1,2) by (simp add: g)
    moreover have "parser_at data h (d - 1) (length pre + length (commas (e # es)) + 1) st5"
      using 3(3) Cons by (simp add: add.assoc)
    ultimately show ?thesis using 1(1,2) by auto
  qed
qed simp

lemma reads_array:
  assumes tables: "tables_ok cfg" and "list_all2 (reads h dp cfg (d + 1)) vs es" "vs \<noteq> []" "LNil \<notin> set vs" "length vs < 2 ^ 31"
    and depth: "d + 1 \<le> decode_max_depth cfg"
  shows "reads (h :: 'a slab_scheme) dp cfg d (LTable (seq_entries 0 vs)) (0x5b # commas es @ [0x5d])"
proof (rule reads_table [OF tables, of "0x5b" T_ARR_BEGIN], goal_cases)
  case (3 data pre rest token st f)
  obtain st2 where 2: "json_decode_descend cfg st = Done () st2" "parser_at data h (d + 1) (length pre) st2"
    by (rule descend_at [OF 3(2) depth])
  have "data = pre @ commas es @ 0x5d # rest" "3 * length (commas es) + 2 \<le> f" using 3(1,3) by simp_all
  with array_items_read [OF tables assms(2-4), of "[]" data pre rest st2 f token] 2(2) assms(5)
  obtain token2 st3 st4 where "json_next_token dp data cfg token st2 = Done token2 st3" "tok_type token2 \<noteq> T_ARR_END"
      "json_array_items f dp data cfg [] 1 token2 st3 = Done (LTable (seq_entries 0 vs)) st4"
      "parser_at data h d (length pre + length (commas es) + 1) st4"
    by auto
  then show ?case using 2(1) by simp
qed (simp_all add: default_ch2token_def)

lemma reads_empty_array:
  assumes tables: "tables_ok cfg" and depth: "d + 1 \<le> decode_max_depth cfg" and "white ws"
  shows "reads (h :: 'a slab_scheme) dp cfg d (LTable []) (0x5b # ws @ [0x5d])"
proof (rule reads_table [OF tables, of "0x5b" T_ARR_BEGIN], goal_cases)
  case (3 data pre rest token st f)
  obtain st2 where 2: "json_decode_descend cfg st = Done () st2" "parser_at data h (d + 1) (length pre) st2"
    by (rule descend_at [OF 3(2) depth])
  have d2: "data = pre @ ws @ 0x5d # rest" using 3(1) by simp
  obtain token2 st3 where 3: "json_next_token dp data cfg token st2 = Done token2 st3"
      "parser_at data h (d + 1) (length pre + length ws + 1) st3" "tok_type token2 = T_ARR_END"
    by (rule single_token [OF tables 2(2) d2 assms(3) refl, where T = T_ARR_END and ?token0.0 = token]) (auto simp: default_ch2token_def)
  then show ?case using 2(1) ascend_at [OF 3(2)] by (simp add: add.assoc)
qed (simp_all add: default_ch2token_def)

subsection \<open>Objects\<close>

lemma lua_rawset_string: "lua_rawset kvs (LString k) v = Inr (tset kvs (LString k) v)"
  by (simp add: lua_rawset_def)

lemma key_token:
  assumes "tables_ok cfg" "spaced json_string k ke" "data = pre @ ke @ 0x3a # rest" "parser_at data h d (length pre) st"
  obtains token st1 token1 st2 where "json_next_token dp data cfg token0 st = Done token st1"
    "tok_type token = T_STRING" "tok_string token = k" "json_next_token dp data cfg token st1 = Done token1 st2"
    "tok_type token1 = T_COLON" "parser_at data h d (length (pre @ ke @ [0x3a])) st2"
proof -
  obtain ws m ws' where ke: "white ws" "white ws'" "json_string k m" "ke = ws @ m @ ws'"
    using assms(2) by (auto simp: spaced_def)
  have d1: "data = pre @ ws @ (m @ ws' @ 0x3a # rest)" "data = (pre @ ws) @ m @ (ws' @ 0x3a # rest)"
    "data = (pre @ ws @ m) @ ws' @ 0x3a # rest"
    using assms(3) ke(4) by simp_all
  have str: "token_at dp data h cfg st' (length m) (\<lambda>token. tok_type token = T_STRING \<and> tok_string token = k)"
    if "parser_at data h d (length pre + length ws) st'" for st'
    by (rule token_at_string [OF assms(1) _ d1(2) _ ke(3)]) (use that in \<open>simp_all add: parser_at_def\<close>)
  obtain token st1 where 1: "json_next_token dp data cfg token0 st = Done token st1"
      "parser_at data h d (length pre + length ws + length m) st1" "tok_type token = T_STRING \<and> tok_string token = k"
    by (rule spaced_token [OF assms(1,4) d1(1) ke(1) refl str])
  have at1: "parser_at data h d (length (pre @ ws @ m)) st1" using 1(2) by (simp add: add.assoc)
  obtain token1 st2 where 2: "json_next_token dp data cfg token st1 = Done token1 st2"
      "parser_at data h d (length (pre @ ws @ m) + length ws' + 1) st2" "tok_type token1 = T_COLON"
    by (rule single_token [OF assms(1) at1 d1(3) ke(2) refl, where T = T_COLON and ?token0.0 = token]) (auto simp: default_ch2token_def)
  show thesis
    by (rule that [OF 1(1) _ _ 2(1,3)]) (use 1(3) 2(2) ke(4) in \<open>simp_all add: add.assoc\<close>)
qed

lemma members_text_Cons:
  "members_text (k # ks) (e # es) = (k @ 0x3a # e) @ (if ks = [] \<or> es = [] then [] else 0x2c # members_text ks es)"
  by (cases ks; cases es) (simp_all add: members_text_def)

abbreviation store_members :: "ltable \<Rightarrow> (byte list \<times> lval) list \<Rightarrow> ltable" where
  "store_members kvs members \<equiv> foldl (\<lambda>kvs (k, v). tset kvs (LString k) v) kvs members"

lemma object_pairs_read:
  assumes tables: "tables_ok cfg" and "list_all2 (reads h dp cfg d) vs es" "list_all2 (spaced json_string) ks kes"
    and "length ks = length vs" "vs \<noteq> []"
    and "data = pre @ members_text kes es @ 0x7d # rest" "parser_at data h d (length pre) st"
    and "3 * length (members_text kes es) + 2 \<le> f"
  shows "\<exists>token st1 st2. json_next_token dp data cfg token0 st = Done token st1 \<and> tok_type token = T_STRING \<and>
    json_object_pairs f dp data cfg kvs token st1 = Done (LTable (store_members kvs (zip ks vs))) st2 \<and>
    parser_at data h (d - 1) (length pre + length (members_text kes es) + 1) st2"
  using assms(2-)
proof (induction vs es arbitrary: ks kes kvs pre st f token0 rule: list_all2_induct)
  case (Cons v vs e es)
  obtain k ks' where ks: "ks = k # ks'" using Cons.prems(2) by (cases ks) auto
  then obtain ke kes' where kes: "kes = ke # kes'" "spaced json_string k ke" "list_all2 (spaced json_string) ks' kes'"
    using Cons.prems(1) by (cases kes) auto
  obtain g where g: "f = Suc g" using Cons.prems(6) by (cases f) auto
  have Nil: "(kes' = [] \<or> es = []) = (vs = [])"
    using Cons.prems(2) Cons.hyps(2) kes(3) ks by (auto dest: list_all2_lengthD)
  define tail where "tail = (if vs = [] then [] else 0x2c # members_text kes' es) @ 0x7d # rest"
  have data: "data = pre @ ke @ 0x3a # (e @ tail)"
    using Cons.prems(4) by (simp add: members_text_Cons kes(1) Nil tail_def)
  have len: "length (members_text kes (e # es)) = length ke + 1 + length e + (if vs = [] then 0 else 1 + length (members_text kes' es))"
    by (simp add: members_text_Cons kes(1) Nil)
  obtain token st1 token1 st2 where 1: "json_next_token dp data cfg token0 st = Done token st1"
      "tok_type token = T_STRING" "tok_string token = k" "json_next_token dp data cfg token st1 = Done token1 st2"
      "tok_type token1 = T_COLON" "parser_at data h d (length (pre @ ke @ [0x3a])) st2"
    by (rule key_token [OF tables kes(2) data Cons.prems(5)])
  have d2: "data = (pre @ ke @ [0x3a]) @ e @ tail" using data by simp
  have "value_ends tail" "3 * length e \<le> g" using Cons.prems(6) len g by (auto simp: tail_def)
  from readsE [OF Cons.hyps(1) d2 1(6) this] obtain token2 st3 st4 m ws where
      3: "json_next_token dp data cfg token1 st2 = Done token2 st3" "e = m @ ws" "white ws"
        "json_process_value g dp data cfg token2 st3 = Done v st4"
        "parser_at data h d (length (pre @ ke @ [0x3a]) + length m) st4"
    by metis
  let ?pre = "pre @ ke @ 0x3a # m" and ?kvs = "tset kvs (LString k) v"
  have at4: "parser_at data h d (length ?pre) st4" using 3(5) by (simp add: add.assoc)
  show ?case
  proof (cases "vs = []")
    case True
    have d3: "data = ?pre @ ws @ 0x7d # rest" using d2 3(2) True by (simp add: tail_def)
    obtain token4 st5 where 4: "json_next_token dp data cfg token2 st4 = Done token4 st5"
        "parser_at data h d (length ?pre + length ws + 1) st5" "tok_type token4 = T_OBJ_END"
      by (rule single_token [OF tables at4 d3 3(3) refl, where T = T_OBJ_END and ?token0.0 = token2]) (auto simp: default_ch2token_def)
    have "json_object_pairs f dp data cfg kvs token st1 = Done (LTable ?kvs) (json_decode_ascend st5)"
      using 1(2-5) 3(1,4) 4(1,3) by (simp add: g lua_rawset_string)
    moreover have "parser_at data h (d - 1) (length pre + length (members_text kes (e # es)) + 1) (json_decode_ascend st5)"
      using ascend_at [OF 4(2)] len 3(2) True by (simp add: add.assoc)
    moreover have "store_members kvs (zip ks (v # vs)) = ?kvs" using True by (simp add: ks)
    ultimately show ?thesis using 1(1,2) by metis
  next
    case False
    have d3: "data = ?pre @ ws @ 0x2c # members_text kes' es @ 0x7d # rest" using d2 3(2) False by (simp add: tail_def)
    obtain token4 st5 where 4: "json_next_token dp data cfg token2 st4 = Done token4 st5"
        "parser_at data h d (length ?pre + length ws + 1) st5" "tok_type token4 = T_COMMA"
      by (rule single_token [OF tables at4 d3 3(3) refl, where T = T_COMMA and ?token0.0 = token2]) (auto simp: default_ch2token_def)
    let ?pre' = "pre @ ke @ 0x3a # e @ [0x2c]"
    have "length ks' = length vs" "data = ?pre' @ members_text kes' es @ 0x7d # rest" "parser_at data h d (length ?pre') st5"
        "3 * length (members_text kes' es) + 2 \<le> g"
      using Cons.prems(2,6) d3 4(2) 3(2) len g False by (simp_all add: ks add.assoc)
    then obtain token5 st6 st7 where
      5: "json_next_token dp data cfg token4 st5 = Done token5 st6"
        "json_object_pairs g dp data cfg ?kvs token5 st6 = Done (LTable (store_members ?kvs (zip ks' vs))) st7"
        "parser_at data h (d - 1) (length ?pre' + length (members_text kes' es) + 1) st7"
      using Cons.IH [OF kes(3) _ False, of ?pre' st5 g token4 ?kvs] by blast
    have "json_object_pairs f dp data cfg kvs token st1 = Done (LTable (store_members kvs (zip ks (v # vs)))) st7"
      using 1(2-5) 3(1,4) 4(1,3) 5(1,2) by (simp add: g ks lua_rawset_string)
    moreover have "parser_at data h (d - 1) (length pre + length (members_text kes (e # es)) + 1) st7"
      using 5(3) len False by (simp add: add.assoc)
    ultimately show ?thesis using 1(1,2) by metis
  qed
qed simp

lemma reads_object:
  assumes tables: "tables_ok cfg" and "list_all2 (reads h dp cfg (d + 1)) vs es" "list_all2 (spaced json_string) ks kes"
    "length ks = length vs" "vs \<noteq> []" and depth: "d + 1 \<le> decode_max_depth cfg"
  shows "reads (h :: 'a slab_scheme) dp cfg d (LTable (table_of (zip ks vs))) (0x7b # members_text kes es @ [0x7d])"
proof (rule reads_table [OF tables, of "0x7b" T_OBJ_BEGIN], goal_cases)
  case (3 data pre rest token st f)
  obtain st2 where 2: "json_decode_descend cfg st = Done () st2" "parser_at data h (d + 1) (length pre) st2"
    by (rule descend_at [OF 3(2) depth])
  have "data = pre @ members_text kes es @ 0x7d # rest" "3 * length (members_text kes es) + 2 \<le> f" using 3(1,3) by simp_all
  with object_pairs_read [OF tables assms(2-5), of data pre rest st2 f token "[]"] 2(2)
  obtain token2 st3 st4 where "json_next_token dp data cfg token st2 = Done token2 st3" "tok_type token2 = T_STRING"
      "json_object_pairs f dp data cfg [] token2 st3 = Done (LTable (table_of (zip ks vs))) st4"
      "parser_at data h d (length pre + length (members_text kes es) + 1) st4"
    by (auto simp: table_of_def)
  then show ?case using 2(1) by simp
qed (simp_all add: default_ch2token_def)

lemma reads_empty_object:
  assumes tables: "tables_ok cfg" and depth: "d + 1 \<le> decode_max_depth cfg" and "white ws"
  shows "reads (h :: 'a slab_scheme) dp cfg d (LTable []) (0x7b # ws @ [0x7d])"
proof (rule reads_table [OF tables, of "0x7b" T_OBJ_BEGIN], goal_cases)
  case (3 data pre rest token st f)
  obtain st2 where 2: "json_decode_descend cfg st = Done () st2" "parser_at data h (d + 1) (length pre) st2"
    by (rule descend_at [OF 3(2) depth])
  have d2: "data = pre @ ws @ 0x7d # rest" using 3(1) by simp
  obtain token2 st3 where 3: "json_next_token dp data cfg token st2 = Done token2 st3"
      "parser_at data h (d + 1) (length pre + length ws + 1) st3" "tok_type token2 = T_OBJ_END"
    by (rule single_token [OF tables 2(2) d2 assms(3) refl, where T = T_OBJ_END and ?token0.0 = token]) (auto simp: default_ch2token_def)
  then show ?case using 2(1) ascend_at [OF 3(2)] by (simp add: add.assoc)
qed (simp_all add: default_ch2token_def)
section \<open>Every text of the syntax\<close>

lemma list_all2_reads:
  assumes "list_all2 (\<lambda>v e. json_syntax md d v e \<and> (length e < n \<longrightarrow> reads h dp cfg d v e)) vs es" "\<And>e. e \<in> set es \<Longrightarrow> length e < n"
  shows "list_all2 (reads h dp cfg d) vs es" "LNil \<notin> set vs"
proof -
  show "list_all2 (reads h dp cfg d) vs es" using assms by (auto simp: list_all2_conv_all_nth)
  show "LNil \<notin> set vs" using assms(1) by (auto simp: list_all2_conv_all_nth in_set_conv_nth dest: json_syntax_value)
qed

lemma json_syntax_reads:
  assumes "tables_ok cfg" "locale_point dp" "decode_max_depth cfg = md" "json_syntax md d v e" "length e < 2 ^ 31"
  shows "reads h dp cfg d v e"
  using assms(4,5)
proof (induction rule: json_syntax.induct)
  case (js_before w d v e)
  then show ?case by (intro reads_before [OF assms(1)]) auto
next
  case (js_after w d v e)
  then show ?case by (intro reads_after) auto
next
  case (js_array d vs es)
  have "length e < 2 ^ 31" if "e \<in> set es" for e using commas_length [OF that] js_array(4) by simp
  note all = list_all2_reads [OF js_array(3) this]
  have "e \<noteq> []" if "e \<in> set es" for e
    by (rule list_all2_right [OF js_array(3) _ that]) (auto dest: json_syntax_nonempty)
  then have "length es \<le> length (commas es)" by (rule commas_count)
  then have "length vs < 2 ^ 31" using js_array(4) list_all2_lengthD [OF js_array(3)] by simp
  with all show ?case using assms(1,3) js_array(1,2) by (intro reads_array) simp_all
next
  case (js_object d vs ks kes es)
  have len: "length kes = length es"
    using list_all2_lengthD [OF js_object(3)] js_object(4) list_all2_lengthD [OF js_object(5)] by simp
  have "length e < 2 ^ 31" if e: "e \<in> set es" for e
  proof -
    obtain i where i: "i < length es" "e = es ! i" using e by (auto simp: in_set_conv_nth)
    then have "kes ! i @ 0x3a # e \<in> set (map2 (\<lambda>k e. k @ 0x3a # e) kes es)" using len by (auto simp: set_zip)
    then have "length (kes ! i @ 0x3a # e) \<le> length (members_text kes es)" unfolding members_text_def by (rule commas_length)
    with js_object(6) show ?thesis by simp
  qed
  from list_all2_reads(1) [OF js_object(5) this] show ?case
    using assms(1,3) js_object(1-4) by (intro reads_object) simp_all
qed (use assms(1-3) in \<open>simp_all add: reads_literal reads_number reads_string reads_empty_array reads_empty_object\<close>)

lemma json_decode_syntax:
  assumes "slab_ok h" "tables_ok cfg" "locale_point dp" "json_syntax (decode_max_depth cfg) 0 v e" "length e < 1024 * 1024"
  shows "\<exists>h'. json_decode L dp [LString e] (cfg, h) = Done [v] (cfg, h') \<and> same_use h h'"
proof -
  obtain s h1 where s: "memslice_wrap_strbuf_new (int (length e)) h = Inr (s, h1)"
    "dec_ok e h \<lparr>jp_ptr = 0, jp_tmp = s, jp_depth = 0, jp_heap = h1\<rparr>"
    by (rule strbuf_new_ok [OF assms(1,5)])
  let ?st = "\<lparr>jp_ptr = 0, jp_tmp = s, jp_depth = 0, jp_heap = h1\<rparr>"
    and ?token = "\<lparr>tok_type = T_UNKNOWN, tok_index = 0, tok_string = [], tok_number = 0, tok_boolean = False\<rparr>"
  have r: "reads h dp cfg 0 v e"
    using assms(5) by (intro json_syntax_reads [OF assms(2,3) refl assms(4)]) simp
  have start: "e = [] @ e @ []" "parser_at e h 0 (length ([] :: byte list)) ?st" "3 * length e \<le> 3 * length e + 4"
    using s(2) by (simp_all add: parser_at_def)
  obtain token1 st1 st2 m ws where 1: "json_next_token dp e cfg ?token ?st = Done token1 st1" "e = m @ ws" "white ws"
      "json_process_value (3 * length e + 4) dp e cfg token1 st1 = Done v st2" "parser_at e h 0 (length m) st2"
    by (rule readsE [OF r start(1,2) value_endsI(1) start(3), where ?token0.0 = ?token]) auto
  have d: "e = m @ ws @ []" using 1(2) by simp
  have e: "token_at dp e h cfg st 0 (\<lambda>token. tok_type token = T_END)" if "parser_at e h 0 (length m + length ws) st" for st
    using that by (intro token_at_end [OF assms(2)]) (simp_all add: parser_at_def 1(2))
  obtain token3 st3 where 3: "json_next_token dp e cfg token1 st2 = Done token3 st3" "parser_at e h 0 (length m + length ws + 0) st3"
      "tok_type token3 = T_END"
    by (rule spaced_token [OF assms(2) 1(5) d 1(3) refl e])
  have "sb_ok (jp_tmp st3, jp_heap st3)" "sb_fresh h (jp_tmp st3, jp_heap st3)"
    using 3(2) by (simp_all add: parser_at_def dec_ok_def)
  then obtain h2 where f: "memslice_wrap_strbuf_free (jp_tmp st3) (jp_heap st3) = Inr h2" "same_use h h2"
    by (rule strbuf_free_ok)
  have "\<not> (2 \<le> length e \<and> (e ! 0 = 0 \<or> e ! 1 = 0))"
    using json_syntax_no_null [OF assms(4)] by (auto simp: set_conv_nth)
  then have "json_decode_text dp e (cfg, h) = Done [v] (cfg, h2)"
    using s(1) 1(1,4) 3(1,3) f(1) by (simp add: json_decode_text_def decode_run_def Let_def)
  with f(2) show ?thesis by (simp add: json_decode_def lua_tolstring_def)
qed

end
