(* ===== verification/Json_Roundtrip.thy ===== *)
theory Json_Roundtrip
  imports Json_Values
begin

text \<open>
  What the encoder writes for values without characters to escape is in the reference syntax, with
  the value that was encoded: decoding undoes encoding.
\<close>

section \<open>Decoding what the encoder writes\<close>

text \<open>
  The values that survive: booleans, the null of the decoder, integers that the precision of the
  encoder can show, strings without a character to escape, and arrays and objects of these. An
  empty table is an object.
\<close>

inductive json_kept :: "json_config \<Rightarrow> lval \<Rightarrow> bool" for cfg where
  jkept_null: "json_kept cfg (LLightuserdata 0)"
| jkept_boolean: "json_kept cfg (LBoolean b)"
| jkept_integer: "\<bar>k\<bar> < 10 ^ nat (encode_number_precision cfg) \<Longrightarrow> json_kept cfg (lua_int k)"
| jkept_string: "plain_string s \<Longrightarrow> json_kept cfg (LString s)"
| jkept_array: "vs \<noteq> [] \<Longrightarrow> length vs < 2 ^ 31 \<Longrightarrow> \<forall>v \<in> set vs. json_kept cfg v \<Longrightarrow> json_kept cfg (LTable (seq_entries 0 vs))"
| jkept_object: "distinct ks \<Longrightarrow> length ks = length vs \<Longrightarrow> \<forall>k \<in> set ks. plain_string k \<Longrightarrow>
    \<forall>v \<in> set vs. json_kept cfg v \<Longrightarrow> json_kept cfg (LTable (zip (map LString ks) vs))"

inductive_cases json_kept_numberE: "json_kept cfg (LNumber w)"
inductive_cases json_kept_stringE: "json_kept cfg (LString s)"
inductive_cases json_kept_nilE: "json_kept cfg LNil"

lemma json_kept_tableE:
  assumes "json_kept cfg (LTable kvs)"
  obtains (array) vs where "kvs = seq_entries 0 vs" "vs \<noteq> []" "length vs < 2 ^ 31" "\<forall>v \<in> set vs. json_kept cfg v"
  | (object) ks vs where "kvs = zip (map LString ks) vs" "distinct ks" "length ks = length vs"
      "\<forall>k \<in> set ks. plain_string k" "\<forall>v \<in> set vs. json_kept cfg v"
  using assms by (cases rule: json_kept.cases) auto

lemma precision_int:
  assumes "config_ok cfg" "\<bar>k\<bar> < 10 ^ nat (encode_number_precision cfg)"
  shows "\<bar>k\<bar> < 2 ^ 53" "json_number_text cfg (dbl_of_int k) = Some (int_text k)"
proof -
  have p: "nat (encode_number_precision cfg) \<le> 14" "0 < nat (encode_number_precision cfg)"
    using assms(1) by (auto simp: config_ok_def)
  have "(10 :: int) ^ nat (encode_number_precision cfg) \<le> 10 ^ 14" by (rule power_increasing [OF p(1)]) simp
  then show k: "\<bar>k\<bar> < 2 ^ 53" using assms(2) by simp
  have "dbl_int (dbl_of_int k) = Some k" by (rule dbl_int_dbl_of_int [OF k])
  then have "\<not> isinf (dbl_of_int k)" "\<not> isnan (dbl_of_int k)" by (auto simp: isinf_def isnan_def dbl_int_def)
  then show "json_number_text cfg (dbl_of_int k) = Some (int_text k)"
    using fmt_g_int [OF assms(2) k p(2)] by (simp add: json_number_text_def)
qed

text \<open>The shape of the tables: all keys of an array are positive integers, no key of an object is.\<close>

lemma json_shape_seq:
  assumes "length vs < 2 ^ 31"
  shows "json_shape cfg (seq_entries 0 vs) = Some (int (length vs))"
proof -
  have key: "int_key (lua_int (int j)) = Some (int j)" if "j \<in> {Suc 0..<Suc (length vs)}" for j
    using that assms dbl_int_dbl_of_int [of "int j"] by (auto simp: int_key_def)
  have keys: "fst ` set (seq_entries 0 vs) = (\<lambda>j. lua_int (int j)) ` {Suc 0..<Suc (length vs)}"
    using seq_entries_keys [of 0 vs] by simp
  have all: "int_key k \<noteq> None" if "(k, v) \<in> set (seq_entries 0 vs)" for k v
  proof -
    have "k \<in> fst ` set (seq_entries 0 vs)" using that by (rule image_eqI [rotated]) simp
    then obtain j where "j \<in> {Suc 0..<Suc (length vs)}" "k = lua_int (int j)" unfolding keys by blast
    with key show ?thesis by simp
  qed
  have "(\<lambda>(k, v). the (int_key k)) ` set (seq_entries 0 vs) = (\<lambda>k. the (int_key k)) ` fst ` set (seq_entries 0 vs)"
    by (auto simp: image_iff split_beta)
  also have "\<dots> = int ` {Suc 0..<Suc (length vs)}"
    unfolding keys image_image using key by (intro image_cong) auto
  finally have "Max (insert 0 ((\<lambda>(k, v). the (int_key k)) ` set (seq_entries 0 vs))) =
      Max (insert 0 (int ` {Suc 0..<Suc (length vs)}))" by (simp only:)
  also have "\<dots> = int (length vs)" by (rule Max_eqI) (auto simp: Suc_le_eq intro!: image_eqI [of _ int "length vs"])
  finally have mx: "Max (insert 0 ((\<lambda>(k, v). the (int_key k)) ` set (seq_entries 0 vs))) = int (length vs)" .
  have dense: "\<not> (0 < r \<and> int (length vs) * r < int (length vs) \<and> s)" for r s
    using mult_left_mono [of 1 r "int (length vs)"] by auto
  have P: "\<forall>(k, v) \<in> set (seq_entries 0 vs). int_key k \<noteq> None" using all by auto
  show ?thesis
    unfolding json_shape_def mx Let_def length_seq_entries if_P [OF P] using dense by (simp only: if_False)
qed

lemma lua_rawgeti_all: "length vs < 2 ^ 31 \<Longrightarrow> map (lua_rawgeti (seq_entries 0 vs)) [1..<Suc (length vs)] = vs"
  by (rule nth_equalityI) (simp_all add: lua_rawgeti_seq del: upt_Suc)

lemma json_shape_object:
  assumes "json_shape cfg (zip (map LString ks) vs) = Some len" "0 < len" "length ks = length vs"
  shows False
proof (cases ks)
  case Nil
  then show False using assms(1,2) by (simp add: json_shape_def)
next
  case (Cons k ks')
  then obtain v vs' where "vs = v # vs'" using assms(3) by (cases vs) auto
  with Cons assms(1,2) show False by (simp add: json_shape_def int_key_def)
qed

lemma json_chars_plain: "plain_string s \<Longrightarrow> json_chars s s"
  by (induction s) (auto simp: plain_string_def char2escape_def intro!: json_chars.intros)

lemma json_string_text: "plain_string s \<Longrightarrow> string_text s e \<Longrightarrow> json_string s e"
  using json_chars_plain by (auto simp: string_text_def chars_text_plain json_string_def)

lemma spacedI: "P v e \<Longrightarrow> spaced P v e"
  unfolding spaced_def by (intro exI [of _ "[]"] exI [of _ e]) simp

text \<open>Members with different names end up in the table in their order.\<close>

lemma table_of_distinct:
  assumes "distinct ks" "length ks = length vs" "LNil \<notin> set vs" "\<forall>k \<in> set ks. LString k \<notin> fst ` set kvs"
  shows "foldl (\<lambda>kvs (k, v). tset kvs (LString k) v) kvs (zip ks vs) = kvs @ zip (map LString ks) vs"
  using assms(2,1,3,4)
proof (induction ks vs arbitrary: kvs rule: list_induct2)
  case (Cons k ks v vs)
  have "tset kvs (LString k) v = kvs @ [(LString k, v)]" using Cons.prems by (intro tset_fresh) auto
  moreover have "foldl (\<lambda>kvs (k, v). tset kvs (LString k) v) (kvs @ [(LString k, v)]) (zip ks vs) =
      (kvs @ [(LString k, v)]) @ zip (map LString ks) vs"
    using Cons.prems by (intro Cons.IH) auto
  ultimately show ?case by simp
qed simp

lemma json_kept_value: "json_kept cfg v \<Longrightarrow> v \<noteq> LNil"
  by (auto elim: json_kept.cases)

text \<open>The pairs of texts of an object, with the colon in the key's text.\<close>

lemma members_text_keys:
  "length ks = length es \<Longrightarrow> (\<And>i. i < length ks \<Longrightarrow> fst (ks ! i) = kes ! i @ [0x3a]) \<Longrightarrow> length kes = length ks \<Longrightarrow>
   commas (map2 (\<lambda>k e. fst k @ fst e) ks es) = members_text kes (map fst es)"
  unfolding members_text_def by (intro arg_cong [where f = commas] nth_equalityI) simp_all

lemma json_kept_syntax:
  assumes "config_ok cfg" "encode_max_depth cfg \<le> md" "json_text cfg d v en" "json_kept cfg v"
  shows "json_syntax md d v (fst en)"
  using assms(3,4)
proof (induction rule: json_text.induct)
  case (jt_nil d)
  then show ?case by (auto elim: json_kept_nilE)
next
  case (jt_number num e d)
  then obtain k where "num = dbl_of_int k" "\<bar>k\<bar> < 10 ^ nat (encode_number_precision cfg)" by (auto elim: json_kept_numberE)
  with precision_int [OF assms(1)] jt_number(1) json_number_int show ?case by (auto intro: js_number)
next
  case (jt_string s e d)
  then show ?case using json_string_text by (auto elim: json_kept_stringE intro: js_string)
next
  case (jt_array d kvs len es)
  from jt_array.prems show ?case
  proof (cases rule: json_kept_tableE)
    case (array vs)
    then have "map (lua_rawgeti kvs) [1..<Suc (nat len)] = vs"
      using json_shape_seq [of vs cfg] lua_rawgeti_all [of vs] jt_array(3) by (auto simp del: upt_Suc)
    then have "list_all2 (\<lambda>v en. json_kept cfg v \<longrightarrow> json_syntax md (d + 1) v (fst en)) vs es"
      using jt_array(5) by (auto elim: list_all2_mono)
    then have "list_all2 (json_syntax md (d + 1)) vs (map fst es)"
      using array(4) by (auto simp: list_all2_conv_all_nth)
    then show ?thesis using jt_array(1) assms(2) array(1,2) by (auto intro: js_array)
  next
    case (object ks vs)
    then show ?thesis using json_shape_object jt_array(3,4) by blast
  qed
next
  case (jt_object d kvs len ks es)
  from jt_object.prems show ?case
  proof (cases rule: json_kept_tableE)
    case (array vs)
    then have "int (length vs) \<le> 0" using json_shape_seq [of vs cfg] jt_object(3,4) by simp
    with array(2) show ?thesis by simp
  next
    case (object ks' vs)
    have kvs: "map fst kvs = map LString ks'" "map snd kvs = vs" using object(1,3) by simp_all
    have "list_all2 (\<lambda>v en. json_kept cfg v \<longrightarrow> json_syntax md (d + 1) v (fst en)) vs es"
      using jt_object(6) unfolding kvs by (auto elim: list_all2_mono)
    then have vs: "list_all2 (json_syntax md (d + 1)) vs (map fst es)"
      using object(5) by (auto simp: list_all2_conv_all_nth)
    have ks: "length ks = length ks'" "\<And>i. i < length ks' \<Longrightarrow> json_key_text cfg (LString (ks' ! i)) (ks ! i)"
      using jt_object(5) unfolding kvs by (auto simp: list_all2_conv_all_nth)
    have "\<exists>ke. fst (ks ! i) = ke @ [0x3a] \<and> json_string (ks' ! i) ke" if "i < length ks'" for i
      using ks(2) [OF that] json_string_text [of "ks' ! i"] object(4) that by (auto elim!: json_key_text.cases)
    then have "\<exists>ke. \<forall>i < length ks'. fst (ks ! i) = ke i @ [0x3a] \<and> json_string (ks' ! i) (ke i)" by metis
    then obtain ke where ke: "\<And>i. i < length ks' \<Longrightarrow> fst (ks ! i) = ke i @ [0x3a] \<and> json_string (ks' ! i) (ke i)" by blast
    let ?kes = "map ke [0..<length ks']"
    have keys: "list_all2 (spaced json_string) ks' ?kes"
      using ke by (auto simp: list_all2_conv_all_nth intro!: spacedI)
    have len: "length ks = length es" using ks(1) object(3) list_all2_lengthD [OF vs] by simp
    have same: "commas (map2 (\<lambda>k e. fst k @ fst e) ks es) = members_text ?kes (map fst es)"
      by (rule members_text_keys [OF len]) (use ks(1) ke in simp_all)
    have depth: "d + 1 \<le> md" using jt_object(1) assms(2) by simp
    show ?thesis
    proof (cases "vs = []")
      case True
      then show ?thesis using js_empty_object [OF depth, of "[]"] same object(1,3) len ks(1) by (simp add: members_text_def)
    next
      case False
      have "LNil \<notin> set vs" using object(5) json_kept_value by blast
      then have "table_of (zip ks' vs) = kvs"
        using table_of_distinct [OF object(2,3), of "[]"] object(1) by (simp add: table_of_def)
      then show ?thesis using js_object [OF depth False keys object(3) vs] same by simp
    qed
  qed
next
  case (jt_boolean d b)
  show ?case by (cases b) (simp_all add: js_true js_false)
qed (auto intro: json_syntax.intros)

text \<open>The encoder changes its buffer only.\<close>

lemma json_encode_config: "json_encode dp [v] (cfg, h) = Done r (cfg', h') \<Longrightarrow> cfg' = cfg \<or> (\<exists>b. cfg' = cfg\<lparr>encode_buf := b\<rparr>)"
  by (auto simp: json_encode_def Let_def split: sum.splits jres.splits if_splits option.splits)

lemma json_decode_encode:
  assumes "encoder_ok (cfg, h)" "tables_ok cfg" "locale_point dp" "encode_max_depth cfg \<le> decode_max_depth cfg"
    and "json_text cfg 0 v (e0, n)" "n < STRBUF_LIMIT" "json_kept cfg v"
  shows "\<exists>e cfg' h' h''. json_encode dp [v] (cfg, h) = Done [LString e] (cfg', h') \<and>
    json_decode L dp [LString e] (cfg', h') = Done [v] (cfg', h'')"
proof -
  obtain e cfg' h' where e: "json_encode dp [v] (cfg, h) = Done [LString e] (cfg', h')" "json_text cfg 0 v (e, n)" "length e \<le> n"
      "encoder_ok (cfg', h')" "cfg' = cfg \<or> (\<exists>b. cfg' = cfg\<lparr>encode_buf := b\<rparr>)"
    using json_encode_ok [OF assms(1,3,5,6)] by (metis json_encode_config)
  then have c: "tables_ok cfg'" "decode_max_depth cfg' = decode_max_depth cfg"
    using assms(2) by (auto simp: tables_ok_def)
  have "json_syntax (decode_max_depth cfg') 0 v e"
    using json_kept_syntax [OF _ _ e(2) assms(7), of "decode_max_depth cfg'"] assms(1,4) c(2) by (simp add: encoder_ok_def)
  moreover have "slab_ok h'" using e(4) by (simp add: encoder_ok_def)
  moreover have "length e < 1024 * 1024" using e(3) assms(6) by (simp add: STRBUF_LIMIT_def)
  ultimately show ?thesis using json_decode_syntax [OF _ c(1) assms(3)] e(1) by blast
qed

end
