(* ===== verification/Json_Module.thy ===== *)
theory Json_Module
  imports Json_Roundtrip
begin

text \<open>
  The JSON module as a whole: the encoder on every value within its limits, refused ones included,
  and the invariant of the configuration and the heap over all sequences of calls.
\<close>

section \<open>A run of the encoder that may be refused\<close>

text \<open>After an error the private buffer of the call has been freed; a kept buffer is in order.\<close>

definition raised :: "json_config \<Rightarrow> 'a slab_scheme sb \<Rightarrow> 'a slab_scheme sb \<Rightarrow> bool" where
  "raised cfg st st' \<longleftrightarrow> (\<exists>st1. sb_ok st1 \<and> sb_next st st1 \<and>
     (if encode_keep_buffer cfg = 0 then fst st' = fst st1 \<and> memslice_wrap_strbuf_free (fst st1) (snd st1) = Inr (snd st')
      else st' = st1))"

text \<open>The step needs room for at most \<open>n\<close> bytes and never faults.\<close>

definition safe :: "json_config \<Rightarrow> ('a, 'r) enc \<Rightarrow> nat \<Rightarrow> bool" where
  "safe cfg f n \<longleftrightarrow> (\<forall>st. sb_ok st \<longrightarrow> length (sb_text st) + n < STRBUF_LIMIT \<longrightarrow>
     (case f st of
        Done r st' \<Rightarrow> sb_ok st' \<and> sb_next st st' \<and> length (sb_text st') \<le> length (sb_text st) + n
      | Raise msg st' \<Rightarrow> raised cfg st st'
      | Fault e \<Rightarrow> False))"

lemma raised_from: "sb_next st st1 \<Longrightarrow> raised cfg st1 st' \<Longrightarrow> raised cfg st st'"
  unfolding raised_def using sb_next_trans by blast

lemma safe_adds: "sb.adds f n P \<Longrightarrow> safe cfg f n"
  unfolding safe_def sb.adds_def by (fastforce split: jres.splits)

lemma safe_cong: "(\<And>st. f st = g st) \<Longrightarrow> safe cfg g n \<Longrightarrow> safe cfg f n"
  by (simp add: safe_def)

lemma safe_weaken: "safe cfg f m \<Longrightarrow> m \<le> n \<Longrightarrow> safe cfg f n"
  unfolding safe_def by (fastforce split: jres.splits)

lemma safe_bind:
  fixes f :: "('a, 'r) enc"
  assumes "safe cfg f m" "\<And>r. safe cfg (g r) n"
  shows "safe cfg (\<lambda>st. bind_j (f st) g) (m + n)"
  unfolding safe_def
proof (intro allI impI)
  fix st :: "'a slab_scheme sb" assume st: "sb_ok st" "length (sb_text st) + (m + n) < STRBUF_LIMIT"
  then have "length (sb_text st) + m < STRBUF_LIMIT" by simp
  with st(1) have f: "case f st of Done r st' \<Rightarrow> sb_ok st' \<and> sb_next st st' \<and> length (sb_text st') \<le> length (sb_text st) + m
      | Raise msg st' \<Rightarrow> raised cfg st st' | Fault e \<Rightarrow> False"
    using assms(1) unfolding safe_def by blast
  show "case bind_j (f st) g of
      Done r st' \<Rightarrow> sb_ok st' \<and> sb_next st st' \<and> length (sb_text st') \<le> length (sb_text st) + (m + n)
    | Raise msg st' \<Rightarrow> raised cfg st st' | Fault e \<Rightarrow> False"
  proof (cases "f st")
    case (Done r st1)
    with f have 1: "sb_ok st1" "sb_next st st1" "length (sb_text st1) \<le> length (sb_text st) + m" by auto
    then have "length (sb_text st1) + n < STRBUF_LIMIT" using st(2) by simp
    with 1 assms(2) [of r] have "case g r st1 of
        Done r st' \<Rightarrow> sb_ok st' \<and> sb_next st1 st' \<and> length (sb_text st') \<le> length (sb_text st1) + n
      | Raise msg st' \<Rightarrow> raised cfg st1 st' | Fault e \<Rightarrow> False"
      unfolding safe_def by blast
    then show ?thesis using Done 1 sb_next_trans [OF 1(2)] raised_from [OF 1(2)] by (auto split: jres.splits)
  qed (use f in simp_all)
qed

lemma safe_done: "safe cfg (\<lambda>st. Done r st) 0"
  by (simp add: safe_def)

lemma strbuf_free_total: "sb_ok (s, h) \<Longrightarrow> \<exists>h'. memslice_wrap_strbuf_free s h = Inr h'"
  by (rule decRef_ok [of h "ms_mb (sb_ms s)" 1]) (auto simp: sb_ok_def memslice_wrap_strbuf_free_def)

lemma safe_raise: "safe cfg (json_raise cfg msg) 0"
  unfolding safe_def
proof (intro allI impI)
  fix st :: "'a slab_scheme sb" assume ok: "sb_ok st"
  obtain s h where st: "st = (s, h)" by (cases st)
  obtain h' where "memslice_wrap_strbuf_free s h = Inr h'" using strbuf_free_total ok st by blast
  then show "case json_raise cfg msg st of
      Done r st' \<Rightarrow> sb_ok st' \<and> sb_next st st' \<and> length (sb_text st') \<le> length (sb_text st) + 0
    | Raise msg st' \<Rightarrow> raised cfg st st' | Fault e \<Rightarrow> False"
    using ok by (auto simp: json_raise_def st raised_def intro!: exI [of _ "(s, h)"])
qed

lemma safe_exception: "safe cfg (json_encode_exception cfg v reason) n"
  using safe_weaken [OF safe_raise] by (simp add: json_encode_exception_def)

section \<open>Values within the limits\<close>

text \<open>
  \<open>json_fits cfg v n\<close>: the encoder needs room for at most \<open>n\<close> bytes before it is done with \<open>v\<close> or
  refuses it. It asks of the strings that their escapes fit in the room reserved for them, and of the
  tables that their keys fit the C type \<open>int\<close>.
\<close>

inductive key_fits :: "lval \<Rightarrow> nat \<Rightarrow> bool" where
  kf_string: "string_fits s \<Longrightarrow> key_fits (LString s) (length s * 6 + 4)"
| kf_other: "(\<forall>s. k \<noteq> LString s) \<Longrightarrow> key_fits k 35"

inductive json_fits :: "json_config \<Rightarrow> lval \<Rightarrow> nat \<Rightarrow> bool" for cfg where
  jf_string: "string_fits s \<Longrightarrow> json_fits cfg (LString s) (length s * 6 + 3)"
| jf_scalar: "(\<forall>s. v \<noteq> LString s) \<Longrightarrow> (\<forall>kvs. v \<noteq> LTable kvs) \<Longrightarrow> json_fits cfg v 32"
| jf_sparse: "keys_in_int cfg kvs \<Longrightarrow> json_shape cfg kvs = None \<Longrightarrow> json_fits cfg (LTable kvs) 0"
| jf_array: "keys_in_int cfg kvs \<Longrightarrow> json_shape cfg kvs = Some len \<Longrightarrow> 0 < len \<Longrightarrow>
    list_all2 (json_fits cfg) (map (lua_rawgeti kvs) [1..<Suc (nat len)]) ns \<Longrightarrow>
    json_fits cfg (LTable kvs) (2 + sum_list (map Suc ns))"
| jf_object: "keys_in_int cfg kvs \<Longrightarrow> json_shape cfg kvs = Some len \<Longrightarrow> len \<le> 0 \<Longrightarrow>
    list_all2 key_fits (map fst kvs) ks \<Longrightarrow> list_all2 (json_fits cfg) (map snd kvs) ns \<Longrightarrow>
    json_fits cfg (LTable kvs) (2 + sum_list (map2 (\<lambda>k n. k + n + 1) ks ns))"

lemma json_append_number_safe:
  assumes "config_ok cfg" "locale_point dp"
  shows "safe cfg (json_append_number dp cfg w :: ('a, unit) enc) 32"
proof (cases "json_number_text cfg w")
  case None
  then have "json_append_number dp cfg w = (json_encode_exception cfg (LNumber w) ''must not be NaN or Infinity'' :: ('a, unit) enc)"
    by (intro ext) (auto simp: json_number_text_def json_append_number_def split: if_splits)
  then show ?thesis using safe_exception by metis
next
  case (Some e)
  from safe_adds [OF json_append_number_adds [OF assms this]] show ?thesis by (simp add: FPCONV_G_FMT_BUFSIZE_def)
qed

lemma json_append_key_safe:
  assumes "config_ok cfg" "locale_point dp" "key_fits k n"
  shows "safe cfg (json_append_key dp cfg k :: ('a, unit) enc) n"
  using assms(3)
proof cases
  case (kf_string s)
  have "safe cfg (\<lambda>st :: 'a slab_scheme sb. bind_j (lift_j (json_append_string s st)) (\<lambda>_ st1. lift_j (strbuf_append_char 0x3a st1)))
      (length s * 6 + 3 + 1)"
    by (intro safe_bind) (rule safe_adds, rule json_append_string_adds [OF kf_string(3)], rule safe_adds, rule append_char_adds)
  from safe_weaken [OF this, of "length s * 6 + 4"] show ?thesis
    unfolding kf_string(1,2) by (subst safe_cong) (simp_all add: json_append_key_def)
next
  case kf_other
  show ?thesis
  proof (cases "\<exists>w. k = LNumber w")
    case True
    then obtain w where w: "k = LNumber w" by blast
    have two: "safe cfg (\<lambda>st :: 'a slab_scheme sb. lift_j (strbuf_append_mem [0x22, 0x3a] st)) 2"
      by (rule safe_adds [OF append_mem_adds]) simp
    have "safe cfg (\<lambda>st :: 'a slab_scheme sb. bind_j (lift_j (strbuf_append_char 0x22 st)) (\<lambda>_ st1.
        bind_j (json_append_number dp cfg w st1) (\<lambda>_ st2. lift_j (strbuf_append_mem [0x22, 0x3a] st2)))) (1 + (32 + 2))"
      by (intro safe_bind json_append_number_safe [OF assms(1,2)] two) (rule safe_adds, rule append_char_adds)
    from safe_weaken [OF this, of 35] show ?thesis
      unfolding kf_other(1) w by (subst safe_cong) (simp_all add: json_append_key_def)
  next
    case False
    then have "json_append_key dp cfg k = (json_encode_exception cfg k ''table key must be a number or string'' :: ('a, unit) enc)"
      using kf_other(2) by (intro ext) (cases k; simp add: json_append_key_def)
    then show ?thesis using safe_exception by metis
  qed
qed

lemma json_comma_safe: "safe cfg (json_comma comma :: ('a, unit) enc) 1"
  by (rule safe_adds [OF json_comma_adds])

lemma json_array_loop_safe:
  assumes "list_all2 (\<lambda>v n. safe cfg (json_append_data dp cfg d v :: ('a, unit) enc) n) (map (lua_rawgeti kvs) [i..<Suc len]) ns"
  shows "safe cfg (json_array_loop dp cfg d kvs len i comma :: ('a, unit) enc) (1 + sum_list (map Suc ns))"
  using assms
proof (induction ns arbitrary: i comma rule: list.induct)
  case Nil
  from list_all2_lengthD [OF Nil] have "\<not> i \<le> len" by (simp del: upt_Suc)
  then have "json_array_loop dp cfg d kvs len i comma = (\<lambda>st :: 'a slab_scheme sb. lift_j (strbuf_append_char 0x5d st))"
    by (intro ext) (simp add: json_array_loop.simps)
  with safe_adds [OF append_char_adds [of "0x5d"]] show ?case by simp
next
  case (Cons n ns)
  from list_all2_lengthD [OF Cons.prems] have i: "i \<le> len" by (simp del: upt_Suc)
  then have upt: "[i..<Suc len] = i # [Suc i..<Suc len]" by (simp add: upt_rec)
  have w: "safe cfg (json_append_data dp cfg d (lua_rawgeti kvs i) :: ('a, unit) enc) n"
    and ws: "list_all2 (\<lambda>v n. safe cfg (json_append_data dp cfg d v :: ('a, unit) enc) n) (map (lua_rawgeti kvs) [Suc i..<Suc len]) ns"
    using Cons.prems unfolding upt by simp_all
  have "safe cfg (\<lambda>st :: 'a slab_scheme sb. bind_j (json_comma comma st) (\<lambda>_ st1.
      bind_j (json_append_data dp cfg d (lua_rawgeti kvs i) st1) (\<lambda>_. json_array_loop dp cfg d kvs len (Suc i) True)))
      (1 + (n + (1 + sum_list (map Suc ns))))"
    by (intro safe_bind json_comma_safe w Cons.IH ws)
  moreover have "json_array_loop dp cfg d kvs len i comma = (\<lambda>st :: 'a slab_scheme sb. bind_j (json_comma comma st) (\<lambda>_ st1.
      bind_j (json_append_data dp cfg d (lua_rawgeti kvs i) st1) (\<lambda>_. json_array_loop dp cfg d kvs len (Suc i) True)))"
    using i by (intro ext) (simp add: json_array_loop.simps [of _ _ _ _ len i])
  ultimately show ?case by simp
qed

lemma json_object_loop_safe:
  assumes "config_ok cfg" "locale_point dp" "list_all2 key_fits (map fst kvs) ks"
    and "list_all2 (\<lambda>v n. safe cfg (json_append_data dp cfg d v :: ('a, unit) enc) n) (map snd kvs) ns"
  shows "safe cfg (json_object_loop dp cfg d kvs comma :: ('a, unit) enc) (1 + sum_list (map2 (\<lambda>k n. k + n + 1) ks ns))"
  using assms(3,4)
proof (induction kvs arbitrary: ks ns comma rule: list.induct)
  case Nil
  then have "json_object_loop dp cfg d [] comma = (\<lambda>st :: 'a slab_scheme sb. lift_j (strbuf_append_char 0x7d st))"
    by (intro ext) simp
  with safe_adds [OF append_char_adds [of "0x7d"]] Nil show ?case by simp
next
  case (Cons kv kvs)
  obtain k v where kv: "kv = (k, v)" by (cases kv)
  from Cons.prems obtain kn ks1 n ns1 where s: "ks = kn # ks1" "ns = n # ns1" by (auto simp: list_all2_Cons1)
  have k: "key_fits k kn" "list_all2 key_fits (map fst kvs) ks1" "safe cfg (json_append_data dp cfg d v :: ('a, unit) enc) n"
    "list_all2 (\<lambda>v n. safe cfg (json_append_data dp cfg d v :: ('a, unit) enc) n) (map snd kvs) ns1"
    using Cons.prems unfolding s kv by simp_all
  let ?f = "\<lambda>st :: 'a slab_scheme sb. bind_j (json_comma comma st) (\<lambda>_ st1. bind_j (json_append_key dp cfg k st1) (\<lambda>_ st2.
     bind_j (json_append_data dp cfg d v st2) (\<lambda>_. json_object_loop dp cfg d kvs True)))"
  have "safe cfg ?f (1 + (kn + (n + (1 + sum_list (map2 (\<lambda>k n. k + n + 1) ks1 ns1)))))"
    by (intro safe_bind json_comma_safe json_append_key_safe assms(1,2) k(1,3) Cons.IH k(2,4))
  moreover have "json_object_loop dp cfg d (kv # kvs) comma = ?f" by (intro ext) (simp add: kv)
  ultimately show ?case by (simp add: s algebra_simps)
qed

lemma json_check_encode_depth_safe: "safe cfg (json_check_encode_depth cfg d) 0"
proof (cases "d \<le> encode_max_depth cfg")
  case True
  then show ?thesis by (intro safe_cong [OF _ safe_done]) (simp add: json_check_encode_depth_def)
next
  case False
  then show ?thesis by (intro safe_cong [OF _ safe_raise]) (simp add: json_check_encode_depth_def)
qed

lemma json_append_data_safe:
  assumes "config_ok cfg" "locale_point dp"
  shows "json_fits cfg v n \<Longrightarrow> safe cfg (json_append_data dp cfg d v :: ('a, unit) enc) n"
proof (induction arbitrary: d rule: json_fits.induct)
  case (jf_string s)
  have "json_append_data dp cfg d (LString s) = (\<lambda>st :: 'a slab_scheme sb. lift_j (json_append_string s st))"
    by (intro ext) (simp add: json_append_data.simps)
  with safe_adds [OF json_append_string_adds [OF jf_string]] show ?case by metis
next
  case (jf_scalar v)
  have lit: "length bs \<le> 5 \<Longrightarrow> safe cfg (\<lambda>st :: 'a slab_scheme sb. lift_j (strbuf_append_mem bs st)) 32" for bs
    by (rule safe_weaken [OF safe_adds [OF append_mem_adds]]) auto
  show ?case
  proof (cases v)
    case (LNumber w)
    then have "json_append_data dp cfg d v = (json_append_number dp cfg w :: ('a, unit) enc)"
      by (intro ext) (simp add: json_append_data.simps)
    with json_append_number_safe [OF assms] show ?thesis by metis
  next
    case LNil
    then have "json_append_data dp cfg d v = (\<lambda>st :: 'a slab_scheme sb. lift_j (strbuf_append_mem (ascii ''null'') st))"
      by (intro ext) (simp add: json_append_data.simps)
    with lit [of "ascii ''null''"] show ?thesis by (simp add: ascii_def)
  next
    case (LBoolean b)
    then have "json_append_data dp cfg d v = (\<lambda>st :: 'a slab_scheme sb. lift_j (strbuf_append_mem (if b then ascii ''true'' else ascii ''false'') st))"
      by (intro ext) (simp add: json_append_data.simps)
    with lit [of "if b then ascii ''true'' else ascii ''false''"] show ?thesis by (simp add: ascii_def)
  next
    case (LLightuserdata p)
    show ?thesis
    proof (cases "p = 0")
      case True
      then have "json_append_data dp cfg d v = (\<lambda>st :: 'a slab_scheme sb. lift_j (strbuf_append_mem (ascii ''null'') st))"
        using LLightuserdata by (intro ext) (simp add: json_append_data.simps)
      with lit [of "ascii ''null''"] show ?thesis by (simp add: ascii_def)
    next
      case False
      then have "json_append_data dp cfg d v = (json_encode_exception cfg v ''type not supported'' :: ('a, unit) enc)"
        using LLightuserdata by (intro ext) (simp add: json_append_data.simps)
      with safe_exception show ?thesis by metis
    qed
  next
    case (LFunction x)
    show ?thesis by (rule safe_cong [OF _ safe_exception [of _ v "''type not supported''"]]) (simp add: LFunction json_append_data.simps)
  next
    case (LUserdata x y)
    show ?thesis by (rule safe_cong [OF _ safe_exception [of _ v "''type not supported''"]]) (simp add: LUserdata json_append_data.simps)
  next
    case (LBuffer x)
    show ?thesis by (rule safe_cong [OF _ safe_exception [of _ v "''type not supported''"]]) (simp add: LBuffer json_append_data.simps)
  next
    case (LThread x)
    show ?thesis by (rule safe_cong [OF _ safe_exception [of _ v "''type not supported''"]]) (simp add: LThread json_append_data.simps)
  qed (use jf_scalar in simp_all)
next
  case (jf_sparse kvs)
  let ?f = "\<lambda>st :: 'a slab_scheme sb. bind_j (json_check_encode_depth cfg (d + 1) st)
      (\<lambda>_. json_encode_exception cfg (LTable kvs) ''excessively sparse array'' :: ('a, unit) enc)"
  have "bind_j (json_encode_exception cfg (LTable kvs) ''excessively sparse array'' st) g =
      json_encode_exception cfg (LTable kvs) ''excessively sparse array'' st" for st :: "'a slab_scheme sb" and g :: "int \<Rightarrow> ('a, unit) enc"
    by (cases st) (simp add: json_encode_exception_def json_raise_def split: sum.splits)
  then have "json_append_data dp cfg d (LTable kvs) = ?f"
    using jf_sparse by (intro ext) (simp add: json_append_data.simps lua_array_length_shape)
  moreover have "safe cfg ?f (0 + 0)" by (intro safe_bind json_check_encode_depth_safe safe_exception)
  ultimately show ?case by simp
next
  case (jf_array kvs len ns)
  let ?f = "\<lambda>st :: 'a slab_scheme sb. bind_j (json_check_encode_depth cfg (d + 1) st)
      (\<lambda>_ st1. bind_j (lift_j (strbuf_append_char 0x5b st1)) (\<lambda>_. json_array_loop dp cfg (d + 1) kvs (nat len) 1 False))"
  have "json_append_data dp cfg d (LTable kvs) = ?f"
    using jf_array(1-3) by (intro ext) (simp add: json_append_data.simps lua_array_length_shape json_append_array.simps)
  moreover have w: "list_all2 (\<lambda>v n. safe cfg (json_append_data dp cfg (d + 1) v :: ('a, unit) enc) n) (map (lua_rawgeti kvs) [1..<Suc (nat len)]) ns"
    using jf_array(4) by (rule list_all2_mono) blast
  have "safe cfg ?f (0 + (1 + (1 + sum_list (map Suc ns))))"
    by (intro safe_bind json_check_encode_depth_safe json_array_loop_safe w) (rule safe_adds, rule append_char_adds)
  ultimately show ?case by simp
next
  case (jf_object kvs len ks ns)
  let ?f = "\<lambda>st :: 'a slab_scheme sb. bind_j (json_check_encode_depth cfg (d + 1) st)
      (\<lambda>_ st1. bind_j (lift_j (strbuf_append_char 0x7b st1)) (\<lambda>_. json_object_loop dp cfg (d + 1) kvs False))"
  have "json_append_data dp cfg d (LTable kvs) = ?f"
    using jf_object(1-3) by (intro ext) (simp add: json_append_data.simps lua_array_length_shape json_append_object.simps)
  moreover have w: "list_all2 (\<lambda>v n. safe cfg (json_append_data dp cfg (d + 1) v :: ('a, unit) enc) n) (map snd kvs) ns"
    using jf_object(5) by (rule list_all2_mono) blast
  have "safe cfg ?f (0 + (1 + (1 + sum_list (map2 (\<lambda>k n. k + n + 1) ks ns))))"
    by (intro safe_bind json_check_encode_depth_safe json_object_loop_safe assms jf_object(4) w) (rule safe_adds, rule append_char_adds)
  ultimately show ?case by simp
qed
section \<open>\<open>json.encode\<close> on every value within the limits\<close>

definition encode_outcome :: "json_config \<times> 'a slab_scheme \<Rightarrow> (json_config \<times> 'a slab_scheme, lval list) jres \<Rightarrow> bool" where
  "encode_outcome st r \<longleftrightarrow>
     (case r of
        Done vs st' \<Rightarrow> (\<exists>e. vs = [LString e]) \<and> encoder_ok st' \<and> encoder_frame st st'
      | Raise msg st' \<Rightarrow> encoder_ok st' \<and> encoder_frame st st'
      | Fault e \<Rightarrow> False)"

lemma json_encode_private:
  assumes "encoder_ok (cfg, h)" "locale_point dp" "json_fits cfg v n" "n < STRBUF_LIMIT" "encode_keep_buffer cfg = 0"
  shows "encode_outcome (cfg, h) (json_encode dp [v] (cfg, h))"
proof -
  have ok: "config_ok cfg" "slab_ok h" "encode_buf cfg = None" using assms(1,5) by (auto simp: encoder_ok_def)
  obtain s h1 where i: "memslice_wrap_strbuf_init 0 h = Inr (s, h1)" "sb_ok (s, h1)" "sb_length s = 0" "sb_fresh h (s, h1)"
    by (rule strbuf_init_ok [OF ok(2), of 0]) (simp_all add: strbuf_size_def STRBUF_DEFAULT_SIZE_def)
  have frame: "encoder_ok (cfg, h') \<and> encoder_frame (cfg, h) (cfg, h')" if "same_use h h'" for h'
    using that ok assms(5) by (simp add: encoder_ok_def encoder_frame_def same_use_def)
  have "length (sb_text (s, h1)) + n < STRBUF_LIMIT" using i(3) assms(4) by simp
  with json_append_data_safe [OF ok(1) assms(2,3), of 0] i(2) have r: "case json_append_data dp cfg 0 v (s, h1) of
      Done r st' \<Rightarrow> sb_ok st' \<and> sb_next (s, h1) st' \<and> length (sb_text st') \<le> length (sb_text (s, h1)) + n
    | Raise msg st' \<Rightarrow> raised cfg (s, h1) st' | Fault e \<Rightarrow> False"
    unfolding safe_def by blast
  show ?thesis
  proof (cases "json_append_data dp cfg 0 v (s, h1)")
    case (Done u st2)
    obtain s2 h2 where st2: "st2 = (s2, h2)" by (cases st2)
    have a: "sb_ok (s2, h2)" "sb_next (s, h1) (s2, h2)" using r Done st2 by auto
    obtain h3 where f: "memslice_wrap_strbuf_free s2 h2 = Inr h3" "same_use h h3"
      by (rule strbuf_free_ok [OF a(1) sb_fresh_next [OF i(4) a(2)]])
    then show ?thesis
      using Done st2 i(1) assms(5) strbuf_string_ok [OF a(1)] frame
      by (simp add: encode_outcome_def json_encode_def)
  next
    case (Raise msg st2)
    obtain s2 h2 where st2: "st2 = (s2, h2)" by (cases st2)
    obtain st1 where a: "sb_ok st1" "sb_next (s, h1) st1" "memslice_wrap_strbuf_free (fst st1) (snd st1) = Inr h2"
      using r Raise st2 assms(5) by (auto simp: raised_def)
    obtain s1' h1' where st1: "st1 = (s1', h1')" by (cases st1)
    obtain h3 where "memslice_wrap_strbuf_free s1' h1' = Inr h3" "same_use h h3"
      by (rule strbuf_free_ok [OF _ sb_fresh_next [OF i(4)]]) (use a(1,2) st1 in auto)
    then show ?thesis
      using Raise st2 i(1) assms(5) frame a(3) st1 by (simp add: encode_outcome_def json_encode_def)
  qed (use r in simp)
qed

lemma json_encode_kept:
  assumes "encoder_ok (cfg, h)" "locale_point dp" "json_fits cfg v n" "n < STRBUF_LIMIT" "encode_keep_buffer cfg \<noteq> 0"
  shows "encode_outcome (cfg, h) (json_encode dp [v] (cfg, h))"
proof -
  obtain buf where ok: "config_ok cfg" "encode_buf cfg = Some buf" "sb_ok (buf, h)"
    using assms(1,5) by (auto simp: encoder_ok_def)
  note z = sb_reset_ok [OF ok(3)]
  have frame: "encoder_ok (cfg\<lparr>encode_buf := Some s2\<rparr>, h2) \<and> encoder_frame (cfg, h) (cfg\<lparr>encode_buf := Some s2\<rparr>, h2)"
    if "sb_ok (s2, h2)" "sb_next (strbuf_reset buf, h) (s2, h2)" for s2 h2
    using that sb_next_trans [OF _ that(2)] z ok assms(5)
    by (auto simp: encoder_ok_def encoder_frame_def config_ok_def sb_ok_def)
  have "length (sb_text (strbuf_reset buf, h)) + n < STRBUF_LIMIT" using z assms(4) by simp
  with json_append_data_safe [OF ok(1) assms(2,3), of 0] z have r: "case json_append_data dp cfg 0 v (strbuf_reset buf, h) of
      Done r st' \<Rightarrow> sb_ok st' \<and> sb_next (strbuf_reset buf, h) st' \<and> length (sb_text st') \<le> length (sb_text (strbuf_reset buf, h)) + n
    | Raise msg st' \<Rightarrow> raised cfg (strbuf_reset buf, h) st' | Fault e \<Rightarrow> False"
    unfolding safe_def by blast
  show ?thesis
  proof (cases "json_append_data dp cfg 0 v (strbuf_reset buf, h)")
    case (Done u st2)
    obtain s2 h2 where st2: "st2 = (s2, h2)" by (cases st2)
    have a: "sb_ok (s2, h2)" "sb_next (strbuf_reset buf, h) (s2, h2)" using r Done st2 by auto
    then show ?thesis
      using Done st2 ok(2) assms(5) strbuf_string_ok [OF a(1)] frame [OF a]
      by (simp add: encode_outcome_def json_encode_def)
  next
    case (Raise msg st2)
    obtain s2 h2 where st2: "st2 = (s2, h2)" by (cases st2)
    have a: "sb_ok (s2, h2)" "sb_next (strbuf_reset buf, h) (s2, h2)" using r Raise st2 assms(5) by (auto simp: raised_def)
    then show ?thesis
      using Raise st2 ok(2) assms(5) frame [OF a] by (simp add: encode_outcome_def json_encode_def)
  qed (use r in simp)
qed

lemma json_encode_safe:
  "encoder_ok (cfg, h) \<Longrightarrow> locale_point dp \<Longrightarrow> json_fits cfg v n \<Longrightarrow> n < STRBUF_LIMIT \<Longrightarrow>
   encode_outcome (cfg, h) (json_encode dp [v] (cfg, h))"
  using json_encode_private json_encode_kept by (cases "encode_keep_buffer cfg = 0") blast+

section \<open>The settings\<close>

definition json_settings :: "json_config \<Rightarrow> bool" where
  "json_settings cfg \<longleftrightarrow> encode_sparse_convert cfg \<in> {0, 1} \<and> 0 \<le> encode_sparse_ratio cfg \<and> encode_sparse_ratio cfg \<le> INT_MAX \<and>
     0 \<le> encode_sparse_safe cfg \<and> encode_sparse_safe cfg \<le> INT_MAX \<and>
     1 \<le> encode_max_depth cfg \<and> encode_max_depth cfg \<le> INT_MAX \<and> encode_invalid_numbers cfg \<in> {0, 1, 2} \<and>
     encode_keep_buffer cfg \<in> {0, 1} \<and> decode_invalid_numbers cfg \<in> {0, 1} \<and>
     1 \<le> decode_max_depth cfg \<and> decode_max_depth cfg \<le> INT_MAX"

definition json_ok :: "json_config \<times> 'a slab_scheme \<Rightarrow> bool" where
  "json_ok st \<longleftrightarrow> encoder_ok st \<and> tables_ok (fst st) \<and> json_settings (fst st)"

lemma leaves_arg_init: "I st \<Longrightarrow> leaves I (json_arg_init args n st)"
  by (simp add: json_arg_init_def)

lemma raise_on_state: "raise_on r s = Done x s' \<Longrightarrow> s' = s \<and> r = Inr x"
  by (auto simp: raise_on_def split: sum.splits fault.splits)

lemma leaves_integer_option:
  assumes "I (cfg, h)" "\<And>k. lo \<le> k \<Longrightarrow> k \<le> hi \<Longrightarrow> I (put k cfg, h)"
  shows "leaves I (json_integer_option L args i get put lo hi (cfg, h))"
  using assms unfolding json_integer_option_def
  by (auto simp: Let_def intro!: leaves_bind leaves_raise_on)

lemma option_index_less: "option_index xs s i = Some k \<Longrightarrow> i \<le> k \<and> k < i + length xs"
  by (induction xs s i rule: option_index.induct) (force split: if_splits)+

lemma luaL_checkoption_range: "luaL_checkoption L v options = Inr k \<Longrightarrow> 0 \<le> k \<and> k < int (length options)"
  using option_index_less by (fastforce simp: luaL_checkoption_def split: option.splits)

text \<open>The new value of an option is the index of a name, or the true value given for booleans.\<close>

lemma leaves_enum_option:
  assumes "I (cfg, h)" "I (put (get cfg) cfg, h)"
    and "\<And>k. 0 \<le> k \<Longrightarrow> k < int (length (case options of None \<Rightarrow> [ascii ''off'', ascii ''on''] | Some os \<Rightarrow> os)) \<Longrightarrow> I (put k cfg, h)"
    and "I (put 1 cfg, h)" "I (put 0 cfg, h)"
  shows "leaves I (json_enum_option L args i get put options 1 (cfg, h))"
proof -
  define os where "os = (case options of None \<Rightarrow> [ascii ''off'', ascii ''on''] | Some os \<Rightarrow> os)"
  have opts: "(case options of None \<Rightarrow> ([ascii ''off'', ascii ''on''], 1) | Some os \<Rightarrow> (os, 1 :: int)) = (os, 1)"
    by (cases options) (simp_all add: os_def)
  have range: "I (put k cfg, h)" if "luaL_checkoption L v os = Inr k" for v k
    using luaL_checkoption_range [OF that] assms(3) by (simp add: os_def)
  show ?thesis
    unfolding json_enum_option_def prod.case opts Let_def
    using assms(1,2,4,5) range
    by (cases "arg args i") (auto intro!: leaves_bind leaves_raise_on dest!: raise_on_state)
qed

lemma json_ok_put:
  assumes "json_ok (cfg, h)"
  shows "0 \<le> k \<Longrightarrow> k < 2 \<Longrightarrow> json_ok (cfg\<lparr>encode_sparse_convert := k\<rparr>, h)"
    and "0 \<le> k \<Longrightarrow> k \<le> INT_MAX \<Longrightarrow> json_ok (cfg\<lparr>encode_sparse_ratio := k\<rparr>, h)"
    and "0 \<le> k \<Longrightarrow> k \<le> INT_MAX \<Longrightarrow> json_ok (cfg\<lparr>encode_sparse_safe := k\<rparr>, h)"
    and "1 \<le> k \<Longrightarrow> k \<le> INT_MAX \<Longrightarrow> json_ok (cfg\<lparr>encode_max_depth := k\<rparr>, h)"
    and "1 \<le> k \<Longrightarrow> k \<le> INT_MAX \<Longrightarrow> json_ok (cfg\<lparr>decode_max_depth := k\<rparr>, h)"
    and "1 \<le> k \<Longrightarrow> k \<le> 14 \<Longrightarrow> json_ok (cfg\<lparr>encode_number_precision := k\<rparr>, h)"
    and "0 \<le> k \<Longrightarrow> k < 3 \<Longrightarrow> json_ok (cfg\<lparr>encode_invalid_numbers := k\<rparr>, h)"
    and "0 \<le> k \<Longrightarrow> k < 2 \<Longrightarrow> json_ok (cfg\<lparr>decode_invalid_numbers := k\<rparr>, h)"
  using assms by (auto simp: json_ok_def encoder_ok_def config_ok_def tables_ok_def json_settings_def)
lemma json_ok_range:
  assumes "json_ok (cfg, h)"
  shows "0 \<le> encode_sparse_convert cfg \<and> encode_sparse_convert cfg < 2"
    and "0 \<le> encode_invalid_numbers cfg \<and> encode_invalid_numbers cfg < 3"
    and "0 \<le> decode_invalid_numbers cfg \<and> decode_invalid_numbers cfg < 2"
  using assms by (auto simp: json_ok_def json_settings_def)

lemma json_cfg_functions:
  fixes st :: "json_config \<times> 'a slab_scheme"
  assumes "json_ok st"
  shows "leaves json_ok (json_cfg_encode_sparse_array L args st)"
    and "leaves json_ok (json_cfg_encode_max_depth L args st)"
    and "leaves json_ok (json_cfg_decode_max_depth L args st)"
    and "leaves json_ok (json_cfg_encode_number_precision L args st)"
    and "leaves json_ok (json_cfg_encode_invalid_numbers L args st)"
    and "leaves json_ok (json_cfg_decode_invalid_numbers L args st)"
proof -
  note init = leaves_arg_init [where I = json_ok, OF assms]
  have int: "leaves json_ok (json_integer_option L args i get put lo hi s)"
    if "json_ok s" "\<And>cfg h k. json_ok (cfg, h :: 'a slab_scheme) \<Longrightarrow> lo \<le> k \<Longrightarrow> k \<le> hi \<Longrightarrow> json_ok (put k cfg, h)"
    for i get put lo hi and s :: "json_config \<times> 'a slab_scheme"
    using leaves_integer_option [of json_ok "fst s" "snd s" lo hi put L args i get] that by (cases s) auto
  have enum: "leaves json_ok (json_enum_option L args i get put os 1 s)"
    if "json_ok s" "\<And>cfg h. json_ok (cfg, h :: 'a slab_scheme) \<Longrightarrow> 0 \<le> get cfg \<and> get cfg < n" "1 < n"
      "\<And>cfg h k. json_ok (cfg, h :: 'a slab_scheme) \<Longrightarrow> 0 \<le> k \<Longrightarrow> k < n \<Longrightarrow> json_ok (put k cfg, h)"
      "n = int (length (case os of None \<Rightarrow> [ascii ''off'', ascii ''on''] | Some os \<Rightarrow> os))"
    for i get put os n and s :: "json_config \<times> 'a slab_scheme"
  proof -
    obtain cfg h where s: "s = (cfg, h)" by (cases s)
    have c: "json_ok (cfg, h)" using that(1) s by simp
    show ?thesis
      unfolding s
    proof (rule leaves_enum_option)
      show "json_ok (put (get cfg) cfg, h)" "json_ok (put 1 cfg, h)" "json_ok (put 0 cfg, h)"
        using that(2) [OF c] that(3) by (auto intro: that(4) [OF c])
    qed (use c in \<open>auto intro: that(4) [OF c] simp: that(5)\<close>)
  qed
  note put = json_ok_put
  show "leaves json_ok (json_cfg_encode_sparse_array L args st)"
    unfolding json_cfg_encode_sparse_array_def
    by (intro leaves_bind init int enum [where n = 2]) (auto intro: put dest: json_ok_range)
  show "leaves json_ok (json_cfg_encode_max_depth L args st)"
    unfolding json_cfg_encode_max_depth_def
    by (intro leaves_bind init int) (auto intro: put)
  show "leaves json_ok (json_cfg_decode_max_depth L args st)"
    unfolding json_cfg_decode_max_depth_def
    by (intro leaves_bind init int) (auto intro: put)
  show "leaves json_ok (json_cfg_encode_number_precision L args st)"
    unfolding json_cfg_encode_number_precision_def
    by (intro leaves_bind init int) (auto intro: put)
  show "leaves json_ok (json_cfg_encode_invalid_numbers L args st)"
    unfolding json_cfg_encode_invalid_numbers_def
    by (intro leaves_bind init enum [where n = 3]) (auto intro: put dest: json_ok_range)
  show "leaves json_ok (json_cfg_decode_invalid_numbers L args st)"
    unfolding json_cfg_decode_invalid_numbers_def
    by (intro leaves_bind init enum [where n = 2]) (auto intro: put dest: json_ok_range)
qed
text \<open>Keeping the buffer or not: it is allocated or freed when the setting changes.\<close>

lemma json_enum_option_raise: "json_enum_option L args i get put os b (cfg, h) = Raise m st' \<Longrightarrow> st' = (cfg, h)"
  by (auto simp: json_enum_option_def Let_def bind_j_def raise_on_def split: lval.splits jres.splits if_splits option.splits sum.splits fault.splits)

lemma json_cfg_encode_keep_buffer_ok:
  fixes h :: "'a slab_scheme"
  assumes "json_ok (cfg, h)"
  shows "leaves json_ok (json_cfg_encode_keep_buffer L args (cfg, h))"
proof -
  let ?enum = "json_enum_option L args 1 encode_keep_buffer (\<lambda>n. encode_keep_buffer_update (\<lambda>_. n)) None 1 (cfg, h)"
  have ok: "slab_ok h" "config_ok cfg" "encode_keep_buffer cfg \<in> {0, 1}"
      "if encode_keep_buffer cfg = 0 then encode_buf cfg = None else \<exists>buf. encode_buf cfg = Some buf \<and> sb_ok (buf, h)"
    using assms by (auto simp: json_ok_def encoder_ok_def json_settings_def sb_ok_def split: if_splits)
  have put: "json_ok (cfg\<lparr>encode_keep_buffer := k, encode_buf := b\<rparr>, h')"
    if "k \<in> {0, 1}" "slab_ok h'" "if k = 0 then b = None else \<exists>buf. b = Some buf \<and> sb_ok (buf, h')"
    for k b and h' :: "'a slab_scheme"
    using assms that ok by (auto simp: json_ok_def encoder_ok_def json_settings_def tables_ok_def config_ok_def)
  show ?thesis
  proof (cases "length args \<le> 1")
    case False
    then show ?thesis using assms by (simp add: json_cfg_encode_keep_buffer_def json_arg_init_def)
  next
    case True
    have outcome: "leaves (\<lambda>s. \<exists>k \<ge> 0. k < 2 \<and> s = (cfg\<lparr>encode_keep_buffer := k\<rparr>, h)) ?enum"
    proof (rule leaves_enum_option)
      have cur: "0 \<le> encode_keep_buffer cfg \<and> encode_keep_buffer cfg < 2" using ok(3) by auto
      show "\<exists>k\<ge>0. k < 2 \<and> (cfg, h) = (cfg\<lparr>encode_keep_buffer := k\<rparr>, h)"
        by (rule exI [of _ "encode_keep_buffer cfg"]) (simp add: cur)
      show "\<exists>k\<ge>0. k < 2 \<and> (cfg\<lparr>encode_keep_buffer := encode_keep_buffer cfg\<rparr>, h) = (cfg\<lparr>encode_keep_buffer := k\<rparr>, h)"
        by (rule exI [of _ "encode_keep_buffer cfg"]) (simp add: cur)
      show "\<exists>k\<ge>0. k < 2 \<and> (cfg\<lparr>encode_keep_buffer := 1\<rparr>, h) = (cfg\<lparr>encode_keep_buffer := k\<rparr>, h)"
        by (rule exI [of _ 1]) simp
      show "\<exists>k\<ge>0. k < 2 \<and> (cfg\<lparr>encode_keep_buffer := 0\<rparr>, h) = (cfg\<lparr>encode_keep_buffer := k\<rparr>, h)"
        by (rule exI [of _ 0]) simp
    next
      fix j :: int assume "0 \<le> j" "j < int (length (case (None :: byte list list option) of None \<Rightarrow> [ascii ''off'', ascii ''on''] | Some os \<Rightarrow> os))"
      then show "\<exists>k\<ge>0. k < 2 \<and> (cfg\<lparr>encode_keep_buffer := j\<rparr>, h) = (cfg\<lparr>encode_keep_buffer := k\<rparr>, h)"
        by (intro exI [of _ j]) simp
    qed
    consider v k where "?enum = Done v (cfg\<lparr>encode_keep_buffer := k\<rparr>, h)" "0 \<le> k" "k < 2"
      | m where "?enum = Raise m (cfg, h)" | e where "?enum = Fault e"
    proof (cases ?enum)
      case (Raise m st')
      then have "?enum = Raise m (cfg, h)" using json_enum_option_raise [OF Raise] by simp
      with that(2) show ?thesis by blast
    qed (use that outcome in auto)
    then show ?thesis
    proof cases
      case (1 v k)
      consider "encode_keep_buffer cfg = k" | "encode_keep_buffer cfg = 0" "k = 1" | "encode_keep_buffer cfg = 1" "k = 0"
        using 1(2,3) ok(3) by fastforce
      then show ?thesis
      proof cases
        case a: 1
        have "cfg\<lparr>encode_keep_buffer := k\<rparr> = cfg" unfolding a [symmetric] by simp
        with a assms 1(1) True show ?thesis by (simp add: json_cfg_encode_keep_buffer_def json_arg_init_def Let_def)
      next
        case a: 2
        obtain s h' where s: "memslice_wrap_strbuf_init 0 h = Inr (s, h')" "sb_ok (s, h')"
          by (rule strbuf_init_ok [OF ok(1), of 0]) (simp_all add: strbuf_size_def STRBUF_DEFAULT_SIZE_def)
        have "slab_ok h'" using s(2) by (simp add: sb_ok_def)
        with put [of 1 h' "Some s"] s a 1(1) True show ?thesis
          by (simp add: json_cfg_encode_keep_buffer_def json_arg_init_def Let_def)
      next
        case a: 3
        then obtain buf where b: "encode_buf cfg = Some buf" "sb_ok (buf, h)" using ok(4) by auto
        have held: "0 < refs h (ms_mb (sb_ms buf))" using b(2) by (simp add: sb_ok_def)
        obtain k' h' where "lev_slab_decRefCount (Some (ms_mb (sb_ms buf))) 1 h = Inr (k', h')" "slab_ok h'"
          by (rule decRef_ok [OF ok(1) held])
        with put [of 0 h' None] a b 1(1) True show ?thesis
          by (simp add: json_cfg_encode_keep_buffer_def json_arg_init_def Let_def json_destroy_config_def memslice_wrap_strbuf_free_def)
      qed
    next
      case (2 m)
      with assms True show ?thesis by (simp add: json_cfg_encode_keep_buffer_def json_arg_init_def Let_def)
    next
      case (3 e)
      with True show ?thesis by (simp add: json_cfg_encode_keep_buffer_def json_arg_init_def Let_def)
    qed
  qed
qed

section \<open>All sequences of calls\<close>

text \<open>The entries of the table \<open>functions\<close>; encode and decode are wrapped by \<open>luaopen_lev_json\<close>.\<close>

datatype json_function =
    J_encode | J_decode | J_encode_sparse_array | J_encode_max_depth | J_decode_max_depth
  | J_encode_number_precision | J_encode_keep_buffer | J_encode_invalid_numbers | J_decode_invalid_numbers

fun json_call :: "lua_lib \<Rightarrow> byte \<Rightarrow> json_function \<Rightarrow> lval list \<Rightarrow> json_config \<times> 'a slab_scheme \<Rightarrow>
    (json_config \<times> 'a slab_scheme, lval list) jres" where
  "json_call L dp J_encode args = json_protect_conversion (json_encode dp) args"
| "json_call L dp J_decode args = json_protect_conversion (json_decode L dp) args"
| "json_call L dp J_encode_sparse_array args = json_cfg_encode_sparse_array L args"
| "json_call L dp J_encode_max_depth args = json_cfg_encode_max_depth L args"
| "json_call L dp J_decode_max_depth args = json_cfg_decode_max_depth L args"
| "json_call L dp J_encode_number_precision args = json_cfg_encode_number_precision L args"
| "json_call L dp J_encode_keep_buffer args = json_cfg_encode_keep_buffer L args"
| "json_call L dp J_encode_invalid_numbers args = json_cfg_encode_invalid_numbers L args"
| "json_call L dp J_decode_invalid_numbers args = json_cfg_decode_invalid_numbers L args"

text \<open>
  The limits of a call: a value the encoder has room for, a text the largest block can hold.
\<close>

definition json_within :: "lua_lib \<Rightarrow> json_config \<Rightarrow> json_function \<Rightarrow> lval list \<Rightarrow> bool" where
  "json_within L cfg f args \<longleftrightarrow> length args = 1 \<longrightarrow>
     (f = J_encode \<longrightarrow> (\<exists>n < STRBUF_LIMIT. json_fits cfg (args ! 0) n)) \<and>
     (f = J_decode \<longrightarrow> (\<forall>s. lua_tolstring L (args ! 0) = Some s \<longrightarrow> length s < STRBUF_LIMIT))"

text \<open>
  What happens to the module: a call, which returns or raises, or something else in the process that
  uses the heap and leaves the block of the encoder's buffer alone.
\<close>

inductive json_reachable :: "lua_lib \<Rightarrow> byte \<Rightarrow> json_config \<times> 'a slab_scheme \<Rightarrow> bool" for L dp where
  jr_open: "slab_ok h \<Longrightarrow> json_create_config h = Inr st \<Longrightarrow> json_reachable L dp st"
| jr_returns: "json_reachable L dp (cfg, h) \<Longrightarrow> json_within L cfg f args \<Longrightarrow>
    json_call L dp f args (cfg, h) = Done vs st' \<Longrightarrow> json_reachable L dp st'"
| jr_raises: "json_reachable L dp (cfg, h) \<Longrightarrow> json_within L cfg f args \<Longrightarrow>
    json_call L dp f args (cfg, h) = Raise msg st' \<Longrightarrow> json_reachable L dp st'"
| jr_others: "json_reachable L dp (cfg, h) \<Longrightarrow> slab_ok h' \<Longrightarrow>
    (\<forall>buf. encode_buf cfg = Some buf \<longrightarrow> blocks h' (ms_mb (sb_ms buf)) = blocks h (ms_mb (sb_ms buf))) \<Longrightarrow>
    json_reachable L dp (cfg, h')"

lemma json_create_config_ok:
  assumes "slab_ok h"
  obtains cfg h' where "json_create_config h = Inr (cfg, h')" "json_ok (cfg, h')"
proof -
  obtain s h' where s: "memslice_wrap_strbuf_init 0 h = Inr (s, h')" "sb_ok (s, h')"
    by (rule strbuf_init_ok [OF assms, of 0]) (simp_all add: strbuf_size_def STRBUF_DEFAULT_SIZE_def)
  then show thesis
    by (intro that) (auto simp: json_create_config_def json_ok_def encoder_ok_def config_ok_def tables_ok_def json_settings_def sb_ok_def)
qed

lemma json_encode_settings:
  "json_encode dp [v] (cfg, h) = Done r (cfg', h') \<or> json_encode dp [v] (cfg, h) = Raise m (cfg', h') \<Longrightarrow>
   cfg' = cfg \<or> (\<exists>b. cfg' = cfg\<lparr>encode_buf := b\<rparr>)"
  by (auto simp: json_encode_def Let_def split: sum.splits jres.splits if_splits option.splits)

lemma json_settings_buf: "tables_ok (cfg\<lparr>encode_buf := b\<rparr>) = tables_ok cfg" "json_settings (cfg\<lparr>encode_buf := b\<rparr>) = json_settings cfg"
  by (simp_all add: tables_ok_def json_settings_def)

text \<open>Encoding and decoding within the limits return, and leave the state in order.\<close>

lemma json_protect_ok:
  assumes "leaves I (f args st)" "\<And>e. f args st \<noteq> Fault e" "length args = 1"
  shows "\<exists>vs st'. json_protect_conversion f args st = Done vs st' \<and> I st'"
  using assms by (cases "f args st") (auto simp: json_protect_conversion_def)

lemma json_encode_call:
  assumes "json_ok (cfg, h)" "locale_point dp" "json_within L cfg J_encode args" "length args = 1"
  shows "\<exists>vs st'. json_call L dp J_encode args (cfg, h) = Done vs st' \<and> json_ok st'"
proof -
  obtain v where v: "args = [v]" using assms(4) by (cases args) auto
  obtain n where n: "json_fits cfg v n" "n < STRBUF_LIMIT" using assms(3,4) v by (auto simp: json_within_def)
  have e: "encode_outcome (cfg, h) (json_encode dp [v] (cfg, h))"
    using assms(1) by (intro json_encode_safe [OF _ assms(2) n]) (simp add: json_ok_def)
  have "leaves json_ok (json_encode dp [v] (cfg, h))"
  proof (cases "json_encode dp [v] (cfg, h)")
    case (Done r st')
    then show ?thesis using e assms(1) json_encode_settings [of dp v cfg h r "fst st'" "snd st'"]
      by (auto simp: encode_outcome_def json_ok_def json_settings_buf)
  next
    case (Raise m st')
    then show ?thesis using e assms(1) json_encode_settings [of dp v cfg h _ "fst st'" "snd st'" m]
      by (auto simp: encode_outcome_def json_ok_def json_settings_buf)
  qed simp
  moreover have "json_encode dp [v] (cfg, h) \<noteq> Fault x" for x using e by (auto simp: encode_outcome_def)
  ultimately show ?thesis unfolding v json_call.simps by (rule json_protect_ok) simp
qed

lemma encoder_ok_same_use: "encoder_ok (cfg, h) \<Longrightarrow> same_use h h' \<Longrightarrow> encoder_ok (cfg, h')"
  by (auto simp: encoder_ok_def same_use_def sb_ok_def memslice_ok_def split: if_splits)

lemma json_decode_call:
  assumes "json_ok (cfg, h)" "json_within L cfg J_decode args" "length args = 1"
  shows "\<exists>vs st'. json_call L dp J_decode args (cfg, h) = Done vs st' \<and> json_ok st'"
proof -
  obtain v where v: "args = [v]" using assms(3) by (cases args) auto
  have r: "leaves json_ok (json_decode L dp [v] (cfg, h)) \<and> (\<forall>e. json_decode L dp [v] (cfg, h) \<noteq> Fault e)"
  proof (cases "lua_tolstring L v")
    case None
    then show ?thesis using assms(1) by (simp add: json_decode_def)
  next
    case (Some s)
    then have len: "length s < 1024 * 1024" using assms(2,3) v by (simp add: json_within_def STRBUF_LIMIT_def)
    have "slab_ok h" "tables_ok cfg" using assms(1) by (auto simp: json_ok_def encoder_ok_def)
    from json_decode_text_safe [OF this len, of dp] assms(1) Some show ?thesis
      by (cases "json_decode_text dp s (cfg, h)") (auto simp: json_decode_def json_ok_def intro: encoder_ok_same_use)
  qed
  show ?thesis unfolding v json_call.simps by (rule json_protect_ok) (use r in simp_all)
qed

lemma json_call_leaves:
  assumes "json_ok (cfg, h)" "locale_point dp" "json_within L cfg f args"
  shows "leaves json_ok (json_call L dp f args (cfg, h))"
proof (cases f)
  case J_encode
  show ?thesis
  proof (cases "length args = 1")
    case True
    then obtain vs st' where "json_call L dp J_encode args (cfg, h) = Done vs st'" "json_ok st'"
      using json_encode_call [OF assms(1,2)] assms(3) J_encode by blast
    then show ?thesis by (simp only: J_encode leaves_simps)
  qed (use assms(1) in \<open>simp add: J_encode json_protect_conversion_def\<close>)
next
  case J_decode
  show ?thesis
  proof (cases "length args = 1")
    case True
    then obtain vs st' where "json_call L dp J_decode args (cfg, h) = Done vs st'" "json_ok st'"
      using json_decode_call [OF assms(1)] assms(3) J_decode by blast
    then show ?thesis by (simp only: J_decode leaves_simps)
  qed (use assms(1) in \<open>simp add: J_decode json_protect_conversion_def\<close>)
qed (use json_cfg_functions [OF assms(1)] json_cfg_encode_keep_buffer_ok [OF assms(1)] in simp_all)

lemma json_reachable_ok:
  assumes "locale_point dp" "json_reachable L dp st"
  shows "json_ok st"
  using assms(2)
proof (induction rule: json_reachable.induct)
  case (jr_open h st)
  then show ?case using json_create_config_ok by (metis sum.inject(2))
next
  case (jr_returns cfg h f args vs st')
  from json_call_leaves [OF jr_returns.IH assms(1) jr_returns(2)] jr_returns(3) show ?case by simp
next
  case (jr_raises cfg h f args msg st')
  from json_call_leaves [OF jr_raises.IH assms(1) jr_raises(2)] jr_raises(3) show ?case by simp
next
  case (jr_others cfg h h')
  then show ?case by (auto simp: json_ok_def encoder_ok_def sb_ok_def memslice_ok_def refs_def split: if_splits)
qed

end
