(* ===== verification/Json_Types.thy ===== *)
theory Json_Types
  imports Json_Module "HOL-Library.AList"
begin

text \<open>
  The type of what \<open>json.decode\<close> returns, whatever the text: null, booleans, numbers, strings, arrays
  whose keys are 1, 2 and so on without a gap, and objects whose keys are strings; nested no deeper
  than the setting allows. The type is proved of every function of the parser by induction on its fuel.
\<close>

definition member_entries :: "(byte list \<times> lval) list \<Rightarrow> ltable" where
  "member_entries ms = map (\<lambda>(k, v). (LString k, v)) ms"

text \<open>\<open>json_value md d v\<close>: the value \<open>v\<close>, found inside of \<open>d\<close> tables, has no more than \<open>md\<close> around any part.\<close>

inductive json_value :: "int \<Rightarrow> int \<Rightarrow> lval \<Rightarrow> bool" for md where
  jv_null: "json_value md d (LLightuserdata 0)"
| jv_boolean: "json_value md d (LBoolean b)"
| jv_number: "json_value md d (LNumber w)"
| jv_string: "json_value md d (LString s)"
| jv_array: "d + 1 \<le> md \<Longrightarrow> \<forall>v \<in> set vs. json_value md (d + 1) v \<Longrightarrow> json_value md d (LTable (seq_entries 0 vs))"
| jv_object: "d + 1 \<le> md \<Longrightarrow> distinct (map fst ms) \<Longrightarrow> \<forall>(k, v) \<in> set ms. json_value md (d + 1) v \<Longrightarrow>
    json_value md d (LTable (member_entries ms))"

inductive_simps json_value_scalar [simp]:
  "json_value md d LNil" "json_value md d (LFunction f)" "json_value md d (LUserdata b n)"
  "json_value md d (LBuffer m)" "json_value md d (LThread n)"

lemma json_value_not_nil: "json_value md d v \<Longrightarrow> v \<noteq> LNil"
  by auto

section \<open>Tables that grow\<close>

lemma tset_member:
  assumes "v \<noteq> LNil"
  shows "tset (member_entries ms) (LString k) v = member_entries (AList.update k v ms)"
  using assms by (induction ms) (auto simp: member_entries_def)

lemma update_values:
  "(k', v') \<in> set (AList.update k v ms) \<Longrightarrow> (k', v') = (k, v) \<or> (k', v') \<in> set ms"
  by (induction ms) (auto split: if_splits)

definition members_typed :: "int \<Rightarrow> int \<Rightarrow> ltable \<Rightarrow> bool" where
  "members_typed md d kvs \<longleftrightarrow> (\<exists>ms. kvs = member_entries ms \<and> distinct (map fst ms) \<and> (\<forall>(k, v) \<in> set ms. json_value md d v))"

lemma members_typed_set:
  assumes "members_typed md d kvs" "json_value md d v"
  shows "members_typed md d (tset kvs (LString k) v)"
proof -
  obtain ms where ms: "kvs = member_entries ms" "distinct (map fst ms)" "\<forall>(k, v) \<in> set ms. json_value md d v"
    using assms(1) by (auto simp: members_typed_def)
  have "distinct (map fst (AList.update k v ms))" by (rule distinct_update [OF ms(2)])
  moreover have "\<forall>(k', v') \<in> set (AList.update k v ms). json_value md d v'"
    using ms(3) assms(2) by (auto dest: update_values)
  ultimately show ?thesis
    unfolding members_typed_def ms(1) tset_member [OF json_value_not_nil [OF assms(2)]] by blast
qed

definition items_typed :: "int \<Rightarrow> int \<Rightarrow> ltable \<Rightarrow> nat \<Rightarrow> bool" where
  "items_typed md d kvs i \<longleftrightarrow> (\<exists>vs. kvs = seq_entries 0 vs \<and> i = Suc (length vs) \<and> (\<forall>v \<in> set vs. json_value md d v))"

lemma items_typed_set:
  assumes "items_typed md d kvs i" "json_value md d v" "i < 2 ^ 31"
  shows "items_typed md d (lua_rawseti kvs i v) (Suc i)"
proof -
  obtain vs where vs: "kvs = seq_entries 0 vs" "i = Suc (length vs)" "\<forall>v \<in> set vs. json_value md d v"
    using assms(1) by (auto simp: items_typed_def)
  have "lua_rawseti kvs i v = seq_entries 0 (vs @ [v])"
    unfolding vs(1,2) using assms(3) vs(2) json_value_not_nil [OF assms(2)] by (intro lua_rawseti_seq) auto
  then show ?thesis using vs assms(2) by (auto simp: items_typed_def intro!: exI [of _ "vs @ [v]"])
qed

lemma members_typed_Nil: "members_typed md d []"
  unfolding members_typed_def by (intro exI [of _ "[]"]) (simp add: member_entries_def)

lemma items_typed_Nil: "items_typed md d [] 1"
  unfolding items_typed_def by (intro exI [of _ "[]"]) simp

lemma members_typed_value: "members_typed md (d + 1) kvs \<Longrightarrow> d + 1 \<le> md \<Longrightarrow> json_value md d (LTable kvs)"
  by (auto simp: members_typed_def intro: jv_object)

lemma items_typed_value: "items_typed md (d + 1) kvs i \<Longrightarrow> d + 1 \<le> md \<Longrightarrow> json_value md d (LTable kvs)"
  by (auto simp: items_typed_def intro: jv_array)

section \<open>Errors and tokens\<close>

lemma returns_throw [simp]: "returns P (json_throw m st)" "returns P (json_throw_parse_error e token st)"
  by (simp_all add: json_throw_parse_error_def json_throw_def bind_r_def Let_def split: sum.splits)

text \<open>A token is read at the same depth.\<close>

abbreviation at_depth :: "int \<Rightarrow> 'r \<Rightarrow> 'h json_parse \<Rightarrow> bool" where
  "at_depth d \<equiv> \<lambda>_ st. jp_depth st = d"

lemma on_tmp_depth: "jp_depth st = d \<Longrightarrow> returns (at_depth d) (on_tmp f st)"
  by (auto simp: on_tmp_def bind_r_def split: sum.splits)

lemma json_append_unicode_escape_depth:
  "jp_depth st = d \<Longrightarrow> returns (at_depth d) (json_append_unicode_escape data st)"
  unfolding json_append_unicode_escape_def Let_def
  by (rule returns_bind_r) (auto split: option.splits intro!: returns_bind [OF on_tmp_depth])

lemma json_string_loop_depth: "jp_depth st = d \<Longrightarrow> returns (at_depth d) (json_string_loop data cfg st)"
proof (induction data cfg st rule: json_string_loop.induct)
  case (1 data cfg st)
  show ?case
  proof (subst json_string_loop.simps, rule returns_bind_r)
    fix ch assume ch: "peek data (jp_ptr st) = Inr ch"
    have esc: "returns (at_depth d) (bind_j (json_append_unicode_escape data st) (\<lambda>r st1.
        if r = 0 then json_string_loop data cfg st1 else Done (Some ''invalid unicode escape code'') st1))"
      if a: "ch = 0x5c" "peek data (jp_ptr st + 1) = Inr ch1" "escape2char cfg ch1 = 0x75" for ch1
    proof (cases "json_append_unicode_escape data st")
      case (Done r st1)
      then have d: "jp_depth st1 = d" using json_append_unicode_escape_depth [OF 1(4), of data] by simp
      show ?thesis using Done d a ch 1(1) by (cases "r = 0") auto
    qed simp_all
    have app: "returns (at_depth d) (bind_j (on_tmp (strbuf_append_char_unsafe c) (s :: 'a slab_scheme json_parse)) (\<lambda>_ st1.
        json_string_loop data cfg (st1\<lparr>jp_ptr := jp_ptr st1 + 1\<rparr>)))"
      if "jp_depth s = d" and rec: "\<And>st1. on_tmp (strbuf_append_char_unsafe c) s = Done () st1 \<Longrightarrow> jp_depth st1 = d \<Longrightarrow>
          returns (at_depth d) (json_string_loop data cfg (st1\<lparr>jp_ptr := jp_ptr st1 + 1\<rparr>))" for c s
      using on_tmp_depth [OF that(1), of "strbuf_append_char_unsafe c"] rec
      by (cases "on_tmp (strbuf_append_char_unsafe c) s") auto
    show "returns (at_depth d) (if ch = 0x22 then Done None st
       else if ch = 0 then Done (Some ''unexpected end of string'') st
       else if ch = 0x5c then
         bind_r (peek data (jp_ptr st + 1)) (\<lambda>ch1.
           let ch2 = escape2char cfg ch1 in
           if ch2 = 0x75 then
             bind_j (json_append_unicode_escape data st) (\<lambda>r st1.
               if r = 0 then json_string_loop data cfg st1
               else Done (Some ''invalid unicode escape code'') st1)
           else if ch2 = 0 then Done (Some ''invalid escape code'') st
           else
             bind_j (on_tmp (strbuf_append_char_unsafe ch2) (st\<lparr>jp_ptr := jp_ptr st + 1\<rparr>)) (\<lambda>_ st1.
               json_string_loop data cfg (st1\<lparr>jp_ptr := jp_ptr st1 + 1\<rparr>)))
       else
         bind_j (on_tmp (strbuf_append_char_unsafe ch) st) (\<lambda>_ st1.
           json_string_loop data cfg (st1\<lparr>jp_ptr := jp_ptr st1 + 1\<rparr>)))"
    proof (cases "ch = 0x22 \<or> ch = 0")
      case True
      then show ?thesis using 1(4) by auto
    next
      case False
      show ?thesis
      proof (cases "ch = 0x5c")
        case True
        have "returns (at_depth d) (bind_r (peek data (jp_ptr st + 1)) (\<lambda>ch1.
           let ch2 = escape2char cfg ch1 in
           if ch2 = 0x75 then
             bind_j (json_append_unicode_escape data st) (\<lambda>r st1.
               if r = 0 then json_string_loop data cfg st1
               else Done (Some ''invalid unicode escape code'') st1)
           else if ch2 = 0 then Done (Some ''invalid escape code'') st
           else
             bind_j (on_tmp (strbuf_append_char_unsafe ch2) (st\<lparr>jp_ptr := jp_ptr st + 1\<rparr>)) (\<lambda>_ st1.
               json_string_loop data cfg (st1\<lparr>jp_ptr := jp_ptr st1 + 1\<rparr>))))"
        proof (rule returns_bind_r)
          fix ch1 assume ch1: "peek data (jp_ptr st + 1) = Inr ch1"
          show "returns (at_depth d) (let ch2 = escape2char cfg ch1 in
           if ch2 = 0x75 then
             bind_j (json_append_unicode_escape data st) (\<lambda>r st1.
               if r = 0 then json_string_loop data cfg st1
               else Done (Some ''invalid unicode escape code'') st1)
           else if ch2 = 0 then Done (Some ''invalid escape code'') st
           else
             bind_j (on_tmp (strbuf_append_char_unsafe ch2) (st\<lparr>jp_ptr := jp_ptr st + 1\<rparr>)) (\<lambda>_ st1.
               json_string_loop data cfg (st1\<lparr>jp_ptr := jp_ptr st1 + 1\<rparr>)))"
            using esc [OF True ch1] app [of "st\<lparr>jp_ptr := jp_ptr st + 1\<rparr>"] 1(2) [OF ch _ _ _ ch1] 1(4) False True
            by (auto simp: Let_def)
        qed
        with False True show ?thesis by simp
      next
        case False2: False
        with False show ?thesis using app [OF 1(4), of ch] 1(3) [OF ch] by auto
      qed
    qed
  qed
qed
lemma json_set_token_error_depth [simp]:
  "returns (at_depth d) (json_set_token_error token e st) \<longleftrightarrow> jp_depth st = d"
  by (simp add: json_set_token_error_def)

lemma json_next_string_token_depth:
  assumes "jp_depth st = d"
  shows "returns (at_depth d) (json_next_string_token data cfg token st)"
  unfolding json_next_string_token_def
proof (rule returns_bind_r)
  fix c :: byte
  let ?st = "st\<lparr>jp_ptr := jp_ptr st + 1, jp_tmp := strbuf_reset (jp_tmp st)\<rparr>"
  have d: "jp_depth ?st = d" using assms by simp
  have "returns (at_depth d) (bind_j (json_string_loop data cfg ?st) (\<lambda>r st1.
      case r of
        Some errtype \<Rightarrow> json_set_token_error token errtype st1
      | None \<Rightarrow>
          bind_j (on_tmp strbuf_ensure_null (st1\<lparr>jp_ptr := jp_ptr st1 + 1\<rparr>)) (\<lambda>_ st2.
            bind_r (memslice_wrap_strbuf_string (jp_tmp st2) (jp_heap st2)) (\<lambda>s.
              Done (token\<lparr>tok_type := T_STRING, tok_string := s\<rparr>) st2))))"
    by (rule returns_bind [OF json_string_loop_depth [OF d]])
       (auto split: option.splits intro!: returns_bind [OF on_tmp_depth] returns_bind_r)
  then show "returns (at_depth d) (if c \<noteq> 0x22 then Fault Assert_failed else
      bind_j (json_string_loop data cfg ?st) (\<lambda>r st1.
        case r of
          Some errtype \<Rightarrow> json_set_token_error token errtype st1
        | None \<Rightarrow>
            bind_j (on_tmp strbuf_ensure_null (st1\<lparr>jp_ptr := jp_ptr st1 + 1\<rparr>)) (\<lambda>_ st2.
              bind_r (memslice_wrap_strbuf_string (jp_tmp st2) (jp_heap st2)) (\<lambda>s.
                Done (token\<lparr>tok_type := T_STRING, tok_string := s\<rparr>) st2))))"
    by simp
qed

lemma json_next_number_token_depth:
  "jp_depth st = d \<Longrightarrow> returns (at_depth d) (json_next_number_token dp data token st)"
  by (simp add: json_next_number_token_def Let_def split: prod.splits)

lemma json_next_token_depth:
  assumes "jp_depth st = d"
  shows "returns (at_depth d) (json_next_token dp data cfg token st)"
  unfolding json_next_token_def Let_def
  by (rule returns_bind_r)
     (auto simp: assms intro!: returns_bind_r json_next_string_token_depth json_next_number_token_depth)

lemma json_decode_descend_depth:
  "returns (\<lambda>_ st'. jp_depth st' = jp_depth st + 1 \<and> jp_depth st + 1 \<le> decode_max_depth cfg) (json_decode_descend cfg st)"
  by (simp add: json_decode_descend_def Let_def)

section \<open>The parser\<close>

abbreviation typed :: "int \<Rightarrow> int \<Rightarrow> lval \<Rightarrow> 'h json_parse \<Rightarrow> bool" where
  "typed md d \<equiv> \<lambda>v st. json_value md d v \<and> jp_depth st = d"

text \<open>What holds of the parser's functions with fuel \<open>f\<close>; the index of an item is bounded by the fuel used up.\<close>

definition value_typed :: "byte \<Rightarrow> byte list \<Rightarrow> json_config \<Rightarrow> nat \<Rightarrow> 'a itself \<Rightarrow> bool" where
  "value_typed dp data cfg f (_ :: 'a itself) \<longleftrightarrow> (\<forall>token (st :: 'a slab_scheme json_parse). f < 2 ^ 30 \<longrightarrow>
     returns (typed (decode_max_depth cfg) (jp_depth st)) (json_process_value f dp data cfg token st))"

definition contexts_typed :: "byte \<Rightarrow> byte list \<Rightarrow> json_config \<Rightarrow> nat \<Rightarrow> 'a itself \<Rightarrow> bool" where
  "contexts_typed dp data cfg f (_ :: 'a itself) \<longleftrightarrow> (\<forall>token (st :: 'a slab_scheme json_parse). f < 2 ^ 30 \<longrightarrow>
     returns (typed (decode_max_depth cfg) (jp_depth st)) (json_parse_object_context f dp data cfg token st) \<and>
     returns (typed (decode_max_depth cfg) (jp_depth st)) (json_parse_array_context f dp data cfg token st))"

definition loops_typed :: "byte \<Rightarrow> byte list \<Rightarrow> json_config \<Rightarrow> nat \<Rightarrow> 'a itself \<Rightarrow> bool" where
  "loops_typed dp data cfg f (_ :: 'a itself) \<longleftrightarrow>
     (\<forall>kvs i token d (st :: 'a slab_scheme json_parse). f < 2 ^ 30 \<longrightarrow> jp_depth st = d + 1 \<longrightarrow> d + 1 \<le> decode_max_depth cfg \<longrightarrow>
        (members_typed (decode_max_depth cfg) (d + 1) kvs \<longrightarrow>
           returns (typed (decode_max_depth cfg) d) (json_object_pairs f dp data cfg kvs token st)) \<and>
        (items_typed (decode_max_depth cfg) (d + 1) kvs i \<longrightarrow> i + f < 2 ^ 31 \<longrightarrow>
           returns (typed (decode_max_depth cfg) d) (json_array_items f dp data cfg kvs i token st)))"

lemma value_typed_Suc: "contexts_typed dp data cfg f TYPE('a) \<Longrightarrow> value_typed dp data cfg (Suc f) TYPE('a)"
  by (auto simp: value_typed_def contexts_typed_def intro: json_value.intros split: json_token_type.split)

lemma contexts_typed_Suc:
  assumes "loops_typed dp data cfg f TYPE('a)"
  shows "contexts_typed dp data cfg (Suc f) TYPE('a)"
  unfolding contexts_typed_def
proof (intro allI impI)
  fix token and st :: "'a slab_scheme json_parse" assume f: "Suc f < 2 ^ 30"
  let ?md = "decode_max_depth cfg" and ?d = "jp_depth st"
  note loops = assms [unfolded loops_typed_def, rule_format]
  have pairs: "returns (typed ?md ?d) (json_object_pairs f dp data cfg [] token2 st2)"
    and items: "returns (typed ?md ?d) (json_array_items f dp data cfg [] 1 token2 st2)"
    if "jp_depth st2 = ?d + 1" "?d + 1 \<le> ?md" for token2 and st2 :: "'a slab_scheme json_parse"
    using loops [of st2 ?d] that f members_typed_Nil items_typed_Nil by simp_all
  have empty: "typed ?md ?d (LTable []) (json_decode_ascend st2)" if "jp_depth st2 = ?d + 1" "?d + 1 \<le> ?md"
    for st2 :: "'a slab_scheme json_parse"
    using that by (simp add: json_decode_ascend_def members_typed_value [OF members_typed_Nil])
  have "returns (typed ?md ?d) (json_parse_object_context (Suc f) dp data cfg token st)"
    unfolding json_parse_object_context.simps
    by (rule returns_bind [OF json_decode_descend_depth], rule returns_bind [OF json_next_token_depth [OF refl]])
       (use pairs empty in auto)
  moreover have "returns (typed ?md ?d) (json_parse_array_context (Suc f) dp data cfg token st)"
    unfolding json_parse_array_context.simps
    by (rule returns_bind [OF json_decode_descend_depth], rule returns_bind [OF json_next_token_depth [OF refl]])
       (use items empty in auto)
  ultimately show "returns (typed ?md ?d) (json_parse_object_context (Suc f) dp data cfg token st) \<and>
      returns (typed ?md ?d) (json_parse_array_context (Suc f) dp data cfg token st)" ..
qed

lemma object_pairs_typed:
  fixes st :: "'a slab_scheme json_parse"
  assumes V: "value_typed dp data cfg f TYPE('a)" and L: "loops_typed dp data cfg f TYPE('a)"
    and f: "Suc f < 2 ^ 30" and d: "jp_depth st = d + 1" "d + 1 \<le> decode_max_depth cfg"
    and kvs: "members_typed (decode_max_depth cfg) (d + 1) kvs"
  shows "returns (typed (decode_max_depth cfg) d) (json_object_pairs (Suc f) dp data cfg kvs token st)"
proof -
  let ?md = "decode_max_depth cfg"
  have V': "returns (typed ?md (d + 1)) (json_process_value f dp data cfg token2 st2)" if "jp_depth st2 = d + 1" for token2 and st2 :: "'a slab_scheme json_parse"
    using V [unfolded value_typed_def, rule_format, of st2] that f by simp
  have L': "returns (typed ?md d) (json_object_pairs f dp data cfg kvs' token5 st5)"
    if "jp_depth st5 = d + 1" "members_typed ?md (d + 1) kvs'" for token5 kvs' and st5 :: "'a slab_scheme json_parse"
    using L [unfolded loops_typed_def, rule_format, of st5 d] that f d(2) by simp
  note token = returns_bind [OF json_next_token_depth]
  have rest: "returns (typed ?md d) (bind_j (json_next_token dp data cfg token2 st3) (\<lambda>token4 st4.
      if tok_type token4 = T_OBJ_END then Done (LTable kvs') (json_decode_ascend st4)
      else if tok_type token4 \<noteq> T_COMMA then json_throw_parse_error ''comma or object end'' token4 st4
      else bind_j (json_next_token dp data cfg token4 st4) (\<lambda>token5 st5. json_object_pairs f dp data cfg kvs' token5 st5)))"
    if "jp_depth st3 = d + 1" "members_typed ?md (d + 1) kvs'" for token2 kvs' and st3 :: "'a slab_scheme json_parse"
    by (rule token [OF that(1)])
       (use that(2) d(2) in \<open>auto simp: json_decode_ascend_def members_typed_value intro!: token L'\<close>)
  show ?thesis
    by (simp add: Let_def lua_rawset_string del: bind_j_simps)
       (auto simp: lua_rawset_string d(1) intro!: token returns_bind [OF V'] rest members_typed_set kvs simp del: bind_j_simps)
qed
lemma array_items_typed:
  fixes st :: "'a slab_scheme json_parse"
  assumes V: "value_typed dp data cfg f TYPE('a)" and L: "loops_typed dp data cfg f TYPE('a)"
    and f: "Suc f < 2 ^ 30" "i + Suc f < 2 ^ 31" and d: "jp_depth st = d + 1" "d + 1 \<le> decode_max_depth cfg"
    and kvs: "items_typed (decode_max_depth cfg) (d + 1) kvs i"
  shows "returns (typed (decode_max_depth cfg) d) (json_array_items (Suc f) dp data cfg kvs i token st)"
proof -
  let ?md = "decode_max_depth cfg"
  have V': "returns (typed ?md (d + 1)) (json_process_value f dp data cfg token st)"
    using V [unfolded value_typed_def, rule_format, of st] d f by simp
  have L': "returns (typed ?md d) (json_array_items f dp data cfg kvs' (Suc i) token3 st3)"
    if "jp_depth st3 = d + 1" "items_typed ?md (d + 1) kvs' (Suc i)" for token3 kvs' and st3 :: "'a slab_scheme json_parse"
    using L [unfolded loops_typed_def, rule_format, of st3 d] that f d(2) by simp
  note token = returns_bind [OF json_next_token_depth]
  have rest: "returns (typed ?md d) (bind_j (json_next_token dp data cfg token st1) (\<lambda>token2 st2.
      if tok_type token2 = T_ARR_END then Done (LTable kvs') (json_decode_ascend st2)
      else if tok_type token2 \<noteq> T_COMMA then json_throw_parse_error ''comma or array end'' token2 st2
      else bind_j (json_next_token dp data cfg token2 st2) (\<lambda>token3 st3.
        json_array_items f dp data cfg kvs' (Suc i) token3 st3)))"
    if "jp_depth st1 = d + 1" "items_typed ?md (d + 1) kvs' (Suc i)" for kvs' and st1 :: "'a slab_scheme json_parse"
    by (rule token [OF that(1)])
       (use that(2) d(2) in \<open>auto simp: json_decode_ascend_def items_typed_value intro!: token L'\<close>)
  have "i < 2 ^ 31" using f(2) by simp
  then show ?thesis
    by (simp add: Let_def del: bind_j_simps)
       (auto intro!: returns_bind [OF V'] rest items_typed_set kvs simp del: bind_j_simps)
qed

lemma parser_typed:
  "value_typed dp data cfg f TYPE('a) \<and> contexts_typed dp data cfg f TYPE('a) \<and> loops_typed dp data cfg f TYPE('a)"
proof (induction f)
  case 0
  show ?case by (simp add: value_typed_def contexts_typed_def loops_typed_def)
next
  case (Suc f)
  then have IH: "value_typed dp data cfg f TYPE('a)" "contexts_typed dp data cfg f TYPE('a)" "loops_typed dp data cfg f TYPE('a)"
    by auto
  have "loops_typed dp data cfg (Suc f) TYPE('a)"
    unfolding loops_typed_def using object_pairs_typed [OF IH(1,3)] array_items_typed [OF IH(1,3)] by blast
  then show ?case using value_typed_Suc [OF IH(2)] contexts_typed_Suc [OF IH(3)] by blast
qed

lemma decode_run_typed:
  fixes st :: "'a slab_scheme json_parse"
  assumes "decode_run dp data cfg st = Done vs st'" "jp_depth st = 0" "length data < 1024 * 1024"
  shows "\<exists>v. vs = [v] \<and> json_value (decode_max_depth cfg) 0 v"
proof -
  let ?P = "\<lambda>vs _. \<exists>v. vs = [v] \<and> json_value (decode_max_depth cfg) 0 v"
  have V: "returns (typed (decode_max_depth cfg) 0) (json_process_value (3 * length data + 4) dp data cfg token st1)"
    if "jp_depth st1 = 0" for token and st1 :: "'a slab_scheme json_parse"
  proof -
    have "value_typed dp data cfg (3 * length data + 4) TYPE('a)" using parser_typed by blast
    moreover have "3 * length data + 4 < 2 ^ 30" using assms(3) by simp
    ultimately show ?thesis unfolding value_typed_def that [symmetric] by blast
  qed
  have "returns ?P (decode_run dp data cfg st)"
    unfolding decode_run_def Let_def
    by (rule returns_bind [OF json_next_token_depth [OF assms(2)]], rule returns_bind [OF V], assumption,
        rule returns_bind [OF json_next_token_depth [OF refl]]) (auto intro!: returns_bind_r)
  then show ?thesis using assms(1) by simp
qed

lemma json_decode_typed:
  assumes "json_decode L dp [LString s] (cfg, h) = Done vs st'" "length s < 1024 * 1024"
  shows "\<exists>v. vs = [v] \<and> json_value (decode_max_depth cfg) 0 v"
proof -
  obtain tmp h1 and st1 :: "'a slab_scheme json_parse" where "decode_run dp s cfg \<lparr>jp_ptr = 0, jp_tmp = tmp, jp_depth = 0, jp_heap = h1\<rparr> = Done vs st1"
    using assms(1) by (auto simp: json_decode_def json_decode_text_def lua_tolstring_def bind_r_def split: if_splits sum.splits prod.splits jres.splits)
  from decode_run_typed [OF this _ assms(2)] show ?thesis by simp
qed

end
