(* ===== verification/Json_Properties.thy ===== *)
theory Json_Properties
  imports Json_Types
begin

text \<open>
  The properties of the JSON module of \<open>src/lev_new_json.c\<close>, each with an example that applies it:
  the encoder against the texts it may write, the decoder against the reference syntax, their
  composition, and what holds of the module in every sequence of calls.
\<close>

section \<open>Values used by the examples\<close>

definition json_heap :: "byte \<Rightarrow> slab" where
  "json_heap x = slab_start (\<lambda>_ _. x)"

lemma slab_ok_json_heap: "slab_ok (json_heap x)"
  by (simp add: json_heap_def slab_ok_start)

lemma json_opened:
  obtains cfg h where "json_create_config (json_heap x) = Inr (cfg, h)" "json_ok (cfg, h)"
    "encode_max_depth cfg = 1000" "decode_max_depth cfg = 1000" "encode_number_precision cfg = 14"
    "encode_sparse_ratio cfg = 2"
proof -
  obtain cfg h where c: "json_create_config (json_heap x) = Inr (cfg, h)" "json_ok (cfg, h)"
    using json_create_config_ok [OF slab_ok_json_heap] by blast
  show thesis
    by (rule that [OF c]) (use c(1) in \<open>auto simp: json_create_config_def bind_res_Inr_iff\<close>)
qed

lemma json_okD:
  assumes "json_ok (cfg, h)"
  shows "encoder_ok (cfg, h)" "tables_ok cfg" "config_ok cfg" "slab_ok h"
  using assms by (simp_all add: json_ok_def encoder_ok_def)

lemma locale_point_dot: "locale_point 0x2e"
  by (simp add: locale_point_def)

text \<open>The array \<open>[300, "ab"]\<close>.\<close>

definition json_example :: lval where
  "json_example = LTable (seq_entries 0 [lua_int 300, LString [97, 98]])"

lemma json_example_text:
  assumes "json_ok (cfg, h)" "encode_max_depth cfg = 1000" "encode_number_precision cfg = 14" "encode_sparse_ratio cfg = 2"
  shows "\<exists>e n. json_text cfg 0 json_example (e, n) \<and> n < STRBUF_LIMIT"
proof -
  let ?vs = "[lua_int 300, LString [97, 98]]"
  have shape: "json_shape cfg (seq_entries 0 ?vs) = Some 2" using json_shape_seq [of ?vs cfg] by simp
  have items: "map (lua_rawgeti (seq_entries 0 ?vs)) [1..<Suc (nat 2)] = ?vs"
  proof -
    have two: "nat 2 = length ?vs" by simp
    show ?thesis unfolding two by (rule lua_rawgeti_all) simp
  qed
  have num: "json_number_text cfg (dbl_of_int 300) = Some (int_text 300)"
    using precision_int(2) [OF json_okD(3) [OF assms(1)], of 300] assms(3) by simp
  have "plain_string [97, 98]" by (simp add: plain_string_def char2escape_def)
  then have str: "string_fits [97, 98]" "string_text [97, 98] (0x22 # [97, 98] @ [0x22])"
    by (auto simp: plain_string_fits string_text_def chars_text_plain)
  have keys: "keys_in_int cfg (seq_entries 0 ?vs)"
    unfolding keys_in_int_def by (simp add: assms(4))
      (use dbl_int_dbl_of_int [of 1] dbl_int_dbl_of_int [of 2] in \<open>auto simp: isinf_def dbl_int_def\<close>)
  have "json_text cfg 0 json_example
      (0x5b # commas (map fst [(int_text 300, 32 :: nat), (0x22 # [97, 98] @ [0x22], length [97 :: byte, 98] * 6 + 3)]) @ [0x5d],
       2 + sum_list (map (\<lambda>(e, n). n + 1) [(int_text 300, 32 :: nat), (0x22 # [97, 98] @ [0x22], length [97 :: byte, 98] * 6 + 3)]))"
    unfolding json_example_def
  proof (rule jt_array [OF _ keys shape])
    show "list_all2 (json_text cfg (0 + 1)) (map (lua_rawgeti (seq_entries 0 ?vs)) [1..<Suc (nat 2)])
        [(int_text 300, 32 :: nat), (0x22 # [97, 98] @ [0x22], length [97 :: byte, 98] * 6 + 3)]"
      unfolding items using jt_number [OF num] jt_string [OF str] by simp
  qed (use assms(2) in simp_all)
  note written = this
  show ?thesis by (rule exI, rule exI, rule conjI, rule written) (simp add: STRBUF_LIMIT_def)
qed

lemma json_example_kept: "encode_number_precision cfg = 14 \<Longrightarrow> json_kept cfg json_example"
  unfolding json_example_def
  by (intro jkept_array) (auto simp: plain_string_def char2escape_def intro: json_kept.intros)

text \<open>The text \<open>{"a": [12, true]}\<close>.\<close>

definition json_example_source :: "byte list" where
  "json_example_source = ascii ''{'' @ [0x22] @ ascii ''a'' @ [0x22] @ ascii '': [12,true]}''"
lemma json_example_source_syntax: "json_syntax 1000 0 (LTable [(LString [97], LTable (seq_entries 0 [lua_int 12, LBoolean True]))]) json_example_source"
proof -
  have t: "LTable [(LString [97], LTable (seq_entries 0 [lua_int 12, LBoolean True]))] =
      LTable (table_of (zip [[97]] [LTable (seq_entries 0 [lua_int 12, LBoolean True])]))"
    by (simp add: table_of_def)
  have s: "json_example_source = 0x7b # members_text [[0x22, 0x61, 0x22]] [0x20 # 0x5b # commas [[0x31, 0x32], ascii ''true''] @ [0x5d]] @ [0x7d]"
    by (simp add: json_example_source_def members_text_def ascii_def)
  have key: "spaced json_string [97] [0x22, 0x61, 0x22]"
    by (rule spacedI) (auto simp: json_string_def intro!: exI [of _ "[0x61]"] jc_plain jc_end)
  have num: "json_number (dbl_of_int 12) [0x31, 0x32]"
    using json_number_int [of 12] by (simp add: int_text_def dec_digits.simps)
  have "json_syntax 1000 1 (LTable (seq_entries 0 [lua_int 12, LBoolean True])) (0x5b # commas [[0x31, 0x32], ascii ''true''] @ [0x5d])"
    by (rule js_array) (use js_number [OF num] js_true in simp_all)
  then have arr: "json_syntax 1000 (0 + 1) (LTable (seq_entries 0 [lua_int 12, LBoolean True]))
      (0x20 # 0x5b # commas [[0x31, 0x32], ascii ''true''] @ [0x5d])"
    by (simp add: js_before)
  show ?thesis unfolding t s by (rule js_object) (use key arr in simp_all)
qed
text \<open>The settings of a new module, but for the buffer.\<close>

definition json_example_config :: json_config where
  "json_example_config = \<lparr>ch2token = default_ch2token, escape2char = default_escape2char, encode_buf = None,
     encode_sparse_convert = 0, encode_sparse_ratio = 2, encode_sparse_safe = 10,
     encode_max_depth = 1000, encode_invalid_numbers = 0, encode_number_precision = 14,
     encode_keep_buffer = 0, decode_invalid_numbers = 1, decode_max_depth = 1000\<rparr>"

section \<open>The encoder and the decoder\<close>

text \<open>C26: The encoder implements its text specification. In a module whose state is in order, for every
value that has a text (\<open>json_text\<close> knows no buffers and no heap) \<open>json.encode\<close> returns such a text,
whatever has to be allocated or grown on the way, and leaves the module and the blocks of everyone else
in order.\<close>

theorem json_encode_writes:
  assumes "encoder_ok (cfg, h)" "locale_point dp" "json_text cfg 0 v (e0, n)" "n < STRBUF_LIMIT"
  shows "\<exists>e cfg' h'. json_encode dp [v] (cfg, h) = Done [LString e] (cfg', h') \<and>
    json_text cfg 0 v (e, n) \<and> length e \<le> n \<and> encoder_ok (cfg', h') \<and> encoder_frame (cfg, h) (cfg', h')"
  by (rule json_encode_ok [OF assms])

theorem json_encode_writes_witness:
  "\<exists>cfg h e cfg' h' n. json_create_config (json_heap 0) = Inr (cfg, h) \<and>
    json_encode 0x2e [json_example] (cfg, h) = Done [LString e] (cfg', h') \<and> json_text cfg 0 json_example (e, n)"
proof -
  obtain cfg h where c: "json_create_config (json_heap 0) = Inr (cfg, h)" "json_ok (cfg, h)"
      "encode_max_depth cfg = 1000" "encode_number_precision cfg = 14" "encode_sparse_ratio cfg = 2"
    by (rule json_opened)
  obtain e0 n where t: "json_text cfg 0 json_example (e0, n)" "n < STRBUF_LIMIT"
    using json_example_text [OF c(2-5)] by blast
  from json_encode_writes [OF json_okD(1) [OF c(2)] locale_point_dot t] c(1) show ?thesis by blast
qed

text \<open>C27: The decoder accepts JSON: every text of the reference syntax that fits into a block and is
nested no deeper than the setting allows is decoded to its value, whatever the decimal point of the
locale, with the heap as it was.\<close>

theorem json_decode_accepts:
  assumes "slab_ok h" "tables_ok cfg" "locale_point dp" "json_syntax (decode_max_depth cfg) 0 v e" "length e < 1024 * 1024"
  shows "\<exists>h'. json_decode L dp [LString e] (cfg, h) = Done [v] (cfg, h') \<and> same_use h h'"
  by (rule json_decode_syntax [OF assms])

theorem json_decode_accepts_witness:
  "\<exists>cfg h h'. json_create_config (json_heap 0) = Inr (cfg, h) \<and>
    json_decode \<lparr>str2num = (\<lambda>_. None), num2str = (\<lambda>_. [])\<rparr> 0x2c [LString json_example_source] (cfg, h) =
      Done [LTable [(LString [97], LTable (seq_entries 0 [lua_int 12, LBoolean True]))]] (cfg, h')"
proof -
  obtain cfg h where c: "json_create_config (json_heap 0) = Inr (cfg, h)" "json_ok (cfg, h)" "decode_max_depth cfg = 1000"
    by (rule json_opened)
  have "locale_point 0x2c" by (simp add: locale_point_def valid_number_character_def is_digit_def to_lower_def)
  moreover have "length json_example_source < 1024 * 1024" by (simp add: json_example_source_def ascii_def)
  ultimately show ?thesis
    using json_decode_accepts [OF json_okD(4,2) [OF c(2)]] c(1) json_example_source_syntax [folded c(3)] by metis
qed

text \<open>C28: Round trip. What \<open>json.encode\<close> writes for a value of booleans, null, integers within the
precision, strings without characters to escape, arrays and objects of such values, \<open>json.decode\<close> reads
back as that value.\<close>

theorem json_roundtrip:
  assumes "encoder_ok (cfg, h)" "tables_ok cfg" "locale_point dp" "encode_max_depth cfg \<le> decode_max_depth cfg"
    and "json_text cfg 0 v (e0, n)" "n < STRBUF_LIMIT" "json_kept cfg v"
  shows "\<exists>e cfg' h' h''. json_encode dp [v] (cfg, h) = Done [LString e] (cfg', h') \<and>
    json_decode L dp [LString e] (cfg', h') = Done [v] (cfg', h'')"
  by (rule json_decode_encode [OF assms])

theorem json_roundtrip_witness:
  "\<exists>cfg h e cfg' h' h''. json_create_config (json_heap 0) = Inr (cfg, h) \<and>
    json_encode 0x2e [json_example] (cfg, h) = Done [LString e] (cfg', h') \<and>
    json_decode \<lparr>str2num = (\<lambda>_. None), num2str = (\<lambda>_. [])\<rparr> 0x2e [LString e] (cfg', h') = Done [json_example] (cfg', h'')"
proof -
  obtain cfg h where c: "json_create_config (json_heap 0) = Inr (cfg, h)" "json_ok (cfg, h)"
      "encode_max_depth cfg = 1000" "decode_max_depth cfg = 1000" "encode_number_precision cfg = 14" "encode_sparse_ratio cfg = 2"
    by (rule json_opened)
  obtain e0 n where t: "json_text cfg 0 json_example (e0, n)" "n < STRBUF_LIMIT"
    using json_example_text [OF c(2,3,5,6)] by blast
  have "encode_max_depth cfg \<le> decode_max_depth cfg" using c by simp
  from json_roundtrip [OF json_okD(1,2) [OF c(2)] locale_point_dot this t json_example_kept [OF c(5)]] c(1)
  show ?thesis by blast
qed

text \<open>C29: Decoding is safe. For any bytes shorter than a megabyte \<open>json.decode\<close> neither reads behind
the text nor writes outside its buffer; it returns one value or raises an error, frees its buffer either
way and leaves every other block as it was.\<close>

theorem json_decode_safe:
  assumes "slab_ok h" "tables_ok cfg" "length s < 1024 * 1024"
  shows "case json_decode L dp [LString s] (cfg, h) of
      Done vs (cfg', h') \<Rightarrow> length vs = 1 \<and> cfg' = cfg \<and> same_use h h'
    | Raise msg (cfg', h') \<Rightarrow> cfg' = cfg \<and> same_use h h'
    | Fault e \<Rightarrow> False"
  using json_decode_text_safe [OF assms, of dp] by (simp add: json_decode_def lua_tolstring_def)

theorem json_decode_safe_witness:
  "case json_decode \<lparr>str2num = (\<lambda>_. None), num2str = (\<lambda>_. [])\<rparr> 0x2e [LString (ascii ''[1,'')]
      (json_example_config, json_heap 0) of
      Done vs (cfg', h') \<Rightarrow> length vs = 1 \<and> cfg' = json_example_config \<and> same_use (json_heap 0) h'
    | Raise msg (cfg', h') \<Rightarrow> cfg' = json_example_config \<and> same_use (json_heap 0) h'
    | Fault e \<Rightarrow> False"
  by (rule json_decode_safe) (simp_all add: slab_ok_json_heap json_example_config_def tables_ok_def ascii_def)

text \<open>C30: Type. What \<open>json.decode\<close> returns, for any text, is built of null, booleans, numbers, strings,
tables with the keys 1, 2 and so on, and tables with strings as keys; it is nested no deeper than the
setting allows.\<close>

theorem json_decode_type:
  assumes "json_decode L dp [LString s] (cfg, h) = Done vs st'" "length s < 1024 * 1024"
  shows "\<exists>v. vs = [v] \<and> json_value (decode_max_depth cfg) 0 v"
  by (rule json_decode_typed [OF assms])

theorem json_decode_type_witness: "json_value 1000 0 (LTable [(LString [97], LTable (seq_entries 0 [lua_int 12, LBoolean True]))])"
proof -
  let ?L = "\<lparr>str2num = (\<lambda>_. None), num2str = (\<lambda>_. [])\<rparr> :: lua_lib"
  obtain cfg h where c: "json_create_config (json_heap 0) = Inr (cfg, h)" "json_ok (cfg, h)" "decode_max_depth cfg = 1000"
    by (rule json_opened)
  have len: "length json_example_source < 1024 * 1024" by (simp add: json_example_source_def ascii_def)
  obtain h' where "json_decode ?L 0x2e [LString json_example_source] (cfg, h) =
      Done [LTable [(LString [97], LTable (seq_entries 0 [lua_int 12, LBoolean True]))]] (cfg, h')"
    using json_decode_syntax [OF json_okD(4,2) [OF c(2)] locale_point_dot json_example_source_syntax [folded c(3)] len] by blast
  from json_decode_type [OF this len] show ?thesis unfolding c(3) by auto
qed
section \<open>Sequences of calls\<close>

text \<open>C31: Whatever calls are made one after the other, with values and texts within the limits, and
whatever the rest of the process does to other blocks in between: the settings stay in their ranges, the
encoder's buffer is there exactly when it is to be kept, is in use, holds a reference and ends where it
says, and the heap is in order.\<close>

theorem json_module_invariant:
  assumes "locale_point dp" "json_reachable L dp st"
  shows "json_ok st"
  by (rule json_reachable_ok [OF assms])

lemma json_true_within: "json_within L cfg J_encode [LBoolean True]"
  by (auto simp: json_within_def STRBUF_LIMIT_def intro!: exI [of _ 32] jf_scalar)

theorem json_module_invariant_witness:
  "\<exists>cfg h vs st. json_create_config (json_heap 0) = Inr (cfg, h) \<and>
    json_call \<lparr>str2num = (\<lambda>_. None), num2str = (\<lambda>_. [])\<rparr> 0x2e J_encode [LBoolean True] (cfg, h) = Done vs st \<and> json_ok st"
proof -
  let ?L = "\<lparr>str2num = (\<lambda>_. None), num2str = (\<lambda>_. [])\<rparr> :: lua_lib"
  obtain cfg h where c: "json_create_config (json_heap 0) = Inr (cfg, h)" "json_ok (cfg, h)"
    by (rule json_opened)
  obtain vs st where r: "json_call ?L 0x2e J_encode [LBoolean True] (cfg, h) = Done vs st"
    using json_encode_call [OF c(2) locale_point_dot json_true_within] by auto
  have "json_reachable ?L 0x2e st"
    by (rule jr_returns [OF jr_open [OF slab_ok_json_heap c(1)] json_true_within r])
  from json_module_invariant [OF locale_point_dot this] c(1) r show ?thesis by blast
qed

text \<open>C32: In every state the module can be in, a call of \<open>encode\<close> or \<open>decode\<close> with one argument within the
limits comes to an end and returns to Lua: with the result, or with nil and a message for every error that
is raised on the way.\<close>

theorem json_calls_return:
  assumes "locale_point dp" "json_reachable L dp (cfg, h)" "f = J_encode \<or> f = J_decode"
    and "length args = 1" "json_within L cfg f args"
  shows "\<exists>vs st'. json_call L dp f args (cfg, h) = Done vs st' \<and> json_reachable L dp st'"
proof -
  have ok: "json_ok (cfg, h)" by (rule json_reachable_ok [OF assms(1,2)])
  obtain vs st' where r: "json_call L dp f args (cfg, h) = Done vs st'"
    using json_encode_call [OF ok assms(1) _ assms(4)] json_decode_call [OF ok _ assms(4)] assms(3,5) by metis
  from jr_returns [OF assms(2,5) r] r show ?thesis by blast
qed

theorem json_calls_return_witness:
  "\<exists>cfg h vs st. json_create_config (json_heap 0) = Inr (cfg, h) \<and>
    json_call \<lparr>str2num = (\<lambda>_. None), num2str = (\<lambda>_. [])\<rparr> 0x2e J_decode [LString (ascii ''[1'')] (cfg, h) = Done vs st"
proof -
  let ?L = "\<lparr>str2num = (\<lambda>_. None), num2str = (\<lambda>_. [])\<rparr> :: lua_lib"
  obtain cfg h where c: "json_create_config (json_heap 0) = Inr (cfg, h)"
    by (rule json_opened)
  have "json_within ?L cfg J_decode [LString (ascii ''[1'')]"
    by (simp add: json_within_def lua_tolstring_def STRBUF_LIMIT_def ascii_def)
  from json_calls_return [OF locale_point_dot jr_open [OF slab_ok_json_heap c] _ _ this] c show ?thesis by auto
qed

text \<open>C33: The array test of the encoder: \<open>lua_array_length\<close> finds the largest key when every key is a
positive integer and the table is not too sparse, says object for any other table, and raises an error for
a sparse one that is not to be converted; stated of the table alone in \<open>json_shape\<close>.\<close>

theorem json_array_test:
  assumes "keys_in_int cfg kvs"
  shows "lua_array_length cfg kvs st =
    (case json_shape cfg kvs of
       Some n \<Rightarrow> Done n st
     | None \<Rightarrow> json_encode_exception cfg (LTable kvs) ''excessively sparse array'' st)"
  by (rule lua_array_length_shape [OF assms])

theorem json_array_test_witness:
  "\<exists>st. lua_array_length json_example_config [(lua_int 1, LBoolean True), (LString [97], LBoolean False)] st = Done (- 1) st"
proof -
  have k: "keys_in_int json_example_config [(lua_int 1, LBoolean True), (LString [97], LBoolean False)]"
    using dbl_int_dbl_of_int [of 1] by (auto simp: keys_in_int_def json_example_config_def isinf_def dbl_int_def)
  have s: "json_shape json_example_config [(lua_int 1, LBoolean True), (LString [97], LBoolean False)] = Some (- 1)"
    by (simp add: json_shape_def int_key_def)
  show ?thesis unfolding json_array_test [OF k] s by simp
qed

text \<open>C34: The byte after an escaped character. The loop of \<open>json_append_string\<close> moves one byte too far
after each escape, and that byte is what the memory of the block held before: the encoding of the string
with the single character \<open>\n\<close> depends on old memory, and decoding it gives another string.\<close>

theorem json_encode_stale_byte:
  assumes "x \<notin> {0, 0x22, 0x5c}"
  shows "\<exists>cfg h cfg' h' h''. json_create_config (json_heap x) = Inr (cfg, h) \<and>
    json_encode 0x2e [LString [10]] (cfg, h) = Done [LString [0x22, 0x5c, 0x6e, x, 0x22]] (cfg', h') \<and>
    json_decode L 0x2e [LString [0x22, 0x5c, 0x6e, x, 0x22]] (cfg', h') = Done [LString [10, x]] (cfg', h'')"
proof -
  obtain cfg h where c: "json_create_config (json_heap x) = Inr (cfg, h)" "json_ok (cfg, h)"
    by (rule json_opened)
  have esc: "char2escape 10 = Some [0x5c, 0x6e]" by (simp add: char2escape_def)
  have "\<exists>cfg' h'. json_encode 0x2e [LString [10]] (cfg, h) = Done [LString [0x22, 0x5c, 0x6e, x, 0x22]] (cfg', h')"
    using c(1)
    by (auto simp: json_create_config_def json_heap_def memslice_wrap_strbuf_init_def STRBUF_DEFAULT_SIZE_def
      lev_slab_getBlock_def slab_class_for_def slab_start_def malloc_block_def lev_slab_incRef_def deref_def put_block_def
      lev_memslice_ensure_null_def slice_store_def block_write_def json_encode_def json_append_data.simps
      json_append_string_def strbuf_reset_def strbuf_ensure_empty_length_def ensure_empty_length_eq
      lev_memslice_empty_length_def sz_sub_def strbuf_append_char_unsafe_def lev_memslice_append_char_unsafe_def
      esc strbuf_append_string_def lev_memslice_append_string_def memslice_wrap_strbuf_string_def block_read_def
      mem_read_def mem_write_def lift_j_def Let_def)
  then obtain cfg' h' where e: "json_encode 0x2e [LString [10]] (cfg, h) = Done [LString [0x22, 0x5c, 0x6e, x, 0x22]] (cfg', h')"
    by blast
  have fits: "string_fits [10]" by (simp add: string_fits_def chars_len_def char_len_def esc)
  have "json_text cfg 0 (LString [10]) (0x22 # [0x5c, 0x6e] @ [x] @ [0x22], length [10 :: byte] * 6 + 3)"
    by (rule jt_string [OF fits])
       (use ct_escaped [OF esc ct_Nil, of x] in \<open>auto simp: string_text_def intro!: exI [of _ "[0x5c, 0x6e, x]"]\<close>)
  from json_encode_ok [OF json_okD(1) [OF c(2)] locale_point_dot this] e
  have "slab_ok h'" by (auto simp: STRBUF_LIMIT_def encoder_ok_def)
  moreover have "tables_ok cfg'"
    using json_encode_config [OF e] json_okD(2) [OF c(2)] by (auto simp: tables_ok_def)
  moreover have "json_syntax (decode_max_depth cfg') 0 (LString [10, x]) [0x22, 0x5c, 0x6e, x, 0x22]"
  proof (rule js_string)
    have "json_chars [10, x] [0x5c, 0x6e, x]"
      by (rule jc_escape) (use assms in \<open>auto simp: simple_escapes_def intro: jc_plain jc_end\<close>)
    then show "json_string [10, x] [0x22, 0x5c, 0x6e, x, 0x22]" by (auto simp: json_string_def intro!: exI [of _ "[0x5c, 0x6e, x]"])
  qed
  ultimately obtain h'' where
    "json_decode L 0x2e [LString [0x22, 0x5c, 0x6e, x, 0x22]] (cfg', h') = Done [LString [10, x]] (cfg', h'')"
    using json_decode_syntax [OF _ _ locale_point_dot, of h' cfg' "LString [10, x]" "[0x22, 0x5c, 0x6e, x, 0x22]" L] by auto
  with c(1) e show ?thesis by blast
qed

theorem json_encode_stale_byte_witness:
  "\<exists>cfg h cfg' h'. json_create_config (json_heap 65) = Inr (cfg, h) \<and>
    json_encode 0x2e [LString [10]] (cfg, h) = Done [LString [0x22, 0x5c, 0x6e, 65, 0x22]] (cfg', h')"
proof -
  have "(65 :: byte) \<notin> {0, 0x22, 0x5c}" by simp
  from json_encode_stale_byte [OF this] show ?thesis by blast
qed

text \<open>
  The room a string gets is six bytes a character, and \<open>lev_memslice_append_string\<close> counts the free
  bytes of the buffer from its start, wherever it writes.
\<close>

lemma append_string_loop_block:
  assumes "blocks h (ms_mb ms) = Some b" "ms_slice ms = 0" "length cs \<le> space" "pos + i \<le> mb_size b"
  shows "if pos + i + length cs \<le> mb_size b
    then \<exists>h' b'. append_string_loop ms pos i space cs h = Inr (i + length cs, ms, h') \<and>
      blocks h' (ms_mb ms) = Some b' \<and> mb_size b' = mb_size b
    else append_string_loop ms pos i space cs h = Inl (Undefined ''write past the MemBlock'')"
  using assms
proof (induction cs arbitrary: i space h b)
  case (Cons c cs)
  show ?case
  proof (cases "pos + i + 1 \<le> mb_size b")
    case True
    define b1 where "b1 = b\<lparr>mb_bytes := mem_write (mb_bytes b) (pos + i) [c]\<rparr>"
    have 1: "slice_store ms (pos + i) [c] h = Inr (put_block (ms_mb ms) b1 h)" "mb_size b1 = mb_size b"
      using True Cons.prems by (simp_all add: slice_store_def block_write_def deref_def b1_def)
    from Cons.IH [of "put_block (ms_mb ms) b1 h" b1 "space - 1" "Suc i"] Cons.prems True 1 show ?thesis
      by (auto simp: put_block_def sz_sub_def split: if_splits)
  next
    case False
    then have "slice_store ms (pos + i) [c] h = Inl (Undefined ''write past the MemBlock'')"
      using Cons.prems by (simp add: slice_store_def block_write_def deref_def)
    with False Cons.prems show ?thesis by simp
  qed
qed simp

lemma json_append_controls_past:
  assumes "char2escape c = Some escstr" "length escstr = 6"
    and "blocks h (ms_mb (sb_ms s)) = Some b" "ms_slice (sb_ms s) = 0" "6 < ms_until (sb_ms s)"
    and "mb_size b < sb_length s + 7 * k + 1"
  shows "bind_res (json_append_chars (replicate k c) (s, h)) (strbuf_append_char_unsafe 0x22) =
    Inl (Undefined ''write past the MemBlock'')"
  using assms(3-6)
proof (induction k arbitrary: s h b)
  case 0
  then show ?case
    by (simp add: strbuf_append_char_unsafe_def lev_memslice_append_char_unsafe_def slice_store_def block_write_def deref_def)
next
  case (Suc k)
  have tw: "takeWhile (\<lambda>b. b \<noteq> 0) escstr = escstr" by (rule char2escape_no_null [OF assms(1)])
  show ?case
  proof (cases "sb_length s \<le> mb_size b")
    case True
    have space: "length escstr \<le> lev_memslice_empty_length (sb_ms s)"
      using Suc.prems(3) assms(2) by (simp add: lev_memslice_empty_length_def sz_sub_def)
    show ?thesis
    proof (cases "sb_length s + 6 \<le> mb_size b")
      case fits: True
      obtain h' b' where 1: "append_string_loop (sb_ms s) (sb_length s) 0 (lev_memslice_empty_length (sb_ms s)) escstr h =
          Inr (6, sb_ms s, h')" "blocks h' (ms_mb (sb_ms s)) = Some b'" "mb_size b' = mb_size b"
        using append_string_loop_block [OF Suc.prems(1,2) space, of "sb_length s" 0] True fits assms(2) by auto
      from Suc.IH [of h' "s\<lparr>sb_length := sb_length s + 7\<rparr>" b'] Suc.prems 1 show ?thesis
        by (simp add: assms(1) strbuf_append_string_def lev_memslice_append_string_def tw add.commute)
    next
      case fits: False
      have "append_string_loop (sb_ms s) (sb_length s) 0 (lev_memslice_empty_length (sb_ms s)) escstr h =
          Inl (Undefined ''write past the MemBlock'')"
        using append_string_loop_block [OF Suc.prems(1,2) space, of "sb_length s" 0] True fits assms(2) by simp
      then show ?thesis by (simp add: assms(1) strbuf_append_string_def lev_memslice_append_string_def tw)
    qed
  next
    case False
    obtain e es where e: "escstr = e # es" using assms(2) by (cases escstr) auto
    have "slice_store (sb_ms s) (sb_length s) [e] h = Inl (Undefined ''write past the MemBlock'')"
      using False Suc.prems by (simp add: slice_store_def block_write_def deref_def)
    moreover have "\<not> lev_memslice_empty_length (sb_ms s) < 1"
      using Suc.prems(3) by (simp add: lev_memslice_empty_length_def sz_sub_def)
    ultimately show ?thesis
      by (simp add: assms(1) strbuf_append_string_def lev_memslice_append_string_def tw) (simp add: e)
  qed
qed
text \<open>C35: Writing behind the block. For a string of between 1171 and 1364 control characters the encoder of
a new module gets a block of 8192 bytes, and writes more than that.\<close>

theorem json_encode_overflow:
  assumes "0 < c" "c < 8" "1171 \<le> k" "k \<le> 1364"
  shows "\<exists>cfg h. json_create_config (json_heap x) = Inr (cfg, h) \<and>
    json_encode dp [LString (replicate k c)] (cfg, h) = Fault (Undefined ''write past the MemBlock'')"
proof -
  obtain cfg h where cfg: "json_create_config (json_heap x) = Inr (cfg, h)"
    by (rule json_opened)
  have "c < 0x20" using assms(2) by (rule order.strict_trans) simp
  moreover have "c \<notin> {8, 9, 10, 12, 13, 34, 47, 92}" using assms(2) by auto
  ultimately obtain escstr where esc: "char2escape c = Some escstr" "length escstr = 6"
    by (simp add: char2escape_def)
  obtain buf where buf: "encode_buf cfg = Some buf" "encode_keep_buffer cfg \<noteq> 0"
    using cfg by (auto simp: json_create_config_def bind_res_Inr_iff)
  have "\<exists>s h' b. strbuf_ensure_empty_length (k * 6 + 2) (strbuf_reset buf, h) = Inr (s, h') \<and>
      blocks h' (ms_mb (sb_ms s)) = Some b \<and> mb_size b = 8192 \<and> ms_slice (sb_ms s) = 0 \<and>
      ms_until (sb_ms s) = k * 6 + 3 \<and> sb_length s = 0"
    using cfg assms(3,4) buf(1)
    by (auto simp: json_create_config_def json_heap_def memslice_wrap_strbuf_init_def STRBUF_DEFAULT_SIZE_def
      lev_slab_getBlock_def slab_class_for_def slab_start_def malloc_block_def lev_slab_incRef_def deref_def put_block_def
      lev_memslice_ensure_null_def slice_store_def block_write_def strbuf_reset_def strbuf_ensure_empty_length_def
      ensure_empty_length_eq lev_memslice_empty_length_def sz_sub_def lev_memslice_resize_def
      block_read_def lev_slab_decRefCount_def Let_def)
  then obtain s h' b where s: "strbuf_ensure_empty_length (k * 6 + 2) (strbuf_reset buf, h) = Inr (s, h')"
      "blocks h' (ms_mb (sb_ms s)) = Some b" "mb_size b = 8192" "ms_slice (sb_ms s) = 0"
      "ms_until (sb_ms s) = k * 6 + 3" "sb_length s = 0"
    by blast
  let ?b = "b\<lparr>mb_bytes := mem_write (mb_bytes b) 0 [0x22]\<rparr>"
  have quote: "strbuf_append_char_unsafe 0x22 (s, h') = Inr (s\<lparr>sb_length := 1\<rparr>, put_block (ms_mb (sb_ms s)) ?b h')"
    using s by (simp add: strbuf_append_char_unsafe_def lev_memslice_append_char_unsafe_def slice_store_def block_write_def deref_def)
  have "bind_res (json_append_chars (replicate k c) (s\<lparr>sb_length := 1\<rparr>, put_block (ms_mb (sb_ms s)) ?b h'))
      (strbuf_append_char_unsafe 0x22) = Inl (Undefined ''write past the MemBlock'')"
    by (rule json_append_controls_past [OF esc, where b = ?b]) (use s assms(3) in \<open>simp_all add: put_block_def\<close>)
  then have "json_append_string (replicate k c) (strbuf_reset buf, h) = Inl (Undefined ''write past the MemBlock'')"
    unfolding json_append_string_def length_replicate s(1) bind_res_simps quote .
  then have "json_encode dp [LString (replicate k c)] (cfg, h) = Fault (Undefined ''write past the MemBlock'')"
    using buf by (simp add: json_encode_def json_append_data.simps lift_j_def)
  with cfg show ?thesis by blast
qed

theorem json_encode_overflow_witness:
  "\<exists>cfg h. json_create_config (json_heap 0) = Inr (cfg, h) \<and>
    json_encode 0x2e [LString (replicate 1200 1)] (cfg, h) = Fault (Undefined ''write past the MemBlock'')"
  by (rule json_encode_overflow) simp_all

end
