(* ===== verification/Lev_Main.thy ===== *)
theory Lev_Main
  imports Lev_Buffer
begin

text \<open>
  The start of the program, \<open>src/lev_main.c\<close>: the two passes over the command line
  (\<open>collectargs\<close> checks it and finds the script, \<open>runargs\<close> carries the options out), what they hand
  to Lua, the argument vector and environment of a worker, and the parent that starts the workers and
  ends with the last of them.

  A command line is the list of its C strings; the null pointer stands behind the last. What Lua does with
  a request is a parameter: \<open>act\<close> gives the status of a request and the state after it.
\<close>

unbundle bit_operations_syntax

section \<open>The argument vector\<close>

definition argv_at :: "byte list list \<Rightarrow> nat \<Rightarrow> byte list option res" where
  "argv_at argv i = (if i < length argv then Inr (Some (argv ! i)) else if i = length argv then Inr None
                     else Inl (Undefined ''read past argv''))"

text \<open>A character of a C string, the null byte at its end.\<close>

definition char_at :: "byte list \<Rightarrow> nat \<Rightarrow> byte res" where
  "char_at s k = (if k < length s then Inr (s ! k) else if k = length s then Inr 0
                  else Inl (Undefined ''read past the argument''))"

definition FLAGS_INTERACTIVE :: int where "FLAGS_INTERACTIVE = 1"
definition FLAGS_VERSION :: int where "FLAGS_VERSION = 2"
definition FLAGS_EXEC :: int where "FLAGS_EXEC = 4"
definition FLAGS_OPTION :: int where "FLAGS_OPTION = 8"
definition FLAGS_GDB :: int where "FLAGS_GDB = 16"
definition FLAGS_VALGRIND :: int where "FLAGS_VALGRIND = 32"

text \<open>
  \<open>collectargs\<close>: the index of the script (0 for none, -1 for invalid arguments) and the flags. The loop
  from index \<open>i\<close>; \<open>-i\<close> falls through to \<open>-v\<close>, \<open>-e\<close> to the options with an argument.
\<close>

function collectargs_loop :: "byte list list \<Rightarrow> nat \<Rightarrow> int \<Rightarrow> (int \<times> int) res" where
  "collectargs_loop argv i flags =
     bind_res (argv_at argv i) (\<lambda>a.
       case a of
         None \<Rightarrow> Inr (0, flags)
       | Some s \<Rightarrow>
           bind_res (char_at s 0) (\<lambda>c0.
             if c0 \<noteq> 0x2d then Inr (int i, flags)
             else bind_res (char_at s 1) (\<lambda>c1.
               if c1 = 0x2d then
                 bind_res (char_at s 2) (\<lambda>c2.
                   if c2 \<noteq> 0 then Inr (- 1, flags)
                   else bind_res (argv_at argv (i + 1)) (\<lambda>next.
                     Inr (if next \<noteq> None then int i + 1 else 0, flags)))
               else if c1 = 0 then Inr (int i, flags)
               else if c1 = 0x69 \<or> c1 = 0x76 then
                 bind_res (char_at s 2) (\<lambda>c2.
                   if c2 \<noteq> 0 then Inr (- 1, flags)
                   else collectargs_loop argv (Suc i)
                     ((if c1 = 0x69 then flags OR FLAGS_INTERACTIVE else flags) OR FLAGS_VERSION))
               else if c1 = 0x67 then collectargs_loop argv (Suc i) (flags OR FLAGS_GDB)
               else if c1 = 0x47 then collectargs_loop argv (Suc i) (flags OR FLAGS_VALGRIND)
               else if c1 = 0x65 \<or> c1 = 0x6a \<or> c1 = 0x63 \<or> c1 = 0x6c then
                 (let flags' = (if c1 = 0x65 then flags OR FLAGS_EXEC else flags) OR FLAGS_OPTION in
                  bind_res (char_at s 2) (\<lambda>c2.
                    if c2 = 0 then
                      bind_res (argv_at argv (Suc i)) (\<lambda>next.
                        if next = None then Inr (- 1, flags') else collectargs_loop argv (Suc (Suc i)) flags')
                    else collectargs_loop argv (Suc i) flags'))
               else if c1 = 0x4f then collectargs_loop argv (Suc i) flags
               else if c1 = 0x62 then
                 (if flags \<noteq> 0 then Inr (- 1, flags) else Inr (0, flags OR FLAGS_EXEC))
               else Inr (- 1, flags))))"
  by pat_completeness auto
termination
  by (relation "measure (\<lambda>(argv, i, flags). Suc (length argv) - i)") (auto simp: argv_at_def split: if_splits)

declare collectargs_loop.simps [simp del]

definition collectargs :: "byte list list \<Rightarrow> (int \<times> int) res" where
  "collectargs argv = collectargs_loop argv 1 0"

section \<open>What is handed to Lua\<close>

text \<open>
  The requests: a chunk with its name, a library, a command of the JIT with its arguments, options of
  the JIT, the bytecode tool with its arguments, and a script (none: the standard input) with its
  arguments and the table \<open>arg\<close>.
\<close>

datatype lua_request =
    Do_string "byte list" string
  | Do_library "byte list"
  | Jit_command "byte list" "lval list"
  | Jit_options "lval list"
  | Bytecode "lval list"
  | Script "byte list option" "lval list" ltable

text \<open>\<open>runcmdopt\<close>: the options between the commas, nil for an empty one.\<close>

definition option_arg :: "byte list \<Rightarrow> lval" where
  "option_arg s = (if s = [] then LNil else LString s)"

function split_options :: "byte list \<Rightarrow> lval list" where
  "split_options opt =
     (if 0x2c \<in> set opt
      then option_arg (takeWhile (\<lambda>c. c \<noteq> 0x2c) opt) # split_options (tl (dropWhile (\<lambda>c. c \<noteq> 0x2c) opt))
      else [option_arg opt])"
  by pat_completeness auto
termination
proof (relation "measure length")
  fix opt :: "byte list" assume a: "0x2c \<in> set opt"
  have "length (dropWhile (\<lambda>c. c \<noteq> 0x2c) opt) \<le> length opt" by (rule length_dropWhile_le)
  moreover have "opt \<noteq> []" using a by auto
  ultimately have "length (dropWhile (\<lambda>c. c \<noteq> 0x2c) opt) - 1 < length opt" by (cases opt) auto
  then show "(tl (dropWhile (\<lambda>c. c \<noteq> 0x2c) opt), opt) \<in> measure length" by simp
qed simp

declare split_options.simps [simp del]

definition runcmdopt_args :: "byte list option \<Rightarrow> lval list" where
  "runcmdopt_args opt = (case opt of None \<Rightarrow> [] | Some s \<Rightarrow> if s = [] then [] else split_options s)"

definition dojitcmd :: "byte list \<Rightarrow> lua_request" where
  "dojitcmd cmd =
     (let opt = (if 0x3d \<in> set cmd then Some (tl (dropWhile (\<lambda>c. c \<noteq> 0x3d) cmd)) else None) in
      Jit_command (takeWhile (\<lambda>c. c \<noteq> 0x3d) cmd) (runcmdopt_args opt))"

definition dojitopt :: "byte list \<Rightarrow> lua_request" where
  "dojitopt opt = Jit_options (runcmdopt_args (Some opt))"

text \<open>\<open>dobytecode\<close>: the rest of the option as an option of its own, and all arguments behind it.\<close>

definition dobytecode :: "byte list list \<Rightarrow> lua_request" where
  "dobytecode argv =
     Bytecode ((if 2 < length (hd argv) then [LString (0x2d # drop 2 (hd argv))] else []) @ map LString (tl argv))"

section \<open>Carrying the options out\<close>

text \<open>\<open>atoi\<close>: white space, a sign, digits; a number out of the range of \<open>int\<close> is undefined.\<close>

definition atoi :: "byte list \<Rightarrow> int res" where
  "atoi s =
     (let t = dropWhile (\<lambda>c. c \<in> {0x20, 0x09, 0x0a, 0x0b, 0x0c, 0x0d}) s;
          u = (case t of [] \<Rightarrow> [] | c # cs \<Rightarrow> if c = 0x2d \<or> c = 0x2b then cs else t);
          n = foldl (\<lambda>n c. n * 10 + (int (unat c) - 0x30)) 0 (takeWhile (\<lambda>c. 0x30 \<le> c \<and> c \<le> 0x39) u);
          k = (if t \<noteq> [] \<and> hd t = 0x2d then - n else n) in
      if - (2 ^ 31) \<le> k \<and> k < 2 ^ 31 then Inr k else Inl (Undefined ''atoi''))"

record 'l main_state =
  core_count :: int
  lua :: 'l

text \<open>The argument of an option: the rest of its string, or the next one, which is then skipped.\<close>

definition option_operand :: "byte list list \<Rightarrow> nat \<Rightarrow> (byte list \<times> nat) res" where
  "option_operand argv i =
     bind_res (char_at (argv ! i) 2) (\<lambda>c2.
       if c2 \<noteq> 0 then Inr (drop 2 (argv ! i), 0)
       else bind_res (argv_at argv (Suc i)) (\<lambda>next.
         case next of None \<Rightarrow> Inl (Undefined ''null argument'') | Some s \<Rightarrow> Inr (s, 1)))"

definition request :: "(lua_request \<Rightarrow> 'l \<Rightarrow> int \<times> 'l) \<Rightarrow> lua_request \<Rightarrow> 'l main_state \<Rightarrow> int \<times> 'l main_state" where
  "request act r st = (case act r (lua st) of (status, l) \<Rightarrow> (status, st\<lparr>lua := l\<rparr>))"

text \<open>
  The loop of \<open>runargs\<close> from index \<open>i\<close>: the status and the state. The assertion that an option starts with
  a dash is checked.
\<close>

function runargs_loop ::
    "(lua_request \<Rightarrow> 'l \<Rightarrow> int \<times> 'l) \<Rightarrow> byte list list \<Rightarrow> nat \<Rightarrow> nat \<Rightarrow> 'l main_state \<Rightarrow> (int \<times> 'l main_state) res" where
  "runargs_loop act argv n i st =
     (if n \<le> i then Inr (0, st)
      else bind_res (argv_at argv i) (\<lambda>a.
        case a of
          None \<Rightarrow> runargs_loop act argv n (Suc i) st
        | Some s \<Rightarrow>
            bind_res (char_at s 0) (\<lambda>c0.
              if c0 \<noteq> 0x2d then Inl Assert_failed
              else bind_res (char_at s 1) (\<lambda>c1.
                if c1 = 0x63 then
                  bind_res (option_operand argv i) (\<lambda>(core_number, skip).
                    bind_res (atoi core_number) (\<lambda>k.
                      runargs_loop act argv n (Suc (i + skip)) (st\<lparr>core_count := k\<rparr>)))
                else if c1 = 0x65 \<or> c1 = 0x6c \<or> c1 = 0x6a then
                  bind_res (option_operand argv i) (\<lambda>(operand, skip).
                    let r = (if c1 = 0x65 then Do_string operand ''=(command line)''
                             else if c1 = 0x6c then Do_library operand else dojitcmd operand) in
                    case request act r st of (status, st') \<Rightarrow>
                      if status \<noteq> 0 then Inr (1, st') else runargs_loop act argv n (Suc (i + skip)) st')
                else if c1 = 0x4f then
                  (case request act (dojitopt (drop 2 s)) st of (status, st') \<Rightarrow>
                     if status \<noteq> 0 then Inr (1, st') else runargs_loop act argv n (Suc i) st')
                else if c1 = 0x62 then Inr (request act (dobytecode (drop i argv)) st)
                else runargs_loop act argv n (Suc i) st))))"
  by pat_completeness auto
termination
  by (relation "measure (\<lambda>(act, argv, n, i, st). n - i)") auto

declare runargs_loop.simps [simp del]

definition runargs ::
    "(lua_request \<Rightarrow> 'l \<Rightarrow> int \<times> 'l) \<Rightarrow> byte list list \<Rightarrow> nat \<Rightarrow> 'l main_state \<Rightarrow> (int \<times> 'l main_state) res" where
  "runargs act argv n st = runargs_loop act argv n 1 st"
section \<open>Running a script\<close>

text \<open>
  \<open>getargs\<close>: the arguments behind the script, and the table \<open>arg\<close> in which the script has index 0 and what
  stands before it negative indices.
\<close>

definition getargs :: "byte list list \<Rightarrow> nat \<Rightarrow> lval list \<times> ltable" where
  "getargs argv n =
     (map LString (drop (n + 1) argv),
      fold (\<lambda>i t. tset t (norm_key (lua_int (int i - int n))) (LString (argv ! i))) [0..<length argv] [])"

definition handle_script :: "byte list list \<Rightarrow> nat \<Rightarrow> lua_request" where
  "handle_script argv n =
     (case getargs argv n of (args, table) \<Rightarrow>
        Script (if argv ! n = [0x2d] \<and> argv ! (n - 1) \<noteq> [0x2d, 0x2d] then None else Some (argv ! n)) args table)"

section \<open>Starting a worker\<close>

text \<open>The array has room for 256 pointers; \<open>n\<close> is the index last written, \<open>args\<close> what is written so far.\<close>

fun spawn_args_loop :: "nat \<Rightarrow> byte list list \<Rightarrow> byte list list \<Rightarrow> byte list list res" where
  "spawn_args_loop n args [] = (if n + 1 < 256 then Inr args else Inl (Undefined ''write past args''))"
| "spawn_args_loop n args (s # rest) =
     (if n < 256 then
        (if n + 1 < 256 then spawn_args_loop (n + 1) (args @ [s]) rest else Inl (Undefined ''write past args''))
      else Inl (Undefined ''write past args''))"

definition spawn_prefix :: "int \<Rightarrow> byte list list" where
  "spawn_prefix flags =
     (if flags AND FLAGS_GDB \<noteq> 0 then [ascii ''gdb'', ascii ''--args'']
      else if flags AND FLAGS_VALGRIND \<noteq> 0 then [ascii ''valgrind'', ascii ''--leak-check=full'', ascii ''-v'']
      else [])"

text \<open>The argument vector of the child, which the null pointer ends.\<close>

definition spawn_args :: "byte list \<Rightarrow> int \<Rightarrow> byte list list \<Rightarrow> nat \<Rightarrow> byte list list res" where
  "spawn_args exepath flags argv script_loc =
     (let pre = spawn_prefix flags in
      spawn_args_loop (length pre) (pre @ [exepath]) (drop script_loc argv))"

text \<open>The two variables are printed into 1024 bytes and copied.\<close>

definition worker_env :: "byte list \<Rightarrow> byte list \<Rightarrow> byte list list \<Rightarrow> byte list list res" where
  "worker_env uuid pipe_fn environ =
     (let a = ascii ''LEV_WORKER_ID='' @ uuid; b = ascii ''LEV_IPC_FILENAME='' @ pipe_fn in
      if length a < 1024 \<and> length b < 1024 then Inr (a # b # environ)
      else Inl (Undefined ''write past env_temp''))"

section \<open>The parent of the workers\<close>

record master =
  uv_workers_count :: int
  lev_exit_code :: int

definition MAX_WORKERS :: int where
  "MAX_WORKERS = 64"

text \<open>
  The loop that starts the workers; every start is asserted to succeed. The result are the numbers the
  workers get in \<open>LEV_WORKER_ID\<close>.
\<close>

function spawn_workers :: "int \<Rightarrow> master \<Rightarrow> int list \<times> master" where
  "spawn_workers cores m =
     (if uv_workers_count m < MAX_WORKERS \<and> uv_workers_count m < cores
      then (case spawn_workers cores (m\<lparr>uv_workers_count := uv_workers_count m + 1\<rparr>) of
              (ids, m') \<Rightarrow> ((uv_workers_count m + 1) # ids, m'))
      else ([], m))"
  by pat_completeness auto
termination
  by (relation "measure (\<lambda>(cores, m). nat (MAX_WORKERS - uv_workers_count m))") auto

declare spawn_workers.simps [simp del]

definition SIGSEGV :: int where
  "SIGSEGV = 11"

datatype master_outcome = Runs master | Exits int

definition worker__on_exit :: "int \<Rightarrow> int \<Rightarrow> master \<Rightarrow> master_outcome" where
  "worker__on_exit exit_status term_signal m =
     (let code = (if exit_status \<noteq> 0 then exit_status else lev_exit_code m);
          code' = (if term_signal = SIGSEGV then SIGSEGV else code);
          m' = m\<lparr>uv_workers_count := uv_workers_count m - 1, lev_exit_code := code'\<rparr> in
      if uv_workers_count m' = 0 then Exits (if code' \<noteq> 0 then code' else 0) else Runs m')"

text \<open>The exits of the workers, one after the other; there are none after the exit of the parent.\<close>

fun workers_exit :: "(int \<times> int) list \<Rightarrow> master \<Rightarrow> master_outcome" where
  "workers_exit [] m = Runs m"
| "workers_exit ((status, signal) # es) m =
     (case worker__on_exit status signal m of Exits code \<Rightarrow> Exits code | Runs m' \<Rightarrow> workers_exit es m')"

section \<open>The main function\<close>

text \<open>The chunk that loads the core library, which ends with \<open>_master\<close> or \<open>_worker\<close>.\<close>

definition core_chunk :: "string \<Rightarrow> byte list" where
  "core_chunk lib =
     ascii ''      local path = require('lev').execpath():match('^(.*)/[^/]+/[^/]+$') .. '/lib/lev/?.lua'' @ [0x27] @
     ascii ''      package.path = path .. ';' .. package.path      assert(require('kickstart'))'' @
     ascii ''      assert(require('' @ [0x27] @ ascii lib @ [0x27] @ ascii ''))''"

text \<open>
  What \<open>pmain\<close> does after \<open>handle_luainit\<close>, whose status is an argument: it ends with a status, runs the
  parent with its workers, or has run the script as a worker.
\<close>

datatype 'l outcome =
    Ends int "'l main_state"
  | Master "int list" master "'l main_state"
  | Worker int "'l main_state"

definition pmain ::
    "(lua_request \<Rightarrow> 'l \<Rightarrow> int \<times> 'l) \<Rightarrow> byte list list \<Rightarrow> bool \<Rightarrow> int \<Rightarrow> 'l main_state \<Rightarrow> 'l outcome res" where
  "pmain act argv is_worker init_status st =
     (if init_status \<noteq> 0 then Inr (Ends init_status st)
      else bind_res (collectargs argv) (\<lambda>(script, flags).
        if script < 0 then Inr (Ends 1 st)
        else bind_res (runargs act argv (if 0 < script then nat script else length argv) st) (\<lambda>(status, st1).
          if status \<noteq> 0 then Inr (Ends status st1)
          else if script = 0 then Inr (Ends 1 st1)
          else if \<not> is_worker then
            (case request act (Do_string (core_chunk ''_master'') ''_master'') st1 of (status, st2) \<Rightarrow>
               if status \<noteq> 0 then Inr (Ends status st2)
               else
                 let st3 = (if flags AND FLAGS_GDB \<noteq> 0 then st2\<lparr>core_count := 1\<rparr> else st2) in
                 case spawn_workers (core_count st3) \<lparr>uv_workers_count = 0, lev_exit_code = 0\<rparr> of
                   (ids, m) \<Rightarrow> Inr (Master ids m st3))
          else
            (case request act (dojitopt (ascii ''maxmcode=4096'')) st1 of (_, st2) \<Rightarrow>
             case request act (dojitopt (ascii ''maxsnap=4096'')) st2 of (_, st3) \<Rightarrow>
             case request act (Do_string (core_chunk ''_worker'') ''_worker'') st3 of (status, st4) \<Rightarrow>
               if status \<noteq> 0 then Inr (Ends status st4)
               else (case request act (handle_script argv (nat script)) st4 of (status, st5) \<Rightarrow> Inr (Worker status st5))))))"
section \<open>The two passes agree\<close>

lemma char_at_dash: "char_at s 0 = Inr 0x2d \<Longrightarrow> \<exists>c. char_at s 1 = Inr c \<and> (c \<noteq> 0 \<longrightarrow> (\<exists>c2. char_at s 2 = Inr c2))"
  by (cases s; cases "tl s") (auto simp: char_at_def split: if_splits)

text \<open>What one round of \<open>collectargs\<close> has found at an index, when the arguments are valid.\<close>

lemma collectargs_step:
  assumes "collectargs_loop argv i flags = Inr (script, flags')" "0 \<le> script"
  obtains (none) "argv_at argv i = Inr None" "script = 0"
  | (script) "script = int i"
  | (dashes) s where "argv_at argv i = Inr (Some s)" "char_at s 0 = Inr 0x2d" "char_at s 1 = Inr 0x2d"
      "script = int i + 1 \<or> script = 0 \<and> Suc i = length argv"
  | (flag) s c fl where "argv_at argv i = Inr (Some s)" "char_at s 0 = Inr 0x2d" "char_at s 1 = Inr c"
      "c \<in> {0x69, 0x76, 0x67, 0x47, 0x4f}" "collectargs_loop argv (Suc i) fl = Inr (script, flags')"
  | (operand) s c c2 fl where "argv_at argv i = Inr (Some s)" "char_at s 0 = Inr 0x2d" "char_at s 1 = Inr c"
      "c \<in> {0x65, 0x6a, 0x63, 0x6c}" "char_at s 2 = Inr c2" "c2 \<noteq> 0"
      "collectargs_loop argv (Suc i) fl = Inr (script, flags')"
  | (operand_next) s c fl s' where "argv_at argv i = Inr (Some s)" "char_at s 0 = Inr 0x2d" "char_at s 1 = Inr c"
      "c \<in> {0x65, 0x6a, 0x63, 0x6c}" "char_at s 2 = Inr 0" "argv_at argv (Suc i) = Inr (Some s')"
      "collectargs_loop argv (Suc (Suc i)) fl = Inr (script, flags')"
  | (bytecode) s where "argv_at argv i = Inr (Some s)" "char_at s 0 = Inr 0x2d" "char_at s 1 = Inr 0x62" "script = 0"
proof -
  obtain a where a: "argv_at argv i = Inr a"
    using assms(1) by (subst (asm) collectargs_loop.simps) (auto simp: bind_res_Inr_iff)
  show thesis
  proof (cases a)
    case None
    then show thesis using assms a by (intro none) (simp_all add: collectargs_loop.simps)
  next
    case (Some s)
    note at = a [unfolded Some]
    obtain c0 where c0: "char_at s 0 = Inr c0" by (cases "s = []") (auto simp: char_at_def)
    show thesis
    proof (cases "c0 = 0x2d")
      case False
      then show thesis using assms at c0 by (intro script) (simp add: collectargs_loop.simps)
    next
      case dash: True
      obtain c where c: "char_at s 1 = Inr c" "c \<noteq> 0 \<Longrightarrow> \<exists>c2. char_at s 2 = Inr c2"
        using char_at_dash [of s] c0 dash by auto
      have step: "collectargs_loop argv i flags =
          (if c = 0x2d then
             bind_res (char_at s 2) (\<lambda>c2.
               if c2 \<noteq> 0 then Inr (- 1, flags)
               else bind_res (argv_at argv (i + 1)) (\<lambda>next. Inr (if next \<noteq> None then int i + 1 else 0, flags)))
           else if c = 0 then Inr (int i, flags)
           else if c = 0x69 \<or> c = 0x76 then
             bind_res (char_at s 2) (\<lambda>c2.
               if c2 \<noteq> 0 then Inr (- 1, flags)
               else collectargs_loop argv (Suc i)
                 ((if c = 0x69 then flags OR FLAGS_INTERACTIVE else flags) OR FLAGS_VERSION))
           else if c = 0x67 then collectargs_loop argv (Suc i) (flags OR FLAGS_GDB)
           else if c = 0x47 then collectargs_loop argv (Suc i) (flags OR FLAGS_VALGRIND)
           else if c = 0x65 \<or> c = 0x6a \<or> c = 0x63 \<or> c = 0x6c then
             (let flags' = (if c = 0x65 then flags OR FLAGS_EXEC else flags) OR FLAGS_OPTION in
              bind_res (char_at s 2) (\<lambda>c2.
                if c2 = 0 then
                  bind_res (argv_at argv (Suc i)) (\<lambda>next.
                    if next = None then Inr (- 1, flags') else collectargs_loop argv (Suc (Suc i)) flags')
                else collectargs_loop argv (Suc i) flags'))
           else if c = 0x4f then collectargs_loop argv (Suc i) flags
           else if c = 0x62 then (if flags \<noteq> 0 then Inr (- 1, flags) else Inr (0, flags OR FLAGS_EXEC))
           else Inr (- 1, flags))"
        by (subst collectargs_loop.simps) (simp add: at c0 c(1) dash del: One_nat_def)
      note * = assms(1) [unfolded step]
      have i: "i < length argv" using at by (auto simp: argv_at_def split: if_splits)
      show thesis
      proof (cases "c \<in> {0x65, 0x6a, 0x63, 0x6c}")
        case True
        then obtain c2 where c2: "char_at s 2 = Inr c2" using c(2) by auto
        let ?fl = "(if c = 0x65 then flags OR FLAGS_EXEC else flags) OR FLAGS_OPTION"
        show thesis
        proof (cases "c2 = 0")
          case zero: True
          obtain s' where "argv_at argv (Suc i) = Inr (Some s')"
            using * True c2 zero assms(2) i by (auto simp: Let_def argv_at_def split: if_splits)
          then show thesis using * True at c0 dash c c2 zero by (intro operand_next [OF at, where fl = ?fl]) (auto simp: Let_def)
        next
          case False
          then show thesis using * True at c0 dash c c2 by (intro operand [OF at, where fl = ?fl]) (auto simp: Let_def)
        qed
      next
        case False
        consider "c = 0x2d" | "c = 0" | "c \<in> {0x69, 0x76, 0x67, 0x47, 0x4f}" | "c = 0x62"
          using * False assms(2) by (auto split: if_splits)
        then show thesis
        proof cases
          case 1
          then obtain c2 where "char_at s 2 = Inr c2" using c(2) by auto
          then show thesis using * 1 at c0 dash c assms(2) i
            by (intro dashes [OF at]) (auto simp: argv_at_def split: if_splits)
        next
          case 2
          then show thesis using * by (intro script) simp
        next
          case 3
          then obtain c2 where "char_at s 2 = Inr c2" using c(2) by auto
          then obtain fl where "collectargs_loop argv (Suc i) fl = Inr (script, flags')"
            using * 3 assms(2) by (auto split: if_splits)
          then show thesis using 3 c0 dash by (intro flag [OF at _ c(1)]) simp_all
        next
          case 4
          then show thesis using * at c0 dash c assms(2) by (intro bytecode [OF at]) (auto split: if_splits)
        qed
      qed
    qed
  qed
qed
text \<open>
  The number given to \<open>-c\<close> is the only thing \<open>runargs\<close> can fail over: the second pass visits the indices
  of the first.
\<close>

lemma argv_at_index: "argv_at argv i = Inr (Some s) \<Longrightarrow> i < length argv \<and> argv ! i = s"
  "argv_at argv i = Inr None \<Longrightarrow> i = length argv"
  by (auto simp: argv_at_def split: if_splits)

lemma atoi_error: "atoi s = Inl e \<Longrightarrow> e = Undefined ''atoi''"
  by (auto simp: atoi_def Let_def split: if_splits)

lemma runargs_follows:
  assumes "collectargs_loop argv i flags = Inr (script, flags')" "0 \<le> script" "0 < i"
  defines "n \<equiv> if 0 < script then nat script else length argv"
  shows "runargs_loop act argv n i st = Inl e \<Longrightarrow> e = Undefined ''atoi''"
  using assms(1,3)
proof (induction "length argv - i" arbitrary: i flags st rule: less_induct)
  case less
  show ?case
  proof (cases "n \<le> i")
    case True
    then show ?thesis using less.prems(1) by (simp add: runargs_loop.simps)
  next
    case False
    have next_ok: "runargs_loop act argv n (Suc i) st' = Inl e \<Longrightarrow> e = Undefined ''atoi''"
      if "collectargs_loop argv (Suc i) fl = Inr (script, flags') \<or> n \<le> Suc i" "i < length argv" for fl st'
      using that less.hyps [of "Suc i" st' fl] by (auto simp: runargs_loop.simps)
    from less.prems(2) assms(2) show ?thesis
    proof (cases rule: collectargs_step)
      case none
      then have "n \<le> i" using argv_at_index(2) [OF none(1)] by (simp add: n_def)
      with False show ?thesis by simp
    next
      case script
      then have "n \<le> i" using less.prems(3) by (simp add: n_def)
      with False show ?thesis by simp
    next
      case (dashes s)
      note at = argv_at_index(1) [OF dashes(1)]
      have "n \<le> Suc i" using dashes(4) by (auto simp: n_def)
      then show ?thesis
        using less.prems(1) next_ok [of 0 st] False dashes at by (subst (asm) runargs_loop.simps) (simp del: One_nat_def)
    next
      case (flag s c fl)
      note at = argv_at_index(1) [OF flag(1)]
      show ?thesis
        using less.prems(1) next_ok [of fl] False flag at
        by (subst (asm) runargs_loop.simps) (auto simp del: One_nat_def split: prod.splits if_splits)
    next
      case (operand s c c2 fl)
      note at = argv_at_index(1) [OF operand(1)]
      have arg: "option_operand argv i = Inr (drop 2 s, 0)" using operand at by (simp add: option_operand_def)
      show ?thesis
        using less.prems(1) next_ok [of fl] False operand at arg
        by (subst (asm) runargs_loop.simps)
           (auto simp: Let_def bind_res_Inl_iff simp del: One_nat_def split: prod.splits if_splits dest: atoi_error)
    next
      case (operand_next s c fl s')
      note at = argv_at_index(1) [OF operand_next(1)]
      have arg: "option_operand argv i = Inr (s', 1)" using operand_next at by (simp add: option_operand_def)
      have IH2: "runargs_loop act argv n (Suc (i + 1)) st' = Inl e \<Longrightarrow> e = Undefined ''atoi''" for st'
      proof -
        have "length argv - Suc (Suc i) < length argv - i" using at by (simp add: diff_less_mono2)
        then show "runargs_loop act argv n (Suc (i + 1)) st' = Inl e \<Longrightarrow> e = Undefined ''atoi''"
          using less.hyps [of "Suc (Suc i)" st' fl] operand_next(7) by simp
      qed
      show ?thesis
        using less.prems(1) IH2 False operand_next at arg
        by (subst (asm) runargs_loop.simps)
           (auto simp: Let_def bind_res_Inl_iff simp del: One_nat_def split: prod.splits if_splits dest: atoi_error)
    next
      case (bytecode s)
      then show ?thesis
        using less.prems(1) False by (subst (asm) runargs_loop.simps) (simp del: One_nat_def)
    qed
  qed
qed
text \<open>The first pass never reads out of bounds, if there is a program name.\<close>

lemma collectargs_total: "i \<le> length argv \<Longrightarrow> \<exists>r. collectargs_loop argv i flags = Inr r"
proof (induction "length argv - i" arbitrary: i flags rule: less_induct)
  case less
  show ?case
  proof (cases "i = length argv")
    case True
    then show ?thesis by (simp add: collectargs_loop.simps argv_at_def)
  next
    case False
    then have at: "argv_at argv i = Inr (Some (argv ! i))" and i: "i < length argv" using less.prems by (simp_all add: argv_at_def)
    have IH1: "\<exists>r. collectargs_loop argv (Suc i) fl = Inr r" for fl using less.hyps i by (simp add: diff_less_mono2)
    have IH2: "\<exists>r. collectargs_loop argv (Suc (Suc i)) fl = Inr r" if "Suc i < length argv" for fl
      using less.hyps that by (simp add: diff_less_mono2)
    obtain c0 where c0: "char_at (argv ! i) 0 = Inr c0" by (cases "argv ! i = []") (auto simp: char_at_def)
    show ?thesis
    proof (cases "c0 = 0x2d")
      case dash: True
      obtain c where c: "char_at (argv ! i) 1 = Inr c" "c \<noteq> 0 \<Longrightarrow> \<exists>c2. char_at (argv ! i) 2 = Inr c2"
        using char_at_dash [of "argv ! i"] c0 dash by auto
      obtain a where a: "argv_at argv (Suc i) = Inr a" "a \<noteq> None \<Longrightarrow> Suc i < length argv"
        using i by (cases "Suc i = length argv") (auto simp: argv_at_def)
      show ?thesis
      proof (cases "c = 0")
        case True
        then show ?thesis by (subst collectargs_loop.simps) (simp add: at c0 dash c(1) del: One_nat_def)
      next
        case False
        then obtain c2 where c2: "char_at (argv ! i) 2 = Inr c2" using c(2) by blast
        have a1: "argv_at argv (i + 1) = Inr a" using a(1) by simp
        have "a \<noteq> None \<Longrightarrow> \<exists>r. collectargs_loop argv (Suc (Suc i)) fl = Inr r" for fl using IH2 a(2) by blast
        with IH1 show ?thesis
          by (subst collectargs_loop.simps)
             (simp add: at c0 dash c(1) c2 a(1) a1 Let_def False del: One_nat_def not_None_eq split_paired_Ex split: if_split)
      qed
    qed (subst collectargs_loop.simps, simp add: at c0)
  qed
qed

section \<open>Options, arguments and workers\<close>

text \<open>The options of a command are what stands between the commas.\<close>

fun join_options :: "lval list \<Rightarrow> byte list" where
  "join_options [] = []"
| "join_options [a] = (case a of LString s \<Rightarrow> s | _ \<Rightarrow> [])"
| "join_options (a # as) = (case a of LString s \<Rightarrow> s | _ \<Rightarrow> []) @ 0x2c # join_options as"

lemma option_arg_text: "(case option_arg s of LString t \<Rightarrow> t | _ \<Rightarrow> []) = s"
  by (simp add: option_arg_def)

lemma split_options_nonempty: "split_options opt \<noteq> []"
  by (subst split_options.simps) simp

lemma join_split_options: "join_options (split_options opt) = opt"
proof (induction opt rule: split_options.induct)
  case (1 opt)
  show ?case
  proof (cases "0x2c \<in> set opt")
    case True
    let ?rest = "tl (dropWhile (\<lambda>c. c \<noteq> 0x2c) opt)"
    obtain a as where r: "split_options ?rest = a # as" using split_options_nonempty [of ?rest] by (cases "split_options ?rest") auto
    have "dropWhile (\<lambda>c. c \<noteq> 0x2c) opt \<noteq> []" "hd (dropWhile (\<lambda>c. c \<noteq> 0x2c) opt) = 0x2c"
      using True hd_dropWhile [of "\<lambda>c. c \<noteq> 0x2c" opt] by auto
    then have "dropWhile (\<lambda>c. c \<noteq> 0x2c) opt = 0x2c # ?rest" by (cases "dropWhile (\<lambda>c. c \<noteq> 0x2c) opt") auto
    then have "opt = takeWhile (\<lambda>c. c \<noteq> 0x2c) opt @ 0x2c # ?rest" by (metis takeWhile_dropWhile_id)
    then show ?thesis
      using 1 True r by (subst split_options.simps) (simp add: option_arg_text)
  next
    case False
    then show ?thesis by (subst split_options.simps) (simp add: option_arg_text)
  qed
qed

text \<open>No option is a string with a comma, and none is empty.\<close>

lemma split_options_parts: "a \<in> set (split_options opt) \<Longrightarrow> a = LNil \<or> (\<exists>s. a = LString s \<and> s \<noteq> [] \<and> 0x2c \<notin> set s)"
proof (induction opt rule: split_options.induct)
  case (1 opt)
  have t: "0x2c \<notin> set (takeWhile (\<lambda>c. c \<noteq> 0x2c) opt)" by (auto dest: set_takeWhileD)
  show ?case using 1 t by (subst (asm) (2) split_options.simps) (auto simp: option_arg_def split: if_splits)
qed

text \<open>The argument vector of a worker holds while there are less than 256 entries with the null pointer.\<close>

lemma spawn_args_loop_fits:
  "spawn_args_loop n args rest =
    (if n + length rest < 255 then Inr (args @ rest) else Inl (Undefined ''write past args''))"
  by (induction rest arbitrary: n args) auto

lemma spawn_args_fit:
  "spawn_args exepath flags argv k =
    (if length (spawn_prefix flags) + (length argv - k) < 255
     then Inr (spawn_prefix flags @ exepath # drop k argv) else Inl (Undefined ''write past args''))"
  by (simp add: spawn_args_def spawn_args_loop_fits Let_def)

lemma spawn_workers_count:
  "0 \<le> uv_workers_count m \<Longrightarrow>
   spawn_workers cores m = ([uv_workers_count m + 1..max (uv_workers_count m) (min MAX_WORKERS cores)],
     m\<lparr>uv_workers_count := max (uv_workers_count m) (min MAX_WORKERS cores)\<rparr>)"
proof (induction cores m rule: spawn_workers.induct)
  case (1 cores m)
  show ?case
  proof (cases "uv_workers_count m < MAX_WORKERS \<and> uv_workers_count m < cores")
    case True
    have "[uv_workers_count m + 1..min MAX_WORKERS cores] = (uv_workers_count m + 1) # [uv_workers_count m + 1 + 1..min MAX_WORKERS cores]"
      using True by (subst upto_rec1) auto
    then show ?thesis using 1 True by (subst spawn_workers.simps) (simp add: max_def)
  next
    case False
    then show ?thesis by (subst spawn_workers.simps) (auto simp: max_def)
  qed
qed

text \<open>The code the parent ends with after a list of exits.\<close>

definition worker_code :: "int \<times> int \<Rightarrow> int" where
  "worker_code e = (if snd e = SIGSEGV then SIGSEGV else fst e)"

definition master_code :: "int \<Rightarrow> (int \<times> int) list \<Rightarrow> int" where
  "master_code code es = (case filter (\<lambda>c. c \<noteq> 0) (map worker_code es) of [] \<Rightarrow> code | cs \<Rightarrow> last cs)"

lemma master_code_Cons: "master_code code (e # es) = master_code (if worker_code e \<noteq> 0 then worker_code e else code) es"
  by (auto simp: master_code_def split: list.splits)

lemma workers_exit_spec:
  "0 < uv_workers_count m \<Longrightarrow> workers_exit es m =
    (if int (length es) < uv_workers_count m
     then Runs (m\<lparr>uv_workers_count := uv_workers_count m - int (length es), lev_exit_code := master_code (lev_exit_code m) es\<rparr>)
     else Exits (master_code (lev_exit_code m) (take (nat (uv_workers_count m)) es)))"
proof (induction es arbitrary: m)
  case Nil
  then show ?case by (simp add: master_code_def)
next
  case (Cons e es)
  obtain status signal where e: "e = (status, signal)" by (cases e)
  let ?code = "if worker_code e \<noteq> 0 then worker_code e else lev_exit_code m"
  have step: "worker__on_exit status signal m =
      (if uv_workers_count m = 1 then Exits ?code
       else Runs (m\<lparr>uv_workers_count := uv_workers_count m - 1, lev_exit_code := ?code\<rparr>))"
    by (auto simp: worker__on_exit_def Let_def e worker_code_def SIGSEGV_def)
  show ?case
  proof (cases "uv_workers_count m = 1")
    case True
    then show ?thesis by (simp add: e step [unfolded e] master_code_Cons) (simp add: master_code_def)
  next
    case False
    then have n: "0 < uv_workers_count m - 1" using Cons.prems by simp
    have t: "take (nat (uv_workers_count m)) (e # es) = e # take (nat (uv_workers_count m - 1)) es"
      using n by (cases "nat (uv_workers_count m)") (auto simp: nat_diff_distrib')
    show ?thesis
      using Cons.IH [of "m\<lparr>uv_workers_count := uv_workers_count m - 1, lev_exit_code := ?code\<rparr>"] n False
      unfolding t master_code_Cons by (auto simp: e step [unfolded e])
  qed
qed

end
