(* ===== verification/Time_Cache.thy ===== *)
theory Time_Cache
  imports C_Number Lua_Call "HOL-Library.Signed_Division"
begin

text \<open>
  The clock of the server, \<open>src/time_cache.c\<close>: a ring of 64 slots, each with a time and three texts of it.
  An update writes the next slot and then publishes it, so that who still reads the old texts is not
  disturbed. \<open>gmtime\<close>, \<open>localtime\<close> and \<open>sprintf\<close> of the C library are executable models; a time zone is its
  \<open>timezone\<close> and the times at which daylight saving, of one hour, is in force.
\<close>

section \<open>Calendar\<close>

record tm =
  tm_sec :: int
  tm_min :: int
  tm_hour :: int
  tm_mday :: int
  tm_mon :: int
  tm_year :: int
  tm_wday :: int
  tm_isdst :: bool

definition leap_year :: "int \<Rightarrow> bool" where
  "leap_year y \<longleftrightarrow> 4 dvd y \<and> (\<not> 100 dvd y \<or> 400 dvd y)"

definition year_days :: "int \<Rightarrow> int" where
  "year_days y = (if leap_year y then 366 else 365)"

definition month_lengths :: "int \<Rightarrow> int list" where
  "month_lengths y = [31, if leap_year y then 29 else 28, 31, 30, 31, 30, 31, 31, 30, 31, 30, 31]"

lemma year_days_pos: "0 < year_days y"
  by (simp add: year_days_def)

text \<open>The year of a day counted from the start of year \<open>y\<close>, and the day in it; the same for months.\<close>

function years_back :: "int \<Rightarrow> int \<Rightarrow> int \<times> int" where
  "years_back y d = (if 0 \<le> d then (y, d) else years_back (y - 1) (d + year_days (y - 1)))"
  by pat_completeness auto
termination
  by (relation "measure (\<lambda>(y, d). nat (- d))") (auto simp: year_days_pos)

function years_on :: "int \<Rightarrow> int \<Rightarrow> int \<times> int" where
  "years_on y d = (if d < year_days y then (y, d) else years_on (y + 1) (d - year_days y))"
  by pat_completeness auto
termination
proof (relation "measure (\<lambda>(y, d). nat d)")
  fix y d :: int assume "\<not> d < year_days y"
  then show "((y + 1, d - year_days y), y, d) \<in> measure (\<lambda>(y, d). nat d)"
    using year_days_pos [of y] by simp
qed simp

declare years_back.simps [simp del] years_on.simps [simp del]

fun months_on :: "int list \<Rightarrow> int \<Rightarrow> int \<Rightarrow> int \<times> int" where
  "months_on [] m d = (m - 1, d)"
| "months_on (l # ls) m d = (if d < l then (m, d) else months_on ls (m + 1) (d - l))"

definition gmtime :: "int \<Rightarrow> tm" where
  "gmtime t =
     (let days = t div 86400; s = t mod 86400;
          (y0, d0) = years_back 1970 days; (y, d) = years_on y0 d0;
          (m, md) = months_on (month_lengths y) 0 d in
      \<lparr>tm_sec = s mod 60, tm_min = s div 60 mod 60, tm_hour = s div 3600, tm_mday = md + 1, tm_mon = m,
       tm_year = y - 1900, tm_wday = (days + 4) mod 7, tm_isdst = False\<rparr>)"

record zone =
  timezone :: int
  dst :: "int \<Rightarrow> bool"

definition utc_offset :: "zone \<Rightarrow> int \<Rightarrow> int" where
  "utc_offset z t = (if dst z t then 3600 else 0) - timezone z"

definition localtime :: "zone \<Rightarrow> int \<Rightarrow> tm" where
  "localtime z t = (gmtime (t + utc_offset z t))\<lparr>tm_isdst := dst z t\<rparr>"

section \<open>The texts\<close>

definition pad_left :: "byte \<Rightarrow> nat \<Rightarrow> byte list \<Rightarrow> byte list" where
  "pad_left c n s = replicate (n - length s) c @ s"

text \<open>\<open>%d\<close>, \<open>%4d\<close> and \<open>%02d\<close>: zeros go between the sign and the digits.\<close>

definition fmt_d :: "int \<Rightarrow> byte list" where
  "fmt_d k = (if k < 0 then [0x2d] else []) @ dec_digits (nat \<bar>k\<bar>)"

definition fmt_4d :: "int \<Rightarrow> byte list" where
  "fmt_4d k = pad_left 0x20 4 (fmt_d k)"

definition fmt_02d :: "int \<Rightarrow> byte list" where
  "fmt_02d k = (if k < 0 then 0x2d # pad_left 0x30 1 (dec_digits (nat (- k))) else pad_left 0x30 2 (dec_digits (nat k)))"

definition week :: "string list" where
  "week = [''Sun'', ''Mon'', ''Tue'', ''Wed'', ''Thu'', ''Fri'', ''Sat'']"

definition months :: "string list" where
  "months = [''Jan'', ''Feb'', ''Mar'', ''Apr'', ''May'', ''Jun'', ''Jul'', ''Aug'', ''Sep'', ''Oct'', ''Nov'', ''Dec'']"

definition name_at :: "string list \<Rightarrow> int \<Rightarrow> byte list res" where
  "name_at names i = (if 0 \<le> i \<and> i < int (length names) then Inr (ascii (names ! nat i))
                      else Inl (Undefined ''read past the names''))"

text \<open>\<open>sprintf\<close> into an array of \<open>n\<close> bytes, the null byte included.\<close>

definition sprintf_to :: "nat \<Rightarrow> byte list \<Rightarrow> byte list res" where
  "sprintf_to n s = (if length s < n then Inr s else Inl (Undefined ''write past the text''))"

definition clock_text :: "tm \<Rightarrow> byte list" where
  "clock_text p = fmt_02d (tm_hour p) @ [0x3a] @ fmt_02d (tm_min p) @ [0x3a] @ fmt_02d (tm_sec p)"

definition http_time_text :: "tm \<Rightarrow> byte list res" where
  "http_time_text gmt =
     bind_res (name_at week (tm_wday gmt)) (\<lambda>wd. bind_res (name_at months (tm_mon gmt)) (\<lambda>mn.
       sprintf_to 30 (wd @ [0x2c, 0x20] @ fmt_02d (tm_mday gmt) @ [0x20] @ mn @ [0x20] @ fmt_4d (tm_year gmt + 1900) @
         [0x20] @ clock_text gmt @ ascii '' GMT'')))"

definition err_log_time_text :: "tm \<Rightarrow> byte list res" where
  "err_log_time_text p =
     sprintf_to 20 (fmt_4d (tm_year p + 1900) @ [0x2f] @ fmt_02d (tm_mon p + 1) @ [0x2f] @ fmt_02d (tm_mday p) @ [0x20] @ clock_text p)"

definition http_log_time_text :: "tm \<Rightarrow> int \<Rightarrow> byte list res" where
  "http_log_time_text p gmtoff =
     bind_res (name_at months (tm_mon p)) (\<lambda>mn.
       sprintf_to 27 (fmt_02d (tm_mday p) @ [0x2f] @ mn @ [0x2f] @ fmt_d (tm_year p + 1900) @ [0x3a] @ clock_text p @ [0x20] @
         [if gmtoff < 0 then 0x2d else 0x2b] @ fmt_02d \<bar>gmtoff sdiv 60\<bar> @ fmt_02d \<bar>gmtoff smod 60\<bar>))"

section \<open>The ring\<close>

definition TIME_SLOTS :: nat where
  "TIME_SLOTS = 64"

record cache_time_t =
  ct_sec :: int
  ct_msec :: int
  ct_gmtoff :: int

text \<open>
  The static variables. \<open>published\<close> is the slot the four global pointers point into, none before the first
  time; \<open>cache_time_init\<close> publishes the time of slot 0 without its texts.
\<close>

record time_cache =
  slot :: nat
  current_msec :: int
  cached_time :: "cache_time_t list"
  cached_err_log_time :: "byte list list"
  cached_http_time :: "byte list list"
  cached_http_log_time :: "byte list list"
  published_time :: "nat option"
  published_texts :: "nat option"

definition get_timezone :: "zone \<Rightarrow> bool \<Rightarrow> int" where
  "get_timezone z isdst = (- (if isdst then timezone z + 3600 else timezone z)) sdiv 60"

text \<open>\<open>tv_sec\<close> and \<open>tv_usec\<close> are what \<open>gettimeofday\<close> gives, \<open>tt\<close> what \<open>time\<close> gives after it.\<close>

definition cache_time_update :: "zone \<Rightarrow> int \<Rightarrow> int \<Rightarrow> int \<Rightarrow> time_cache \<Rightarrow> time_cache res" where
  "cache_time_update z tv_sec tv_usec tt c =
     (let msec = tv_usec sdiv 1000;
          c0 = c\<lparr>current_msec := (tv_sec * 1000 + msec) mod 2 ^ 64\<rparr>;
          tp = cached_time c ! slot c in
      if ct_sec tp = tv_sec then Inr (c0\<lparr>cached_time := (cached_time c)[slot c := tp\<lparr>ct_msec := msec\<rparr>]\<rparr>)
      else
        let s = (if slot c = TIME_SLOTS - 1 then 0 else slot c + 1);
            p = localtime z tt;
            gmtoff = get_timezone z (tm_isdst p) in
        bind_res (http_time_text (gmtime tt)) (\<lambda>p0.
        bind_res (err_log_time_text p) (\<lambda>p1.
        bind_res (http_log_time_text p gmtoff) (\<lambda>p2.
          Inr (c0\<lparr>slot := s,
                  cached_time := (cached_time c)[s := \<lparr>ct_sec = tv_sec, ct_msec = msec, ct_gmtoff = gmtoff\<rparr>],
                  cached_http_time := (cached_http_time c)[s := p0],
                  cached_err_log_time := (cached_err_log_time c)[s := p1],
                  cached_http_log_time := (cached_http_log_time c)[s := p2],
                  published_time := Some s, published_texts := Some s\<rparr>)))))"

definition cache_time_start :: time_cache where
  "cache_time_start =
     \<lparr>slot = 0, current_msec = 0, cached_time = replicate TIME_SLOTS \<lparr>ct_sec = 0, ct_msec = 0, ct_gmtoff = 0\<rparr>,
      cached_err_log_time = replicate TIME_SLOTS [], cached_http_time = replicate TIME_SLOTS [],
      cached_http_log_time = replicate TIME_SLOTS [], published_time = None, published_texts = None\<rparr>"

definition cache_time_init :: "zone \<Rightarrow> int \<Rightarrow> int \<Rightarrow> int \<Rightarrow> time_cache \<Rightarrow> time_cache res" where
  "cache_time_init z tv_sec tv_usec tt c = cache_time_update z tv_sec tv_usec tt (c\<lparr>published_time := Some 0\<rparr>)"

section \<open>The parts of a time are in range\<close>

lemma year_days_le: "year_days y \<le> 366"
  by (simp add: year_days_def)

lemma years_back_ge: "0 \<le> snd (years_back y d) \<and> fst (years_back y d) \<le> y \<and> min y (y + d) \<le> fst (years_back y d) \<and>
    (if 0 \<le> d then years_back y d = (y, d) else snd (years_back y d) < 366)"
proof (induction y d rule: years_back.induct)
  case (1 y d)
  then show ?case
    using year_days_pos [of "y - 1"] year_days_le [of "y - 1"]
    by (subst (1 2 3 4 5) years_back.simps) (auto simp: min_def split: if_splits)
qed

lemma years_on_range: "0 \<le> d \<Longrightarrow> case years_on y d of (y', d') \<Rightarrow>
    0 \<le> d' \<and> d' < year_days y' \<and> y \<le> y' \<and> 365 * (y' - y) \<le> d"
proof (induction y d rule: years_on.induct)
  case (1 y d)
  have "365 \<le> year_days y" by (simp add: year_days_def)
  with 1 show ?case by (subst years_on.simps) (auto split: prod.splits)
qed

lemma months_on_range: "0 \<le> d \<Longrightarrow> d < sum_list ls \<Longrightarrow> case months_on ls m d of (m', d') \<Rightarrow>
    m \<le> m' \<and> m' < m + int (length ls) \<and> 0 \<le> d' \<and> d' < ls ! nat (m' - m)"
proof (induction ls m d rule: months_on.induct)
  case (2 l ls m d)
  show ?case
  proof (cases "d < l")
    case False
    obtain m' d' where r: "months_on ls (m + 1) (d - l) = (m', d')" by fastforce
    have "m + 1 \<le> m' \<and> m' < m + 1 + int (length ls) \<and> 0 \<le> d' \<and> d' < ls ! nat (m' - (m + 1))"
      using 2 False by (simp add: r)
    moreover from this have "nat (m' - m) = Suc (nat (m' - (m + 1)))" by arith
    ultimately show ?thesis using False by (simp add: r)
  qed (use 2 in simp)
qed simp

lemma month_lengths_sum: "sum_list (month_lengths y) = year_days y"
  by (simp add: month_lengths_def year_days_def)

lemma month_lengths_le: "0 \<le> m \<Longrightarrow> m < 12 \<Longrightarrow> month_lengths y ! nat m \<le> 31"
proof -
  assume "0 \<le> m" "m < 12"
  then have "month_lengths y ! nat m \<in> set (month_lengths y)"
    by (intro nth_mem) (simp add: month_lengths_def nat_less_iff)
  moreover have "\<forall>l \<in> set (month_lengths y). l \<le> 31" by (simp add: month_lengths_def)
  ultimately show ?thesis by blast
qed

text \<open>The ranges of the parts, and of the year for a time within \<open>lo\<close> and \<open>hi\<close> days of 1970.\<close>

definition tm_ok :: "tm \<Rightarrow> bool" where
  "tm_ok p \<longleftrightarrow> 0 \<le> tm_sec p \<and> tm_sec p < 60 \<and> 0 \<le> tm_min p \<and> tm_min p < 60 \<and> 0 \<le> tm_hour p \<and> tm_hour p < 24 \<and>
     1 \<le> tm_mday p \<and> tm_mday p \<le> 31 \<and> 0 \<le> tm_mon p \<and> tm_mon p < 12 \<and> 0 \<le> tm_wday p \<and> tm_wday p < 7"

lemma gmtime_ok:
  shows "tm_ok (gmtime t)"
    and "- 86400 * 100 \<le> t \<Longrightarrow> t < 2 ^ 37 \<Longrightarrow> 0 \<le> tm_year (gmtime t) + 1900 \<and> tm_year (gmtime t) + 1900 < 10000"
proof -
  let ?days = "t div 86400"
  obtain y0 d0 where a: "years_back 1970 ?days = (y0, d0)" by fastforce
  obtain y d where b: "years_on y0 d0 = (y, d)" by fastforce
  obtain m md where c: "months_on (month_lengths y) 0 d = (m, md)" by fastforce
  have d0: "0 \<le> d0" "y0 \<le> 1970" "min 1970 (1970 + ?days) \<le> y0" "if 0 \<le> ?days then y0 = 1970 \<and> d0 = ?days else d0 < 366"
    using years_back_ge [of 1970 ?days] a by (auto split: if_splits)
  have d: "0 \<le> d" "d < year_days y" "y0 \<le> y" "365 * (y - y0) \<le> d0"
    using years_on_range [OF d0(1), of y0] by (simp_all add: b)
  have "length (month_lengths y) = 12" by (simp add: month_lengths_def)
  with months_on_range [of d "month_lengths y" 0] d have m: "0 \<le> m" "m < 12" "0 \<le> md" "md < month_lengths y ! nat m"
    by (simp_all add: month_lengths_sum c)
  have md: "md \<le> 30" using m(4) month_lengths_le [OF m(1,2), of y] by simp
  have g: "gmtime t = \<lparr>tm_sec = t mod 86400 mod 60, tm_min = t mod 86400 div 60 mod 60, tm_hour = t mod 86400 div 3600,
      tm_mday = md + 1, tm_mon = m, tm_year = y - 1900, tm_wday = (?days + 4) mod 7, tm_isdst = False\<rparr>"
    by (simp add: gmtime_def Let_def a b c)
  have s: "0 \<le> t mod 86400" "t mod 86400 < 86400" by simp_all
  then have "0 \<le> t mod 86400 div 3600" "t mod 86400 div 3600 < 24" by simp_all
  then show "tm_ok (gmtime t)" using m md by (simp add: g tm_ok_def)
  assume "- 86400 * 100 \<le> t" "t < 2 ^ 37"
  then have "- 100 \<le> ?days" "?days < 1590729" by simp_all
  then have "0 \<le> y" "y < 10000" using d d0 by (simp_all split: if_splits)
  then show "0 \<le> tm_year (gmtime t) + 1900 \<and> tm_year (gmtime t) + 1900 < 10000" by (simp add: g)
qed

section \<open>The texts fit\<close>

lemma dec_digits_len: "n < 10 ^ k \<Longrightarrow> 0 < k \<Longrightarrow> length (dec_digits n) \<le> k"
  using dec_digits_length_le [of n k] by (cases "n = 0") (simp_all add: dec_digits.simps)

lemma length_fmt_02d: "0 \<le> k \<Longrightarrow> k < 100 \<Longrightarrow> length (fmt_02d k) = 2"
  using dec_digits_len [of "nat k" 2] by (simp add: fmt_02d_def pad_left_def nat_less_iff)

lemma length_fmt_d: "0 \<le> k \<Longrightarrow> k < 10000 \<Longrightarrow> length (fmt_d k) \<le> 4"
  using dec_digits_len [of "nat k" 4] by (simp add: fmt_d_def nat_less_iff)

lemma length_fmt_4d: "0 \<le> k \<Longrightarrow> k < 10000 \<Longrightarrow> length (fmt_4d k) = 4"
  using length_fmt_d [of k] by (simp add: fmt_4d_def pad_left_def)

lemma length_clock_text: "tm_ok p \<Longrightarrow> length (clock_text p) = 8"
  by (simp add: clock_text_def tm_ok_def length_fmt_02d)

lemma name_at_ok:
  assumes "0 \<le> i" "i < int (length names)" "\<forall>s \<in> set names. length s = n"
  shows "\<exists>s. name_at names i = Inr s \<and> length s = n"
proof -
  have "names ! nat i \<in> set names" using assms(1,2) by (intro nth_mem) (simp add: nat_less_iff)
  with assms show ?thesis by (simp add: name_at_def ascii_def)
qed

lemma name_at_months: "0 \<le> m \<Longrightarrow> m < 12 \<Longrightarrow> \<exists>s. name_at months m = Inr s \<and> length s = 3"
  by (rule name_at_ok) (simp_all add: months_def)

lemma name_at_week: "0 \<le> d \<Longrightarrow> d < 7 \<Longrightarrow> \<exists>s. name_at week d = Inr s \<and> length s = 3"
  by (rule name_at_ok) (simp_all add: week_def)

lemma http_time_text_ok:
  assumes "tm_ok p" "0 \<le> tm_year p + 1900" "tm_year p + 1900 < 10000"
  shows "\<exists>s. http_time_text p = Inr s \<and> length s = 29"
proof -
  obtain wd where wd: "name_at week (tm_wday p) = Inr wd" "length wd = 3" using name_at_week assms(1) by (auto simp: tm_ok_def)
  obtain mn where mn: "name_at months (tm_mon p) = Inr mn" "length mn = 3" using name_at_months assms(1) by (auto simp: tm_ok_def)
  have "length (fmt_02d (tm_mday p)) = 2" using assms(1) by (simp add: tm_ok_def length_fmt_02d)
  then show ?thesis
    using assms by (simp add: http_time_text_def wd mn sprintf_to_def length_fmt_4d length_clock_text ascii_def)
qed

lemma err_log_time_text_ok:
  assumes "tm_ok p" "0 \<le> tm_year p + 1900" "tm_year p + 1900 < 10000"
  shows "\<exists>s. err_log_time_text p = Inr s \<and> length s = 19"
proof -
  have "length (fmt_02d (tm_mday p)) = 2" "length (fmt_02d (tm_mon p + 1)) = 2"
    using assms(1) by (simp_all add: tm_ok_def length_fmt_02d)
  then show ?thesis
    using assms by (simp add: err_log_time_text_def sprintf_to_def length_fmt_4d length_clock_text)
qed

lemma http_log_time_text_ok:
  assumes "tm_ok p" "0 \<le> tm_year p + 1900" "tm_year p + 1900 < 10000" "\<bar>off\<bar> < 6000"
  shows "\<exists>s. http_log_time_text p off = Inr s \<and> length s \<le> 26"
proof -
  obtain mn where mn: "name_at months (tm_mon p) = Inr mn" "length mn = 3" using name_at_months assms(1) by (auto simp: tm_ok_def)
  have "\<bar>off sdiv 60\<bar> = \<bar>off\<bar> div 60" "\<bar>off smod 60\<bar> = \<bar>off\<bar> mod 60"
    by (simp_all add: signed_divide_int_def signed_modulo_int_def abs_mult sgn_if)
  then have "length (fmt_02d \<bar>off sdiv 60\<bar>) = 2" "length (fmt_02d \<bar>off smod 60\<bar>) = 2"
    using assms(4) by (auto intro!: length_fmt_02d simp: pos_mod_bound [of 60, THEN less_trans])
  moreover have "length (fmt_02d (tm_mday p)) = 2" using assms(1) by (simp add: tm_ok_def length_fmt_02d)
  ultimately show ?thesis
    using assms length_fmt_d [of "tm_year p + 1900"] by (simp add: http_log_time_text_def mn sprintf_to_def length_clock_text)
qed

section \<open>Updates\<close>

text \<open>The clocks and zones for which years have four digits and offsets two digits of hours.\<close>

definition clock_ok :: "zone \<Rightarrow> int \<Rightarrow> bool" where
  "clock_ok z tt \<longleftrightarrow> 0 \<le> tt \<and> tt < 2 ^ 36 \<and> \<bar>timezone z\<bar> \<le> 86400"

definition ring_ok :: "time_cache \<Rightarrow> bool" where
  "ring_ok c \<longleftrightarrow> slot c < TIME_SLOTS \<and> length (cached_time c) = TIME_SLOTS \<and>
     length (cached_http_time c) = TIME_SLOTS \<and> length (cached_err_log_time c) = TIME_SLOTS \<and>
     length (cached_http_log_time c) = TIME_SLOTS \<and>
     (\<forall>t \<in> set (cached_http_time c). length t < 30) \<and> (\<forall>t \<in> set (cached_err_log_time c). length t < 20) \<and>
     (\<forall>t \<in> set (cached_http_log_time c). length t < 27) \<and>
     (\<forall>s. published_texts c = Some s \<longrightarrow> s = slot c)"

text \<open>What a reader of slot \<open>s\<close> sees.\<close>

definition slot_texts :: "nat \<Rightarrow> time_cache \<Rightarrow> byte list \<times> byte list \<times> byte list" where
  "slot_texts s c = (cached_http_time c ! s, cached_err_log_time c ! s, cached_http_log_time c ! s)"

definition slot_sec :: "time_cache \<Rightarrow> int" where
  "slot_sec c = ct_sec (cached_time c ! slot c)"

lemma localtime_ok:
  assumes "clock_ok z tt"
  shows "tm_ok (localtime z tt)" "0 \<le> tm_year (localtime z tt) + 1900" "tm_year (localtime z tt) + 1900 < 10000"
    "\<bar>get_timezone z (tm_isdst (localtime z tt))\<bar> < 6000"
proof -
  have "\<bar>utc_offset z tt\<bar> \<le> 90000" using assms by (auto simp: utc_offset_def clock_ok_def)
  then have "- 86400 * 100 \<le> tt + utc_offset z tt" "tt + utc_offset z tt < 2 ^ 37"
    using assms unfolding clock_ok_def abs_le_iff by simp_all
  with gmtime_ok(2) gmtime_ok(1) [of "tt + utc_offset z tt"]
  show "tm_ok (localtime z tt)" "0 \<le> tm_year (localtime z tt) + 1900" "tm_year (localtime z tt) + 1900 < 10000"
    by (simp_all add: localtime_def tm_ok_def)
  have sdiv: "\<bar>k sdiv 60\<bar> < 6000" if "\<bar>k\<bar> \<le> 90000" for k :: int
    using that by (auto simp: signed_divide_int_def abs_mult sgn_if)
  then show "\<bar>get_timezone z (tm_isdst (localtime z tt))\<bar> < 6000"
    using assms unfolding get_timezone_def clock_ok_def by (intro sdiv) (auto simp: abs_le_iff)
qed

lemma cache_time_update_cases:
  assumes "clock_ok z tt"
  obtains (same) "tv_sec = slot_sec c" "cache_time_update z tv_sec tv_usec tt c =
      Inr (c\<lparr>current_msec := (tv_sec * 1000 + tv_usec sdiv 1000) mod 2 ^ 64,
             cached_time := (cached_time c)[slot c := (cached_time c ! slot c)\<lparr>ct_msec := tv_usec sdiv 1000\<rparr>]\<rparr>)"
  | (next_slot) p0 p1 p2 s gmtoff where "tv_sec \<noteq> slot_sec c" "s = (if slot c = TIME_SLOTS - 1 then 0 else slot c + 1)"
      "gmtoff = get_timezone z (dst z tt)" "http_time_text (gmtime tt) = Inr p0" "length p0 < 30"
      "err_log_time_text (localtime z tt) = Inr p1" "length p1 < 20"
      "http_log_time_text (localtime z tt) gmtoff = Inr p2" "length p2 < 27"
      "cache_time_update z tv_sec tv_usec tt c =
       Inr (c\<lparr>slot := s, current_msec := (tv_sec * 1000 + tv_usec sdiv 1000) mod 2 ^ 64,
              cached_time := (cached_time c)[s := \<lparr>ct_sec = tv_sec, ct_msec = tv_usec sdiv 1000, ct_gmtoff = gmtoff\<rparr>],
              cached_http_time := (cached_http_time c)[s := p0], cached_err_log_time := (cached_err_log_time c)[s := p1],
              cached_http_log_time := (cached_http_log_time c)[s := p2], published_time := Some s, published_texts := Some s\<rparr>)"
proof (cases "tv_sec = slot_sec c")
  case True
  then show thesis by (intro same) (simp_all add: cache_time_update_def slot_sec_def Let_def)
next
  case False
  note local = localtime_ok [OF assms]
  have "0 \<le> tm_year (gmtime tt) + 1900 \<and> tm_year (gmtime tt) + 1900 < 10000"
    using gmtime_ok(2) [of tt] assms by (simp add: clock_ok_def)
  then obtain p0 where p0: "http_time_text (gmtime tt) = Inr p0" "length p0 = 29"
    using http_time_text_ok [OF gmtime_ok(1) [of tt]] by blast
  obtain p1 where p1: "err_log_time_text (localtime z tt) = Inr p1" "length p1 = 19"
    using err_log_time_text_ok [OF local(1-3)] by blast
  obtain p2 where p2: "http_log_time_text (localtime z tt) (get_timezone z (dst z tt)) = Inr p2" "length p2 \<le> 26"
    using http_log_time_text_ok [OF local(1-3), of "get_timezone z (dst z tt)"] local(4) by (auto simp: localtime_def)
  have d: "tm_isdst (localtime z tt) = dst z tt" by (simp add: localtime_def)
  show thesis
    by (rule next_slot [OF False refl refl p0(1) _ p1(1) _ p2(1)])
       (use False p0 p1 p2 in \<open>simp_all add: cache_time_update_def slot_sec_def Let_def d\<close>)
qed

text \<open>A run: the readings of the clocks, one update each; and how often the second changes in it.\<close>

fun cache_time_updates :: "zone \<Rightarrow> (int \<times> int \<times> int) list \<Rightarrow> time_cache \<Rightarrow> time_cache res" where
  "cache_time_updates z [] c = Inr c"
| "cache_time_updates z ((tv_sec, tv_usec, tt) # us) c =
     bind_res (cache_time_update z tv_sec tv_usec tt c) (cache_time_updates z us)"

fun ticks :: "int \<Rightarrow> (int \<times> int \<times> int) list \<Rightarrow> nat" where
  "ticks sec [] = 0"
| "ticks sec ((tv_sec, _, _) # us) = (if tv_sec = sec then 0 else 1) + ticks tv_sec us"

definition clocks_ok :: "zone \<Rightarrow> (int \<times> int \<times> int) list \<Rightarrow> bool" where
  "clocks_ok z us \<longleftrightarrow> (\<forall>u \<in> set us. clock_ok z (snd (snd u)))"

lemma ring_ok_start: "ring_ok cache_time_start"
  by (simp add: ring_ok_def cache_time_start_def TIME_SLOTS_def)

lemma all_list_update: "\<forall>x \<in> set xs. P x \<Longrightarrow> P y \<Longrightarrow> \<forall>x \<in> set (xs[i := y]). P x"
  using set_update_subset_insert [of xs i y] by blast

text \<open>
  One update: the second is the one read, the slot moves on when it changed, and all other slots keep
  their texts.
\<close>

lemma cache_time_update_step:
  assumes "ring_ok c" "clock_ok z tt"
  shows "\<exists>c'. cache_time_update z tv_sec tv_usec tt c = Inr c' \<and> ring_ok c' \<and> slot_sec c' = tv_sec \<and>
    slot c' = (slot c + (if tv_sec = slot_sec c then 0 else 1)) mod TIME_SLOTS \<and>
    (\<forall>s. s \<noteq> slot c' \<or> tv_sec = slot_sec c \<longrightarrow> slot_texts s c' = slot_texts s c)"
  using assms(2)
proof (cases rule: cache_time_update_cases [where c = c and tv_sec = tv_sec and tv_usec = tv_usec])
  case same
  let ?c = "c\<lparr>current_msec := (tv_sec * 1000 + tv_usec sdiv 1000) mod 2 ^ 64,
      cached_time := (cached_time c)[slot c := (cached_time c ! slot c)\<lparr>ct_msec := tv_usec sdiv 1000\<rparr>]\<rparr>"
  have "ring_ok ?c" using assms(1) by (simp add: ring_ok_def)
  moreover have "slot_sec ?c = tv_sec" using assms(1) same(1) by (simp add: ring_ok_def slot_sec_def)
  moreover have "slot_texts s ?c = slot_texts s c" for s by (simp add: slot_texts_def)
  moreover have "slot c = slot c mod TIME_SLOTS" using assms(1) by (simp add: ring_ok_def)
  ultimately show ?thesis using same by (intro exI [of _ ?c]) simp
next
  case (next_slot p0 p1 p2 s gmtoff)
  have s: "s < TIME_SLOTS" "s = (slot c + 1) mod TIME_SLOTS"
    using next_slot(2) assms(1) by (auto simp: ring_ok_def TIME_SLOTS_def)
  obtain c' where c': "cache_time_update z tv_sec tv_usec tt c = Inr c'" "slot c' = s" "published_texts c' = Some s"
      "cached_time c' = (cached_time c)[s := \<lparr>ct_sec = tv_sec, ct_msec = tv_usec sdiv 1000, ct_gmtoff = gmtoff\<rparr>]"
      "cached_http_time c' = (cached_http_time c)[s := p0]" "cached_err_log_time c' = (cached_err_log_time c)[s := p1]"
      "cached_http_log_time c' = (cached_http_log_time c)[s := p2]"
    by (rule that [OF next_slot(10)]) simp_all
  have "ring_ok c'"
    unfolding ring_ok_def c' length_list_update
    by (intro conjI all_list_update) (use assms(1) s(1) next_slot(5,7,9) in \<open>simp_all add: ring_ok_def\<close>)
  moreover have "slot_sec c' = tv_sec" using s(1) assms(1) by (simp add: slot_sec_def c' ring_ok_def)
  moreover have "slot_texts a c' = slot_texts a c" if "a \<noteq> s" for a using that by (simp add: slot_texts_def c')
  ultimately show ?thesis using c'(1,2) s(2) next_slot(1) by simp
qed

text \<open>A run: its texts are there for 63 changes of the second.\<close>

lemma cache_time_updates_ring:
  assumes "ring_ok c" "clocks_ok z us"
  shows "\<exists>c'. cache_time_updates z us c = Inr c' \<and> ring_ok c' \<and>
    slot c' = (slot c + ticks (slot_sec c) us) mod TIME_SLOTS \<and>
    (\<forall>s < TIME_SLOTS. \<forall>j. slot c = (s + j) mod TIME_SLOTS \<longrightarrow> ticks (slot_sec c) us + j < TIME_SLOTS \<longrightarrow>
       slot_texts s c' = slot_texts s c)"
  using assms
proof (induction us arbitrary: c)
  case Nil
  then show ?case by (simp add: ring_ok_def)
next
  case (Cons u us)
  obtain sec usec tt where u: "u = (sec, usec, tt)" by (cases u) auto
  let ?k = "if sec = slot_sec c then 0 else 1 :: nat"
  have tt: "clock_ok z tt" "clocks_ok z us" using Cons.prems(2) by (simp_all add: clocks_ok_def u)
  obtain c1 where c1: "cache_time_update z sec usec tt c = Inr c1" "ring_ok c1" "slot_sec c1 = sec"
      "slot c1 = (slot c + ?k) mod TIME_SLOTS" "\<And>s. s \<noteq> slot c1 \<or> sec = slot_sec c \<Longrightarrow> slot_texts s c1 = slot_texts s c"
    using cache_time_update_step [OF Cons.prems(1) tt(1)] by metis
  obtain c' where c': "cache_time_updates z us c1 = Inr c'" "ring_ok c'" "slot c' = (slot c1 + ticks sec us) mod TIME_SLOTS"
      "\<And>s j. s < TIME_SLOTS \<Longrightarrow> slot c1 = (s + j) mod TIME_SLOTS \<Longrightarrow> ticks sec us + j < TIME_SLOTS \<Longrightarrow>
        slot_texts s c' = slot_texts s c1"
    using Cons.IH [OF c1(2) tt(2)] unfolding c1(3) by blast
  have "slot_texts s c' = slot_texts s c"
    if s: "s < TIME_SLOTS" and j: "slot c = (s + j) mod TIME_SLOTS" "?k + ticks sec us + j < TIME_SLOTS" for s j
  proof -
    have at: "slot c1 = (s + (j + ?k)) mod TIME_SLOTS" using c1(4) j(1) by (simp add: mod_simps ac_simps)
    have "slot_texts s c' = slot_texts s c1" by (rule c'(4) [OF s at]) (use j in simp_all)
    moreover have "s \<noteq> slot c1 \<or> sec = slot_sec c"
      using at s j by (auto simp: TIME_SLOTS_def mod_if split: if_splits)
    ultimately show ?thesis using c1(5) by simp
  qed
  moreover have "slot c' = (slot c + (?k + ticks sec us)) mod TIME_SLOTS"
    using c'(3) c1(4) by (simp add: mod_simps ac_simps)
  ultimately show ?case using c1(1) c'(1,2) by (auto simp: u)
qed

text \<open>The offset in the log is short by two hours while daylight saving is in force.\<close>

lemma get_timezone_offset:
  assumes "60 dvd timezone z"
  shows "get_timezone z (dst z t) = utc_offset z t div 60 - (if dst z t then 120 else 0)"
proof -
  obtain k where "timezone z = 60 * k" using assms by (elim dvdE)
  moreover have sdiv: "(60 * i) sdiv 60 = i" for i :: int
    by (simp add: signed_divide_int_def abs_mult sgn_mult mult.assoc sgn_mult_abs)
  moreover have "(60 * k + 3600) sdiv 60 = k + 60" using sdiv [of "k + 60"] by (simp add: distrib_left)
  ultimately show ?thesis by (simp add: get_timezone_def utc_offset_def)
qed

end
