(* ===== verification/System_Properties.thy ===== *)
theory System_Properties
  imports Lev_Main Time_Cache
begin

text \<open>
  The properties of the program around the libraries: the command line and the workers of
  \<open>src/lev_main.c\<close> and the clock of \<open>src/time_cache.c\<close>, each with an example that applies it.
\<close>

section \<open>The command line\<close>

text \<open>C36: The two passes over the command line agree: whatever the arguments are, the first never reads
outside of them, and the second finds a dash in front of every option it carries out and an argument
behind every option that needs one; the only thing it can fail over is a number of cores that is no
\<open>int\<close>. The program ends with a status other than 0, becomes the parent of the workers, or has run the
script as a worker, the last two only when the command line names a script.\<close>

theorem main_follows_options:
  assumes "argv \<noteq> []"
  shows "case pmain act argv is_worker init_status st of
      Inl e \<Rightarrow> e = Undefined ''atoi''
    | Inr (Ends status st') \<Rightarrow> status \<noteq> 0
    | Inr (Master ids m st') \<Rightarrow> \<not> is_worker \<and> (\<exists>script flags. collectargs argv = Inr (script, flags) \<and> 0 < script)
    | Inr (Worker status st') \<Rightarrow> is_worker \<and> (\<exists>script flags. collectargs argv = Inr (script, flags) \<and> 0 < script)"
proof (cases "init_status \<noteq> 0")
  case True
  then show ?thesis by (simp add: pmain_def)
next
  case False
  have "1 \<le> length argv" using assms by (cases argv) auto
  then obtain script flags where c: "collectargs argv = Inr (script, flags)"
    using collectargs_total [of 1 argv 0] by (fastforce simp: collectargs_def)
  show ?thesis
  proof (cases "script < 0")
    case True
    with False c show ?thesis by (simp add: pmain_def)
  next
    case script: False
    let ?n = "if 0 < script then nat script else length argv"
    have fails: "e = Undefined ''atoi''" if "runargs act argv ?n st = Inl e" for e
      using runargs_follows [OF c [unfolded collectargs_def], of act st e] script that by (simp add: runargs_def)
    show ?thesis
    proof (cases "runargs act argv ?n st")
      case (Inl e)
      with False script c fails show ?thesis by (simp add: pmain_def)
    next
      case (Inr r)
      obtain status st1 where r: "r = (status, st1)" by fastforce
      with False script c Inr show ?thesis
        by (auto simp: pmain_def Let_def split: prod.splits)
    qed
  qed
qed

definition ex_act :: "lua_request \<Rightarrow> lua_request list \<Rightarrow> int \<times> lua_request list" where
  "ex_act r rs = (0, rs @ [r])"

definition ex_argv :: "byte list list" where
  "ex_argv = [ascii ''lev'', ascii ''-c'', ascii ''2'', ascii ''-lfoo'', ascii ''app.lua'']"

lemma ex_collectargs: "collectargs ex_argv = Inr (4, 8)"
  by code_simp

lemma ex_runargs:
  "runargs ex_act ex_argv 4 \<lparr>core_count = 1, lua = []\<rparr> = Inr (0, \<lparr>core_count = 2, lua = [Do_library (ascii ''foo'')]\<rparr>)"
  by code_simp

lemma ex_workers: "spawn_workers 2 \<lparr>uv_workers_count = 0, lev_exit_code = 0\<rparr> =
    ([1, 2], \<lparr>uv_workers_count = 2, lev_exit_code = 0\<rparr>)"
  by code_simp

lemma ex_pmain:
  obtains st where "pmain ex_act ex_argv False 0 \<lparr>core_count = 1, lua = []\<rparr> =
    Inr (Master [1, 2] \<lparr>uv_workers_count = 2, lev_exit_code = 0\<rparr> st)" "core_count st = 2"
proof (rule that)
  show "pmain ex_act ex_argv False 0 \<lparr>core_count = 1, lua = []\<rparr> =
    Inr (Master [1, 2] \<lparr>uv_workers_count = 2, lev_exit_code = 0\<rparr>
      \<lparr>core_count = 2, lua = [Do_library (ascii ''foo''), Do_string (core_chunk ''_master'') ''_master'']\<rparr>)"
    by (simp add: pmain_def ex_collectargs ex_runargs request_def ex_act_def FLAGS_GDB_def ex_workers Let_def)
qed simp

theorem main_follows_options_witness:
  "\<exists>ids m st'. pmain ex_act ex_argv False 0 \<lparr>core_count = 1, lua = []\<rparr> = Inr (Master ids m st') \<and>
    (\<exists>script flags. collectargs ex_argv = Inr (script, flags) \<and> 0 < script)"
proof -
  obtain st where st: "pmain ex_act ex_argv False 0 \<lparr>core_count = 1, lua = []\<rparr> =
    Inr (Master [1, 2] \<lparr>uv_workers_count = 2, lev_exit_code = 0\<rparr> st)" by (rule ex_pmain)
  have "ex_argv \<noteq> []" by (simp add: ex_argv_def)
  from main_follows_options [OF this, where act = ex_act and is_worker = False and init_status = 0 and st = "\<lparr>core_count = 1, lua = []\<rparr>"] st show ?thesis by auto
qed

section \<open>The parent and its workers\<close>

lemma pmain_master:
  assumes "pmain act argv is_worker init_status st = Inr (Master ids m st')"
  shows "spawn_workers (core_count st') \<lparr>uv_workers_count = 0, lev_exit_code = 0\<rparr> = (ids, m)"
  using assms by (auto simp: pmain_def Let_def bind_res_Inr_iff case_prod_beta split: if_splits)

text \<open>C37: The parent starts one worker per core asked for, at most 64, numbered from 1, and lives exactly
as long as one of them does: in whatever order they exit, with whatever status or signal, it goes on
until the last one and then ends with the last status that was not 0, a segmentation fault counting as
its signal number, or with 0.\<close>

theorem parent_ends_with_last_worker:
  assumes "pmain act argv is_worker init_status st = Inr (Master ids m st')"
  shows "ids = [1..min 64 (core_count st')] \<and>
    (length es < length ids \<longrightarrow> (\<exists>m'. workers_exit es m = Runs m')) \<and>
    (ids \<noteq> [] \<and> length es = length ids \<longrightarrow> workers_exit es m =
       Exits (case filter (\<lambda>c. c \<noteq> 0) (map (\<lambda>(status, signal). if signal = SIGSEGV then SIGSEGV else status) es) of
                [] \<Rightarrow> 0 | codes \<Rightarrow> last codes))"
proof -
  have sp: "spawn_workers (core_count st') \<lparr>uv_workers_count = 0, lev_exit_code = 0\<rparr> = (ids, m)"
    by (rule pmain_master [OF assms])
  from sp have m: "ids = [1..min 64 (core_count st')]" "uv_workers_count m = max 0 (min 64 (core_count st'))" "lev_exit_code m = 0"
    by (auto simp: spawn_workers_count MAX_WORKERS_def max_def min_def)
  have n: "int (length ids) = uv_workers_count m" using m(1,2) by simp
  have code: "worker_code = (\<lambda>(status, signal). if signal = SIGSEGV then SIGSEGV else status)"
    by (auto simp: worker_code_def fun_eq_iff)
  have "\<exists>m'. workers_exit es m = Runs m'" if "length es < length ids"
  proof -
    have "int (length es) < uv_workers_count m" using that n by simp
    moreover from this have "0 < uv_workers_count m" by linarith
    ultimately show ?thesis by (simp add: workers_exit_spec)
  qed
  moreover have "workers_exit es m = Exits (master_code 0 es)" if "ids \<noteq> []" "length es = length ids"
  proof -
    have "\<not> int (length es) < uv_workers_count m" "nat (uv_workers_count m) = length es" using that n by simp_all
    moreover have "0 < uv_workers_count m" using that n by (cases ids) auto
    ultimately show ?thesis using m(3) by (simp add: workers_exit_spec)
  qed
  ultimately show ?thesis using m(1) by (simp add: master_code_def code)
qed

theorem parent_ends_with_last_worker_witness:
  "\<exists>ids m st'. pmain ex_act ex_argv False 0 \<lparr>core_count = 1, lua = []\<rparr> = Inr (Master ids m st') \<and> ids = [1, 2] \<and>
    (\<exists>m'. workers_exit [(0, 0)] m = Runs m') \<and> workers_exit [(0, 11), (0, 0)] m = Exits 11"
proof -
  obtain st where st: "pmain ex_act ex_argv False 0 \<lparr>core_count = 1, lua = []\<rparr> =
    Inr (Master [1, 2] \<lparr>uv_workers_count = 2, lev_exit_code = 0\<rparr> st)" by (rule ex_pmain)
  have "\<exists>m'. workers_exit [(0, 0)] \<lparr>uv_workers_count = 2, lev_exit_code = 0\<rparr> = Runs m'"
    using parent_ends_with_last_worker [OF st, of "[(0, 0)]"] by simp
  moreover have "workers_exit [(0, 11), (0, 0)] \<lparr>uv_workers_count = 2, lev_exit_code = 0\<rparr> = Exits 11"
    using parent_ends_with_last_worker [OF st, of "[(0, 11), (0, 0)]"] by (simp add: SIGSEGV_def del: workers_exit.simps)
  ultimately show ?thesis using st by blast
qed

text \<open>C38: A worker is started with the program's own path, behind the debugger's command line when one is
asked for, and with the script and everything behind it as arguments. The array for them has 256
places: with 255 strings or more the null pointer, or an argument, is written behind it.\<close>

theorem worker_arguments:
  "spawn_args exepath flags argv script =
    (let args = (if flags AND FLAGS_GDB \<noteq> 0 then [ascii ''gdb'', ascii ''--args'']
                 else if flags AND FLAGS_VALGRIND \<noteq> 0 then [ascii ''valgrind'', ascii ''--leak-check=full'', ascii ''-v'']
                 else []) @ exepath # drop script argv
     in if length args < 256 then Inr args else Inl (Undefined ''write past args''))"
proof -
  have "length (spawn_prefix flags @ exepath # drop script argv) < 256 \<longleftrightarrow>
      length (spawn_prefix flags) + (length argv - script) < 255" by simp
  then show ?thesis
    unfolding spawn_prefix_def [symmetric] by (simp only: spawn_args_fit Let_def)
qed

section \<open>The clock\<close>

lemma ring_okD:
  assumes "ring_ok c"
  shows "slot c < 64" "published_texts c = Some s \<Longrightarrow> s = slot c"
  using assms unfolding ring_ok_def TIME_SLOTS_def by blast+

text \<open>C39: The texts a reader got stay as they are while the second changes 63 times: whatever the clocks
say (within the years of four digits), updating never fails or writes outside an array, and the texts
of the slot that was published last are the same until the ring has gone round.\<close>

theorem time_texts_stay:
  assumes "clock_ok z tt" "clocks_ok z us" "clocks_ok z vs"
  shows "\<exists>c0 c c'. cache_time_init z sec usec tt cache_time_start = Inr c0 \<and> cache_time_updates z us c0 = Inr c \<and>
    cache_time_updates z vs c = Inr c' \<and> slot c < 64 \<and> slot c' < 64 \<and>
    (\<forall>s. published_texts c = Some s \<and> ticks (slot_sec c) vs < 64 \<longrightarrow> slot_texts s c' = slot_texts s c)"
proof -
  have "ring_ok (cache_time_start\<lparr>published_time := Some 0\<rparr>)" using ring_ok_start by (simp add: ring_ok_def)
  from cache_time_update_step [OF this assms(1), of sec usec] obtain c0 where
    c0: "cache_time_init z sec usec tt cache_time_start = Inr c0" "ring_ok c0" by (auto simp: cache_time_init_def)
  obtain c where c: "cache_time_updates z us c0 = Inr c" "ring_ok c"
    using cache_time_updates_ring [OF c0(2) assms(2)] by blast
  obtain c' where c': "cache_time_updates z vs c = Inr c'" "ring_ok c'"
      "\<And>s j. s < TIME_SLOTS \<Longrightarrow> slot c = (s + j) mod TIME_SLOTS \<Longrightarrow> ticks (slot_sec c) vs + j < TIME_SLOTS \<Longrightarrow>
         slot_texts s c' = slot_texts s c"
    using cache_time_updates_ring [OF c(2) assms(3)] by blast
  note slots = ring_okD(1) [OF c(2)] ring_okD(1) [OF c'(2)]
  have "slot_texts s c' = slot_texts s c" if "published_texts c = Some s" "ticks (slot_sec c) vs < 64" for s
  proof (rule c'(3) [of s 0])
    have "s = slot c" by (rule ring_okD(2) [OF c(2) that(1)])
    then show "s < TIME_SLOTS" "slot c = (s + 0) mod TIME_SLOTS" using slots(1) by (simp_all add: TIME_SLOTS_def)
    show "ticks (slot_sec c) vs + 0 < TIME_SLOTS" using that(2) by (simp add: TIME_SLOTS_def)
  qed
  with c0(1) c(1) c'(1) slots show ?thesis by blast
qed

theorem time_texts_stay_witness:
  "\<exists>c0 c c'. cache_time_init \<lparr>timezone = - 32400, dst = (\<lambda>_. False)\<rparr> 1 0 1 cache_time_start = Inr c0 \<and>
    cache_time_updates \<lparr>timezone = - 32400, dst = (\<lambda>_. False)\<rparr> [(2, 0, 2)] c0 = Inr c \<and>
    cache_time_updates \<lparr>timezone = - 32400, dst = (\<lambda>_. False)\<rparr> [(3, 0, 3)] c = Inr c' \<and> slot c < 64 \<and> slot c' < 64 \<and>
    (\<forall>s. published_texts c = Some s \<and> ticks (slot_sec c) [(3, 0, 3)] < 64 \<longrightarrow> slot_texts s c' = slot_texts s c)"
  by (rule time_texts_stay) (simp_all add: clock_ok_def clocks_ok_def)



end
