(* ===== verification/Spec2Isabelle.thy ===== *)
theory Spec2Isabelle
  imports Mpack_Unpacker Buffer_Concat Json_Properties System_Properties
begin

text \<open>
  Verification of lev, a server for Lua programs written in C around libuv and LuaJIT (\<open>src/\<close> is the
  repository; file names below are relative to its directory \<open>src\<close>).

  \<^bold>\<open>The program and its parts.\<close> \<open>lev_main.c\<close> reads the command line; the process without \<open>LEV_WORKER_ID\<close>
  in its environment is the parent and starts one worker per core, a worker runs the script. Opening
  the library (\<open>luaopen_levbase\<close>) fills the pools of the slab allocator (\<open>lev_slab.c\<close>): blocks of five sizes
  with a reference counter. A Lua buffer (\<open>lev_new_buffer.c\<close>) is a slice of a block and holds one
  reference; small buffers are cut off one shared block, slices share the block of their parent, the
  collector drops the reference. The JSON module (\<open>lev_new_json.c\<close>) writes into a growing slice on the
  same allocator. The MessagePack module (\<open>lev_mpack.c\<close>) packs into a fixed array that becomes a
  buffer, and unpacks strings as slices of the block it reads, each a counted reference.
  \<open>time_cache.c\<close> keeps the texts of the current time.

  \<^bold>\<open>Conventions.\<close> A C function is a HOL function on an explicit state; its result is a sum (\<open>res\<close> of
  \<open>Lev_Prelude\<close>): a fault (a Lua error, a failed assertion, undefined behaviour of C, no fuel) or a
  value with the new state. In the JSON module an error keeps the state for the caller of \<open>pcall\<close>
  (\<open>jres\<close> of \<open>Lua_Call\<close>). Reading or writing outside of a block, a text or an array is always a fault, so
  that the theorems which give a value say that it does not happen. \<open>size_t\<close> is \<open>nat\<close> with the wrapping
  subtraction \<open>sz_sub\<close>; conversions to narrower types are written out; a double is its 64-bit
  pattern; a table is the list of its entries in the order of \<open>lua_next\<close>.

  \<^bold>\<open>Theories and sources.\<close>
  \<^item> \<open>Lev_Prelude\<close>, \<open>Lua_Number\<close>, \<open>Lua_Value\<close>, \<open>Lua_Call\<close>, \<open>C_Number\<close>: bytes, faults, doubles, Lua values, errors
    that keep the state, \<open>snprintf\<close> and \<open>strtod\<close>.
  \<^item> \<open>Lev_Slab\<close>: \<open>lev_slab.c\<close>. The record \<open>slab\<close> is the heap with the five pools; the invariant \<open>slab_ok\<close>; the
    interface \<open>refcounting\<close>, interpreted on the allocator.
  \<^item> \<open>Lev_MemSlice\<close>, \<open>Lev_Buffer\<close>: the helpers and the Lua methods of \<open>lev_new_buffer.c\<close>; \<open>Lev_Buffer_Facts\<close>,
    \<open>Buffer_Life\<close>, \<open>Buffer_Concat\<close>: what they do, the step relation \<open>buffer_step\<close> with the invariant
    \<open>buffers_ok\<close>, and concatenation.
  \<^item> \<open>Mpack_Write\<close>, \<open>Mpack_Read\<close>, \<open>Mpack_Api\<close>, \<open>Mpack_Unpacker\<close>: the writer, the reader, the Lua functions and
    the incremental reader of \<open>lev_mpack.c\<close>; \<open>Mpack_Roundtrip\<close>: reading undoes writing. The format is the
    inductive relation \<open>mp_encodes\<close>; the incremental reader refines a queue of values (\<open>holds\<close>).
  \<^item> \<open>Json_Base\<close>, \<open>Json_Encode\<close>, \<open>Json_Decode\<close>: \<open>lev_new_json.c\<close>; \<open>Json_Strbuf\<close>: the string buffer as a text that
    grows at its end (the interface \<open>text_buffer\<close>); \<open>Json_Text\<close>: what the encoder may write; \<open>Json_Syntax\<close>: a
    reference syntax after RFC 8259; \<open>Json_Tokens\<close>, \<open>Json_Values\<close>: the decoder against it; \<open>Json_Decode_Safe\<close>,
    \<open>Json_Types\<close>, \<open>Json_Roundtrip\<close>, \<open>Json_Module\<close>: safety, the type of the result, the round trip, and the
    invariant of all calls; \<open>Json_Properties\<close>: the properties of the module.
  \<^item> \<open>Lev_Main\<close>: \<open>lev_main.c\<close>; \<open>Time_Cache\<close>: \<open>time_cache.c\<close>; \<open>System_Properties\<close>: the properties of both.
  \<^item> This theory: the properties of MessagePack, the allocator, slices and buffers.

  \<^bold>\<open>Bounds and fuel.\<close> The reader of MessagePack has one unit of fuel per byte left and one more, the decoder of JSON three
  per byte and four, both proved to be enough. The largest block has a megabyte: larger texts and
  buffers get a null block, which the code does not check, so the JSON properties are about texts below
  \<open>STRBUF_LIMIT\<close>. Positions and lengths given from Lua are integers below 2^53 in absolute value,
  which doubles hold exactly. The programs of \<open>buffer_step\<close> start with the pools \<open>lev_slab_fill\<close> has filled.

  \<^bold>\<open>Assumptions.\<close> \<open>malloc\<close> does not fail. \<open>lua_checkstack\<close> succeeds, and the Lua stack and the C stack do not
  overflow: \<open>json_check_encode_depth\<close> and \<open>json_decode_descend\<close> refuse only what exceeds the depth in the
  settings, and the reader of MessagePack recurses without a test, as the code does. A reference
  counter stays below 2^31, since each reference is held by an object in memory; \<open>refcounts_exact\<close> has the
  bound in its statement. Tables are finite trees, so a table inside of itself has no value here. The
  target is a little-endian 64-bit machine; a conversion of a double to \<open>uint32_t\<close> goes through a 64-bit
  integer there. The specification \<open>chars_text\<close> takes the escapes from the table \<open>char2escape\<close> of the code and
  allows any byte behind an escape, because the code puts one there (\<open>json_encode_stale_byte\<close>).
  \<open>lua_objlen\<close>, the conversions of the Lua library between strings and numbers, what Lua does with a
  request of the main program, and the decimal point of the locale are parameters.

  \<^bold>\<open>Not modelled.\<close> What only prints (\<open>unpacker_dump\<close>, \<open>buffer_debug\<close> beyond its checks, \<open>luv_debug.c\<close>), the
  tables that register functions, the registry of handles and the modules on libuv, c-ares and the
  HTTP parser (\<open>lev_new_base.c\<close>, \<open>lev_new_core.c\<close>, \<open>lev_new_timer.c\<close>, \<open>lev_new_tcp.c\<close>, \<open>lev_new_udp.c\<close>, \<open>lev_new_pipe.c\<close>,
  \<open>lev_new_fs.c\<close>, \<open>lev_new_dns.c\<close>, \<open>lev_new_process.c\<close>, \<open>lev_new_signal.c\<close>, \<open>lev_new_net.c\<close>, \<open>lhttp_parser.c\<close>), and
  the interactive loop of \<open>lev_main.c\<close>, which no path reaches.
\<close>

section \<open>Values used by the examples\<close>

abbreviation ex_heap :: slab where
  "ex_heap \<equiv> slab_start (\<lambda>_ _. 0)"

definition ex_value :: lval where
  "ex_value = LTable (seq_entries 0 [lua_int 300, LString [97, 98]])"

definition ex_bytes :: "byte list" where
  "ex_bytes = [0x92, 0xcd, 1, 44, 0xa2, 97, 98]"

lemma number_bytes_int:
  "\<bar>k\<bar> < 2 ^ 53 \<Longrightarrow> number_bytes (dbl_of_int k) = Inr (long_long_bytes k)"
  using dbl_int_dbl_of_int [of k] c_to_int_dbl_int [OF dbl_int_dbl_of_int [of k], of "- (2 ^ 63)" "2 ^ 63 - 1"]
    isnan_dbl_of_int [of k]
  by (auto simp: number_bytes_def isinf_def dbl_int_def)

lemma ex_value_encodes: "mp_encodes seq_len h ex_value ex_bytes"
proof -
  have len: "seq_len (seq_entries 0 [lua_int 300, LString [97, 98]]) = 2"
    by (subst seq_len_seq_entries) simp_all
  have gets: "map (lua_rawgeti (seq_entries 0 [lua_int 300, LString [97, 98]])) [1..<Suc 2] =
      [lua_int 300, LString [97, 98]]"
  proof -
    have "[1..<Suc 2] = [1, 2]" by (simp add: upt_rec)
    then show ?thesis by (simp add: lua_rawgeti_seq del: seq_entries.simps One_nat_def)
  qed
  let ?kvs = "seq_entries 0 [lua_int 300, LString [97, 98]]" and ?es = "[[0xcd, 1, 44], [0xa2, 97, 98]] :: byte list list"
  have la: "list_all2 (mp_encodes seq_len h) [lua_int 300, LString [97, 98]] ?es"
    by (simp add: number_bytes_int long_long_bytes_def string_header_def) (simp add: numeral_2_eq_2)
  have "mp_encodes seq_len h (LTable ?kvs) (header_bytes 0x90 0xdc 0xdd (seq_len ?kvs) @ concat ?es)"
  proof (rule enc_array)
    show "0 < seq_len ?kvs" "seq_len ?kvs < 2 ^ 31" by (simp_all only: len) simp_all
    show "list_all2 (mp_encodes seq_len h) (map (lua_rawgeti ?kvs) [1..<Suc (seq_len ?kvs)]) ?es"
      by (simp only: len gets la)
  qed
  then show ?thesis
    by (simp only: ex_value_def ex_bytes_def len) (simp add: header_bytes_def)
qed

lemma ex_value_kept: "kept seq_len ex_value" "depth ex_value \<le> 256"
proof -
  have len: "seq_len (seq_entries 0 [lua_int 300, LString [97, 98]]) = 2"
    by (subst seq_len_seq_entries) simp_all
  have "number_kept (dbl_of_int 300)"
    by (simp add: number_kept_def isnan_dbl_of_int dbl_of_int_not_neg_zero [of 300, simplified])
  then show "kept seq_len ex_value"
    unfolding ex_value_def kept.simps len by simp
  show "depth ex_value \<le> 256" by (simp add: ex_value_def)
qed

section \<open>MessagePack\<close>

text \<open>C1: Unpacking what \<open>pack\<close> returned gives the number of bytes that were written and the value,
with string values as slices of the packed block (\<open>view\<close> reads them), for every value that has an
encoding and no part the reader turns into something else (\<open>kept\<close>), provided four bytes of the
block stay free behind the data.\<close>

theorem msgpack_roundtrip:
  assumes "slab_ok h" "mp_encodes objlen h v e" "kept objlen v"
    and "slab_class_for (length e) = Some (c, n)" "length e + 4 \<le> n"
  shows "\<exists>ms g' h1 v' h2. msgpack_pack_api objlen (Some v) g h = Inr (ms, g', h1) \<and>
    msgpack_unpack_api ms h1 = Inr ([lua_int (int (length e)), v'], h2) \<and> view h2 v' = view h v"
proof -
  have len: "length e \<le> 1048576" using slab_class_for_None [of "length e"] assms(4) by fastforce
  obtain ms g' h1 c' old where p: "msgpack_pack_api objlen (Some v) g h = Inr (ms, g', h1)"
      "slab_ok h1" "ms_slice ms = 0" "ms_until ms = length e" "slab_class_for (length e) = Some (c', class_size c')"
      "blocks h1 (ms_mb ms) = Some \<lparr>mb_allocator = c', mb_refcount = 1, mb_size = class_size c',
         mb_nbytes = 0, mb_bytes = mem_write old 0 e\<rparr>"
    by (rule pack_api_ok [OF assms(1,2) len, where g = g])
  from unpack_api_of_packed [OF p(2) assms(2,3) p(6)] p(3-5) assms(4,5) p(1)
  show ?thesis by fastforce
qed

theorem msgpack_roundtrip_witness:
  "\<exists>ms g' h1 v' h2. msgpack_pack_api seq_len (Some ex_value) \<lparr>wb_data = (\<lambda>_. 0), wb_used = 0, wb_capacity = 0, wb_err = 0\<rparr> ex_heap = Inr (ms, g', h1) \<and>
    msgpack_unpack_api ms h1 = Inr ([lua_int (int (length ex_bytes)), v'], h2) \<and> view h2 v' = view ex_heap ex_value"
  by (rule msgpack_roundtrip [OF slab_ok_start ex_value_encodes ex_value_kept(1), of Mem_1k 1024])
     (simp_all add: ex_bytes_def slab_class_for_def)

text \<open>C2: The writer implements the format: on every buffer in order, packing a value whose encoding
is \<open>e\<close> either finds the error word set and does nothing, or finds too little room and sets the
"no buffer left" bit, or appends exactly \<open>e\<close> and returns its length.\<close>

theorem writer_implements_format:
  assumes "mp_encodes objlen h v e" "wb_ok b"
  shows "\<exists>w b'. mpwbuf_pack_anytype objlen h v b = Inr (w, b') \<and> wb_ok b' \<and>
    (if wb_err b \<noteq> 0 then w = 0 \<and> b' = b
     else if length e \<le> mpwbuf_left b then w = length e \<and> wb_err b' = 0 \<and> wb_out b' = wb_out b @ e
     else wb_err b' = ERRORBIT_BUFNOLEFT)"
  by (rule packsD [OF mp_encodes_packs [OF assms(1)] assms(2)]) (auto simp: emits_def split: if_splits)

theorem writer_implements_format_witness:
  "\<exists>w b'. mpwbuf_pack_anytype seq_len ex_heap ex_value (mpwbuf_init \<lparr>wb_data = (\<lambda>_. 0), wb_used = 0, wb_capacity = 0, wb_err = 0\<rparr>) = Inr (w, b') \<and>
     w = 7 \<and> wb_out b' = ex_bytes"
  using writer_implements_format [OF ex_value_encodes wb_init(1)]
  by (fastforce simp: ex_bytes_def)

text \<open>C3: On every slice in use with four bytes behind it, whatever its bytes are, \<open>unpack\<close> ends in
one of these ways: \<open>nil\<close> for an empty slice; \<open>nil, nil\<close> for input it cannot decode; the
number of bytes read (at most the length of the slice) and a value, all of whose buffers are counted
references; a Lua error; or the \<open>lua_rawset\<close> of the map loop on something that is no table. It
never reads outside the block, fails an assertion or runs out of fuel, and it changes nothing in the
heap but reference counts.\<close>

theorem unpack_safe:
  assumes "slab_ok h" "roomy_slice h ms"
  shows "case msgpack_unpack_api ms h of
      Inl e \<Rightarrow> e = rawset_fault \<or> (\<exists>m. e = Lua_error m)
    | Inr (vs, h') \<Rightarrow> slab_ok h' \<and> only_refs h h' \<and>
        (if ms_until ms = 0 then vs = [LNil]
         else vs = [LNil, LNil] \<or>
           (\<exists>n v. vs = [lua_int (int n), v] \<and> 0 < n \<and> n \<le> ms_until ms \<and>
              (\<forall>a. bufs a v \<le> refs h' a - refs h a)))"
  using unpack_api_ok [OF assms]
  by (auto simp: res_all_def may_fail_def unpack_result_ok_def split: sum.splits)

text \<open>A block of a kilobyte at address 1 with given bytes, referenced once.\<close>

definition ex_block :: "byte list \<Rightarrow> slab" where
  "ex_block bs = ex_heap\<lparr>blocks := [1 \<mapsto> \<lparr>mb_allocator = Mem_1k, mb_refcount = 1, mb_size = 1024,
     mb_nbytes = length bs, mb_bytes = mem_write (\<lambda>_. 0) 0 bs\<rparr>], brk := 2\<rparr>"

lemma ex_block_ok: "slab_ok (ex_block bs)"
  by (rule slab_okI) (auto simp: ex_block_def slab_start_def split: if_splits)

lemma ex_block_roomy: "n \<le> 1000 \<Longrightarrow> roomy_slice (ex_block bs) \<lparr>ms_mb = 1, ms_slice = 0, ms_until = n\<rparr>"
  by (simp add: roomy_slice_def ex_block_def)

theorem unpack_safe_witness:
  "case msgpack_unpack_api \<lparr>ms_mb = 1, ms_slice = 0, ms_until = 3\<rparr> (ex_block [0x92, 1, 2]) of
      Inl e \<Rightarrow> e = rawset_fault \<or> (\<exists>m. e = Lua_error m)
    | Inr (vs, h') \<Rightarrow> slab_ok h' \<and> only_refs (ex_block [0x92, 1, 2]) h' \<and>
        (vs = [LNil, LNil] \<or>
           (\<exists>n v. vs = [lua_int (int n), v] \<and> 0 < n \<and> n \<le> 3 \<and>
              (\<forall>a. bufs a v \<le> refs h' a - refs (ex_block [0x92, 1, 2]) a)))"
  using unpack_safe [OF ex_block_ok [of "[0x92, 1, 2]"] ex_block_roomy [of 3 "[0x92, 1, 2]"]]
  by (auto split: sum.splits)

text \<open>C4: The incremental reader is a queue: when the encodings of some values are fed in any pieces
to a new unpacker that is large enough, every piece is accepted, as many results are counted as
there are values, and that many pulls return the values in order and leave the buffer empty.\<close>

theorem unpacker_stream:
  assumes "list_all2 (mp_encodes objlen hs) vs es" "list_all (\<lambda>v. kept objlen v \<and> depth v \<le> 256) vs"
    and "length (concat es) + 4 \<le> n" "concat ps = concat es" "slab_ok h"
  shows "\<exists>u vs' u' h'. feed_all feed_whole (unpacker_init fresh n) ps = Some u \<and> u_resultnum u = length vs \<and>
    pull_all self (length vs) u h = Inr (vs', u', h') \<and>
    list_all2 (\<lambda>v v'. view h' v' = view hs v) vs vs' \<and> u_used u' = 0"
proof -
  let ?u = "unpacker_init fresh n"
  have ok: "unpacker_ok ?u" by (simp add: unpacker_ok_def unpacker_init_def)
  have encs: "list_all2 (\<lambda>v e. mp_encodes objlen hs v e \<and> depth v \<le> 256) vs es"
    using assms(1,2) by (simp add: list_all2_conv_all_nth list_all_length)
  obtain u where u: "unpacker_feed ?u (concat es) = Inr (0, u)" "holds objlen hs ([] @ vs) u"
    by (rule feed_holds [OF holds_init [of n] encs]) (use assms(3) in \<open>simp_all add: unpacker_init_def\<close>)
  have "feed_all feed_whole ?u ps = Some u"
    using u(1) assms(4) by (simp add: unp.feed_all_concat [OF ok] feed_whole_def)
  moreover have "list_all (kept objlen) vs" using assms(2) by (simp add: list_all_iff)
  ultimately show ?thesis
    using pull_all_holds [of objlen hs vs u h self] u(2) assms(5) by (auto simp: holds_def)
qed

theorem unpacker_stream_witness:
  "\<exists>u vs' u' h'. feed_all feed_whole (unpacker_init (\<lambda>_. 0) 64) [[0x92, 0xcd], [1, 44, 0xa2, 97], [98, 0xc3]] = Some u \<and>
    u_resultnum u = length [ex_value, LBoolean True] \<and>
    pull_all LNil (length [ex_value, LBoolean True]) u ex_heap = Inr (vs', u', h') \<and>
    list_all2 (\<lambda>v v'. view h' v' = view ex_heap v) [ex_value, LBoolean True] vs' \<and> u_used u' = 0"
  by (rule unpacker_stream [where objlen = seq_len and es = "[ex_bytes, [0xc3]]"])
     (use ex_value_encodes [of ex_heap] in \<open>simp_all add: ex_value_kept slab_ok_start ex_bytes_def\<close>)

text \<open>C5: How the input of an unpacker is cut does not matter: two ways of cutting the same bytes
into pieces either both fail or leave the same state, whatever the bytes are and whatever state the
unpacker is in.\<close>

theorem unpacker_pieces:
  assumes "unpacker_ok u" "concat ps = concat qs"
  shows "feed_all feed_whole u ps = feed_all feed_whole u qs"
  by (rule unp.feed_all_same [OF assms])

theorem unpacker_pieces_witness:
  "feed_all feed_whole (unpacker_init (\<lambda>_. 0) 64) [[0x92, 1], [0xc1]] =
   feed_all feed_whole (unpacker_init (\<lambda>_. 0) 64) [[0x92], [1, 0xc1]]"
  by (rule unpacker_pieces) (simp_all add: unpacker_ok_def unpacker_init_def)

text \<open>C6: Whatever is fed, the unpacker never has more than 256 open items, never holds more bytes than
its buffer has, and accepts a piece only when it fits.\<close>

theorem unpacker_bounds:
  assumes "length (u_stack u) \<le> 256" "u_used u \<le> u_size u" "unpacker_feed u p = Inr (c, u')"
  shows "length (u_stack u') \<le> 256 \<and> u_used u' \<le> u_size u' \<and> u_size u' = u_size u \<and>
    (c = 0 \<longrightarrow> u_used u' = u_used u + length p)"
proof (cases "u_size u < u_used u + length p")
  case True
  with assms show ?thesis by (auto simp: unpacker_feed_def)
next
  case False
  with assms(3) obtain buf where b: "u_buf u = Some buf"
    by (auto simp: unpacker_feed_def split: option.splits)
  from False have fit: "u_used u + length p \<le> u_size u" by simp
  from assms(3) obtain u1 where u1: "feed_loop u p = Inr (c, u1)"
      "u' = with_buf (Some (mem_write buf (u_used u) p)) (u_used u + length p) u1"
    unfolding unpacker_feed_eq [OF b fit] by (cases "feed_loop u p") auto
  from feed_loop_stack [OF u1(1) assms(1)] feed_loop_size [OF u1(1)] u1(2) fit show ?thesis by simp
qed

theorem unpacker_bounds_witness:
  "\<exists>u'. unpacker_feed (unpacker_init (\<lambda>_. 0) 64) [0x92, 1] = Inr (0, u') \<and> length (u_stack u') \<le> 256 \<and> u_used u' = 2"
proof -
  obtain u' where u': "unpacker_feed (unpacker_init (\<lambda>_. 0) 64) [0x92, 1] = Inr (0, u')"
    by (simp add: unpacker_feed_def unpacker_init_def unpacker_container_needs_bytes_def unpacker_top_def
        feed_byte_def unpacker_push_def unpacker_progress_def mpstackent_init_def
        MP_CONTAINER_TYPE_sizesize_def MP_CONTAINER_TYPE_is_container_def Let_def)
  with unpacker_bounds [OF _ _ u'] show ?thesis by (simp add: unpacker_init_def)
qed

text \<open>C7: Input that ends right after the header of a map with entries is not reported as an error:
the loop over the entries ignores that nothing could be read and calls \<open>lua_rawset\<close> on the
buffer argument of \<open>unpack\<close>.\<close>

theorem unpack_truncated_map:
  assumes "blocks h (ms_mb ms) = Some b" "ms_slice ms + 1 \<le> mb_size b" "ms_until ms = 1"
    and "0x81 \<le> unat (mb_bytes b (ms_slice ms))" "unat (mb_bytes b (ms_slice ms)) \<le> 0x8f"
  shows "msgpack_unpack_api ms h = Inl (Undefined ''lua_rawset on something that is no table'')"
  using unpack_api_truncated_map [OF assms] by (simp add: rawset_fault_def)

theorem unpack_truncated_map_witness:
  "msgpack_unpack_api \<lparr>ms_mb = 1, ms_slice = 0, ms_until = 1\<rparr> (ex_block [0x81]) =
    Inl (Undefined ''lua_rawset on something that is no table'')"
  by (rule unpack_truncated_map [where b = "\<lparr>mb_allocator = Mem_1k, mb_refcount = 1, mb_size = 1024,
        mb_nbytes = 1, mb_bytes = mem_write (\<lambda>_. 0) 0 [0x81]\<rparr>"])
     (simp_all add: ex_block_def mem_write_def)

text \<open>C8: \<open>largetbl(n)\<close> is the sequence of the numbers 0 to n - 1.\<close>

theorem largetbl_entries:
  assumes "0 \<le> n" "n < 2 ^ 31"
  shows "msgpack_largetbl n = seq_entries 0 (map (\<lambda>i. lua_int (int i)) [0..<nat n])"
proof -
  have "fold (\<lambda>i t. lua_rawseti t (Suc i) (lua_int (int i))) [0..<k] [] =
      seq_entries 0 (map (\<lambda>i. lua_int (int i)) [0..<k])" if "k \<le> nat n" for k
    using that
  proof (induction k)
    case (Suc k)
    with assms lua_rawseti_seq [of "map (\<lambda>i. lua_int (int i)) [0..<k]" "lua_int (int k)"]
    show ?case by simp
  qed simp
  then show ?thesis by (simp add: msgpack_largetbl_def)
qed

theorem largetbl_entries_witness: "msgpack_largetbl 2 = [(lua_int 1, lua_int 0), (lua_int 2, lua_int 1)]"
  using largetbl_entries [of 2] by (simp add: upt_rec)

section \<open>The slab allocator\<close>

text \<open>C9: Reference counting is exact: if every holder only takes references to blocks that are
referenced (at most 2^31 - 1 at a time, the counter being a C \<open>int\<close>) and drops references that are held,
all operations succeed, the allocator stays in order, and each block is left with the number of
references that are held. A block that was referenced is neither freed nor in a free list as long as
a reference is held, and given back when the last one is dropped; no other block changes its
status.\<close>

theorem refcounts_exact:
  assumes "slab_ok s" "held_after REFCOUNT_MAX (refs s) acts = Some k"
  shows "\<exists>s'. run_actions slab_acquire slab_release acts s = Inr s' \<and> slab_ok s' \<and> refs s' = k \<and>
    (\<forall>a. slab_in_use s' a \<longleftrightarrow> (if 0 < refs s a then 0 < k a else slab_in_use s a))"
  by (rule slab_rc.run_actions_count [OF assms])

theorem refcounts_exact_witness:
  "(\<exists>s'. run_actions slab_acquire slab_release [Acquire 1, Release 1] (ex_block []) = Inr s' \<and> slab_ok s' \<and>
     refs s' 1 = 1 \<and> slab_in_use s' 1) \<and>
   (\<exists>s'. run_actions slab_acquire slab_release [Acquire 1, Release 1, Release 1] (ex_block []) = Inr s' \<and> slab_ok s' \<and>
     refs s' 1 = 0 \<and> \<not> slab_in_use s' 1)"
proof -
  have refs: "refs (ex_block []) = (\<lambda>a. if a = 1 then 1 else 0)"
    by (auto simp: refs_def ex_block_def fun_eq_iff)
  have "held_after REFCOUNT_MAX (refs (ex_block [])) [Acquire 1, Release 1] = Some ((refs (ex_block []))(1 := 1))"
    "held_after REFCOUNT_MAX (refs (ex_block [])) [Acquire 1, Release 1, Release 1] = Some ((refs (ex_block []))(1 := 0))"
    by (simp_all add: refs REFCOUNT_MAX_def)
  from refcounts_exact [OF ex_block_ok this(1)] refcounts_exact [OF ex_block_ok this(2)]
  show ?thesis by (auto simp: refs)
qed

text \<open>C10: A block handed out for a size of at most a megabyte is large enough, empty, without
references, in no free list, and was not in use before; every other block is as it was. A larger
size gives the null pointer.\<close>

theorem getBlock_fresh:
  assumes "slab_ok s"
  shows "(1024 * 1024 < n \<longrightarrow> lev_slab_getBlock n s = (None, s)) \<and>
    (n \<le> 1024 * 1024 \<longrightarrow> (\<exists>a s' b. lev_slab_getBlock n s = (Some a, s') \<and> slab_ok s' \<and> blocks s' a = Some b \<and>
       n \<le> mb_size b \<and> mb_nbytes b = 0 \<and> mb_refcount b = 0 \<and> \<not> pooled s' a \<and> \<not> slab_in_use s a \<and>
       (\<forall>x. x \<noteq> a \<longrightarrow> blocks s' x = blocks s x)))"
proof (cases "1024 * 1024 < n")
  case True
  then show ?thesis by (simp add: getBlock_None)
next
  case False
  then obtain a s' where g: "lev_slab_getBlock n s = (Some a, s')"
    using getBlock_None_iff [of n s] by (cases "lev_slab_getBlock n s") auto
  note r = getBlock_Some [OF assms g]
  obtain c old where "n \<le> class_size c" "blocks s' a = Some \<lparr>mb_allocator = c, mb_refcount = 0,
      mb_size = class_size c, mb_nbytes = 0, mb_bytes = old\<rparr>" using r(5) by blast
  with False g r(1,3,4,6) show ?thesis by (auto simp: slab_in_use_def)
qed

theorem getBlock_fresh_witness:
  "lev_slab_getBlock 2000000 ex_heap = (None, ex_heap) \<and> (\<exists>a s'. lev_slab_getBlock 100 ex_heap = (Some a, s'))"
  using getBlock_fresh [OF slab_ok_start, of 2000000 "\<lambda>_ _. 0"] getBlock_fresh [OF slab_ok_start, of 100 "\<lambda>_ _. 0"]
  by auto

text \<open>C11: \<open>lev_slab_fill\<close> terminates with the allocator in order and each pool filled to its
bound: 1024, 512, 8, 8 and 0 blocks.\<close>

theorem slab_fill_counts:
  assumes "slab_ok s"
  shows "slab_ok (lev_slab_fill s) \<and>
    map (\<lambda>c. length (pool (allocs (lev_slab_fill s) c))) [Mem_1k, Mem_8k, Mem_16k, Mem_64k, Mem_1024k] =
      [1024, 512, 8, 8, 0] \<and>
    (\<forall>c. pool_min (allocs (lev_slab_fill s) c) = length (pool (allocs (lev_slab_fill s) c)))"
  using lev_slab_fill_ok [OF assms] by simp

theorem slab_fill_counts_witness:
  "length (pool (allocs (lev_slab_fill ex_heap) Mem_8k)) = 512"
  using slab_fill_counts [OF slab_ok_start, of "\<lambda>_ _. 0"] by simp

section \<open>Slices\<close>

text \<open>C12: Growing a slice to room for \<open>n\<close> bytes and a null byte (below a megabyte) succeeds, keeps its
bytes and every other block in use, and never leaves the slice reaching outside its block, whether
it is extended in place or moved to a new block; when it moves, the old block loses exactly the
slice's reference and the new one has exactly one.\<close>

theorem memslice_resize_safe:
  assumes "slab_ok h" "memslice_ok h ms" "0 < ms_until ms" "n < 1024 * 1024"
  shows "\<exists>ms' h'. lev_memslice_resize ms n h = Inr (ms', h') \<and> slab_ok h' \<and> memslice_ok h' ms' \<and>
    n < ms_until ms' \<and> (\<forall>i < ms_until ms. slice_mem h' ms' i = slice_mem h ms i) \<and>
    (\<forall>x. x \<noteq> ms_mb ms \<longrightarrow> 0 < refs h x \<longrightarrow> x \<noteq> ms_mb ms' \<and> blocks h' x = blocks h x) \<and>
    (if ms_mb ms' = ms_mb ms then refs h' (ms_mb ms) = refs h (ms_mb ms)
     else refs h' (ms_mb ms') = 1 \<and> refs h' (ms_mb ms) = refs h (ms_mb ms) - 1)"
  using lev_memslice_resize_grown [OF assms] by (fastforce simp: grown_def)

theorem memslice_resize_safe_witness:
  "\<exists>ms' h'. lev_memslice_resize \<lparr>ms_mb = 1, ms_slice = 0, ms_until = 3\<rparr> 2000 (ex_block [1, 2, 3]) = Inr (ms', h') \<and>
    2000 < ms_until ms' \<and> slice_mem h' ms' 0 = 1"
proof -
  have "memslice_ok (ex_block [1, 2, 3]) \<lparr>ms_mb = 1, ms_slice = 0, ms_until = 3\<rparr>"
    by (intro memslice_okI) (auto simp: ex_block_def)
  from memslice_resize_safe [OF ex_block_ok this, of 2000]
  show ?thesis by (fastforce simp: slice_mem_def ex_block_def mem_write_def)
qed

section \<open>Buffers\<close>

definition ex_lib :: lua_lib where
  "ex_lib = \<lparr>str2num = (\<lambda>_. None), num2str = (\<lambda>_. [])\<rparr>"

abbreviation ex_slice :: "nat \<Rightarrow> MemSlice" where
  "ex_slice n \<equiv> \<lparr>ms_mb = 1, ms_slice = 0, ms_until = n\<rparr>"

lemma ex_slice_ok: "n \<le> 1024 \<Longrightarrow> memslice_ok (ex_block bs) (ex_slice n)"
  by (simp add: memslice_ok_def ex_block_def refs_def)

text \<open>C13: In every program that starts with the pools \<open>lev_slab_fill\<close> has filled, makes buffers of 1 byte
to 1 MB, cuts slices off them, fills them, stores inside them and drops them, blocks going through the
free lists many times, the allocator stays in order, the reference count of every block is the number of live buffers on
it, plus one for the block \<open>lev_buffer_new\<close> is cutting buffers off; every live buffer lies inside its
block, and inside the used part of the current block.\<close>

theorem buffers_invariant:
  assumes "(buffer_step L)\<^sup>*\<^sup>* (heap_start junk, []) (h, ls)"
  shows "slab_ok h \<and> (\<forall>a. refs h a = holders ls a + static_refs h a) \<and>
    (\<forall>m \<in> set ls. 1 \<le> ms_until m \<and> (\<exists>b. blocks h (ms_mb m) = Some b \<and> ms_slice m + ms_until m \<le> mb_size b \<and>
       (buf_static_mb h = Some (ms_mb m) \<longrightarrow> ms_slice m + ms_until m \<le> mb_nbytes b)))"
  using buffers_reachable [OF assms] by (auto simp: buffers_ok_def live_ok_def)

lemma ex_new:
  obtains m h where "(buffer_step ex_lib)\<^sup>*\<^sup>* (heap_start junk, []) (h, [m])" "ms_until m = 3"
    "buffers_ok h [m]" "slice_bytes h m = Inr [1, 2, 3]"
proof -
  have ok: "source_ok 3 (Some ([1, 2, 3] @ [0])) 0" by (simp add: source_ok_def)
  have nb: "new_bytes 3 (Some ([1, 2, 3] @ [0])) 0 = [1, 2, 3]" "length [1, 2, 3 :: byte] = 3"
    by (simp_all add: new_bytes_def)
  obtain m h where m: "lev_buffer_new 3 (Some ([1, 2, 3] @ [0])) 0 (heap_start junk) = Inr (m, h)"
      "buffers_ok h [m]" "ms_until m = 3" "slice_part h m 0 3 = [1, 2, 3]"
    using lev_buffer_new_life [OF buffers_ok_start [of junk] _ _ ok, unfolded nb] by auto
  have "buffer_new ex_lib [LString [1, 2, 3]] (heap_start junk) = Inr ([LBuffer m], h)"
    unfolding buffer_new_string nb(2) m(1) by simp
  then have "buffer_step ex_lib (heap_start junk, []) (h, [m])"
    by (intro new_string [of "[1, 2, 3]"]) simp_all
  moreover have "slice_bytes h m = Inr [1, 2, 3]"
    using slice_bytes_ok [OF buffers_memslice [OF m(2)], of m] m(3,4) by simp
  ultimately show thesis using m by (intro that) auto
qed

theorem buffers_invariant_witness:
  "\<exists>h m. (buffer_step ex_lib)\<^sup>*\<^sup>* (heap_start (\<lambda>_ _. 0), []) (h, [m]) \<and> slab_ok h \<and>
     refs h (ms_mb m) = 1 + static_refs h (ms_mb m)"
proof -
  obtain m h where "(buffer_step ex_lib)\<^sup>*\<^sup>* (heap_start (\<lambda>_ _. 0), []) (h, [m])" by (rule ex_new)
  with buffers_invariant [OF this] show ?thesis
    by (intro exI [of _ h] exI [of _ m] conjI) simp_all
qed

text \<open>C14: In such a program a new buffer always holds exactly the bytes of its string, and making it
changes no byte of any other live buffer, although they share blocks and its block may come out of a
free list.\<close>

theorem buffers_isolated:
  assumes "(buffer_step L)\<^sup>*\<^sup>* (heap_start junk, []) (h, ls)" "s \<noteq> []" "length s \<le> 1048576"
  shows "\<exists>m h'. buffer_new L [LString s] h = Inr ([LBuffer m], h') \<and> slice_bytes h' m = Inr s \<and>
    (\<forall>p \<in> set ls. slice_bytes h' p = slice_bytes h p)"
proof -
  note inv = buffers_reachable [OF assms(1)]
  have src: "source_ok (length s) (Some (s @ [0])) 0" "new_bytes (length s) (Some (s @ [0])) 0 = s"
    by (simp_all add: source_ok_def new_bytes_def)
  obtain m h' where m: "lev_buffer_new (length s) (Some (s @ [0])) 0 h = Inr (m, h')" "buffers_ok h' (m # ls)"
      "ms_until m = length s" "slice_part h' m 0 (length s) = s"
      "\<And>p. p \<in> set ls \<Longrightarrow> slice_part h' p 0 (ms_until p) = slice_part h p 0 (ms_until p)"
    by (rule lev_buffer_new_life [OF inv _ assms(3) src(1)]) (use assms(2) src(2) in \<open>auto simp: Suc_le_eq\<close>)
  have "slice_bytes h' p = slice_bytes h p" if "p \<in> set ls" for p
    using slice_bytes_ok [OF buffers_memslice [OF m(2)], of p] slice_bytes_ok [OF buffers_memslice [OF inv that]]
      m(5) [OF that] that by simp
  moreover have "slice_bytes h' m = Inr s"
    using slice_bytes_ok [OF buffers_memslice [OF m(2)], of m] m(3,4) by simp
  ultimately show ?thesis using m(1) by (auto simp: buffer_new_string)
qed

theorem buffers_isolated_witness:
  "\<exists>(h :: lev_heap) m1 m h'. slice_bytes h m1 = Inr [1, 2, 3] \<and> buffer_new ex_lib [LString [4, 5]] h = Inr ([LBuffer m], h') \<and>
    slice_bytes h' m = Inr [4, 5] \<and> slice_bytes h' m1 = Inr [1, 2, 3]"
proof -
  obtain m1 h where "(buffer_step ex_lib)\<^sup>*\<^sup>* (heap_start (\<lambda>_ _. 0), []) (h, [m1])" "slice_bytes h m1 = Inr [1, 2, 3]"
    by (rule ex_new)
  from buffers_isolated [OF this(1), of "[4, 5]"] this(2) obtain m h' where
    "buffer_new ex_lib [LString [4, 5]] h = Inr ([LBuffer m], h')" "slice_bytes h' m = Inr [4, 5]"
    "slice_bytes h' m1 = Inr [1, 2, 3]" by auto
  with \<open>slice_bytes h m1 = _\<close> show ?thesis by blast
qed

text \<open>C15: Dropping a live buffer always succeeds, changes no byte of the buffers that are left, and
when it was the last buffer on a block that is no longer cut, the block has no reference left and is
given back: freed or on the free list of its class.\<close>

theorem buffer_gc_safe:
  assumes "(buffer_step L)\<^sup>*\<^sup>* (heap_start junk, []) (h, ls)" "p \<in> set ls"
  shows "\<exists>h'. buffer__gc [LBuffer p] h = Inr ([], h') \<and>
    (\<forall>m \<in> set (remove1 p ls). slice_bytes h' m = slice_bytes h m) \<and>
    (ms_mb p \<notin> ms_mb ` set (remove1 p ls) \<and> buf_static_mb h' \<noteq> Some (ms_mb p) \<longrightarrow>
       refs h' (ms_mb p) = 0 \<and> \<not> slab_in_use h' (ms_mb p))"
proof -
  note inv = buffers_reachable [OF assms(1)]
  obtain h' where h': "buffer__gc [LBuffer p] h = Inr ([], h')" "buffers_ok h' (remove1 p ls)"
    "\<And>m. m \<in> set (remove1 p ls) \<Longrightarrow> slice_mem h' m = slice_mem h m"
    by (rule buffer_gc_life [OF inv assms(2)]) blast
  have "slice_bytes h' m = slice_bytes h m" if m: "m \<in> set (remove1 p ls)" for m
  proof -
    have "m \<in> set ls" using m notin_set_remove1 by fast
    with slice_bytes_ok [OF buffers_memslice [OF h'(2) m]] slice_bytes_ok [OF buffers_memslice [OF inv]] h'(3) [OF m]
    show ?thesis by simp
  qed
  moreover have "refs h' (ms_mb p) = 0 \<and> \<not> slab_in_use h' (ms_mb p)"
    if none: "ms_mb p \<notin> ms_mb ` set (remove1 p ls)" "buf_static_mb h' \<noteq> Some (ms_mb p)"
  proof
    show zero: "refs h' (ms_mb p) = 0"
      using buffers_refs [OF h'(2), of "ms_mb p"] none by (simp add: holders_def static_refs_def count_list_0_iff)
    have "slab_release (ms_mb p) h = Inr h'"
      using h'(1) by (auto simp: buffer__gc_def slab_release_def bind_res_Inr_iff)
    moreover have "0 < refs h (ms_mb p)"
      using buffers_memslice [OF inv assms(2)] by (simp add: memslice_ok_def)
    ultimately show "\<not> slab_in_use h' (ms_mb p)"
      using slab_release_last [OF buffers_slab [OF inv], of "ms_mb p" h'] zero by blast
  qed
  ultimately show ?thesis using h'(1) by auto
qed

theorem buffer_gc_safe_witness:
  "\<exists>(h :: lev_heap) m h'. slice_bytes h m = Inr [1, 2, 3] \<and> buffer__gc [LBuffer m] h = Inr ([], h')"
proof -
  obtain m h where "(buffer_step ex_lib)\<^sup>*\<^sup>* (heap_start (\<lambda>_ _. 0), []) (h, [m])" "slice_bytes h m = Inr [1, 2, 3]"
    by (rule ex_new)
  with buffer_gc_safe [OF this(1), of m] show ?thesis by auto
qed

text \<open>C16: \<open>find\<close> returns the position of the first occurrence of the string in the buffer, or nil when
the string does not occur.\<close>

theorem buffer_find_first:
  assumes "memslice_ok h m" "s \<noteq> []"
  shows "\<exists>bs. slice_bytes h m = Inr bs \<and>
    (case buffer_find L [LBuffer m, LString s] h of
       Inr ([LNil], h') \<Rightarrow> h' = h \<and> \<not> sublist s bs
     | Inr ([LNumber n], h') \<Rightarrow> h' = h \<and> (\<exists>k. n = dbl_of_int (int (k + 1)) \<and>
         bs = take k bs @ s @ drop (k + length s) bs \<and> (\<forall>j < k. \<not> prefix s (drop j bs)))
     | _ \<Rightarrow> False)"
proof -
  let ?bs = "slice_part h m 0 (ms_until m)"
  have bs: "slice_bytes h m = Inr ?bs" using slice_bytes_ok [OF assms(1)] by simp
  have find: "buffer_find L [LBuffer m, LString s] h =
      Inr ([case first_occurrence ?bs s of None \<Rightarrow> LNil | Some found \<Rightarrow> lua_int (int (found + 1))], h)"
    using assms(2) bs by (simp add: buffer_find_def lua_tolstring_def my_memmem_first)
  show ?thesis
  proof (cases "first_occurrence ?bs s")
    case None
    with first_occurrence_None [OF None] bs find assms(2) show ?thesis by auto
  next
    case (Some k)
    with first_occurrence_SomeD [OF Some] bs find show ?thesis
      by (intro exI [of _ ?bs]) (auto intro!: exI [of _ k])
  qed
qed

theorem buffer_find_first_witness:
  "\<exists>bs. slice_bytes (ex_block [9, 7, 8, 7]) (ex_slice 4) = Inr bs \<and>
    (case buffer_find ex_lib [LBuffer (ex_slice 4), LString [7]] (ex_block [9, 7, 8, 7]) of
       Inr ([LNil], h') \<Rightarrow> h' = ex_block [9, 7, 8, 7] \<and> \<not> sublist [7] bs
     | Inr ([LNumber n], h') \<Rightarrow> h' = ex_block [9, 7, 8, 7] \<and> (\<exists>k. n = dbl_of_int (int (k + 1)) \<and>
         bs = take k bs @ [7] @ drop (k + length [7 :: byte]) bs \<and> (\<forall>j < k. \<not> prefix [7] (drop j bs)))
     | _ \<Rightarrow> False)"
  by (rule buffer_find_first [OF ex_slice_ok]) simp_all

text \<open>C17: \<open>toString(buffer, i, j)\<close> on a live buffer returns \<open>j\<close> bytes from the \<open>i\<close>-th one on, 0 standing
for the first byte and for everything up to the end; every other pair of integers is refused with a
Lua error, and nothing outside the buffer is read.\<close>

theorem buffer_tostring_total:
  assumes "slab_ok h" "memslice_ok h m" "\<bar>i\<bar> < 2 ^ 53" "\<bar>j\<bar> < 2 ^ 53"
  shows "buffer_tostring L [LBuffer m, lua_int i, lua_int j] h =
    (let off = max 1 (nat i); rest = ms_until m - (off - 1); len = (if j = 0 then rest else nat j) in
     if i < 0 \<or> ms_until m < off then Inl (Lua_error ''Offset out of bounds'')
     else if j < 0 \<or> rest < len then Inl (Lua_error ''length out of bounds'')
     else Inr ([LString (map (slice_mem h m) [off - 1..<off - 1 + len])], h))"
  by (rule buffer_tostring_eq [OF assms])

theorem buffer_tostring_total_witness:
  "buffer_tostring ex_lib [LBuffer (ex_slice 3), lua_int 2, lua_int 2] (ex_block [97, 98, 99]) =
     Inr ([LString [98, 99]], ex_block [97, 98, 99])"
  using buffer_tostring_total [OF ex_block_ok [of "[97, 98, 99]"] ex_slice_ok [of 3 "[97, 98, 99]"], of 2 2 ex_lib]
  by (simp add: slice_mem_def ex_block_def mem_write_def upt_rec Let_def)

text \<open>C18: The read methods load the bytes in the order their names say: big-endian or little-endian,
signed in two's complement for the \<open>Int\<close> methods.\<close>

theorem buffer_byte_order:
  assumes "slab_ok h" "memslice_ok h m" "1 \<le> i" "nat i + 3 \<le> ms_until m"
    and "bs = map (slice_mem h m) [nat i - 1..<nat i - 1 + 4]" "ds = take 2 bs"
  shows "buffer_readUInt32BE L [LBuffer m, lua_int i] h = Inr ([lua_int (int (be_val bs))], h) \<and>
    buffer_readUInt32LE L [LBuffer m, lua_int i] h = Inr ([lua_int (int (be_val (rev bs)))], h) \<and>
    buffer_readInt32BE L [LBuffer m, lua_int i] h = Inr ([lua_int (to_signed 32 (int (be_val bs)))], h) \<and>
    buffer_readInt32LE L [LBuffer m, lua_int i] h = Inr ([lua_int (to_signed 32 (int (be_val (rev bs))))], h) \<and>
    buffer_readUInt16BE L [LBuffer m, lua_int i] h = Inr ([lua_int (int (be_val ds))], h) \<and>
    buffer_readUInt16LE L [LBuffer m, lua_int i] h = Inr ([lua_int (int (be_val (rev ds)))], h) \<and>
    buffer_readUInt8 L [LBuffer m, lua_int i] h = Inr ([lua_int (int (unat (hd bs)))], h) \<and>
    buffer_readInt8 L [LBuffer m, lua_int i] h = Inr ([lua_int (to_signed 8 (int (unat (hd bs))))], h)"
proof -
  have four: "nat i - 1 + 4 \<le> ms_until m" and two: "nat i - 1 + 2 \<le> ms_until m" and one: "nat i - 1 + 1 \<le> ms_until m"
    using assms(3,4) by linarith+
  have len: "length bs = 4" "length ds = 2" using assms(5,6) by simp_all
  have ds: "map (slice_mem h m) [nat i - 1..<nat i - 1 + 2] = ds" and hd: "map (slice_mem h m) [nat i - 1..<nat i - 1 + 1] = [hd bs]"
    using assms(5,6) by (simp_all add: take_map hd_map)
  note r4 = buffer_read_in [OF assms(1,2) order.refl assms(3) four, of _ L, folded assms(5)]
  note r2 = buffer_read_in [OF assms(1,2) order.refl assms(3) two, of _ L, unfolded ds]
  note r1 = buffer_read_in [OF assms(1,2) zero_le assms(3) one, of _ L, unfolded hd]
  have "buffer_readUInt32BE L [LBuffer m, lua_int i] h = Inr ([lua_int (int (be_val bs))], h)"
    by (simp add: buffer_readUInt32BE_def r4 uint_bswap_le len)
  moreover have "buffer_readUInt32LE L [LBuffer m, lua_int i] h = Inr ([lua_int (int (be_val (rev bs)))], h)"
    by (simp add: buffer_readUInt32LE_def r4 le_val_def)
  moreover have "buffer_readInt32BE L [LBuffer m, lua_int i] h = Inr ([lua_int (to_signed 32 (int (be_val bs)))], h)"
    by (simp add: buffer_readInt32BE_def r4 sint_bswap_le len)
  moreover have "buffer_readInt32LE L [LBuffer m, lua_int i] h = Inr ([lua_int (to_signed 32 (int (be_val (rev bs))))], h)"
    by (simp add: buffer_readInt32LE_def r4 le_val_def)
  moreover have "buffer_readUInt16BE L [LBuffer m, lua_int i] h = Inr ([lua_int (int (be_val ds))], h)"
    by (simp add: buffer_readUInt16BE_def r2 uint_bswap_le len)
  moreover have "buffer_readUInt16LE L [LBuffer m, lua_int i] h = Inr ([lua_int (int (be_val (rev ds)))], h)"
    by (simp add: buffer_readUInt16LE_def r2 le_val_def)
  moreover have "buffer_readUInt8 L [LBuffer m, lua_int i] h = Inr ([lua_int (int (unat (hd bs)))], h)"
    by (unfold buffer_readUInt8_def r1) simp
  moreover have "buffer_readInt8 L [LBuffer m, lua_int i] h = Inr ([lua_int (to_signed 8 (int (unat (hd bs))))], h)"
    by (unfold buffer_readInt8_def r1) simp
  ultimately show ?thesis by blast
qed

theorem buffer_byte_order_witness:
  "buffer_readUInt32BE ex_lib [LBuffer (ex_slice 5), lua_int 2] (ex_block [9, 1, 2, 3, 4]) =
     Inr ([lua_int 0x01020304], ex_block [9, 1, 2, 3, 4]) \<and>
   buffer_readUInt32LE ex_lib [LBuffer (ex_slice 5), lua_int 2] (ex_block [9, 1, 2, 3, 4]) =
     Inr ([lua_int 0x04030201], ex_block [9, 1, 2, 3, 4])"
  using buffer_byte_order [OF ex_block_ok [of "[9, 1, 2, 3, 4]"] ex_slice_ok [of 5 "[9, 1, 2, 3, 4]"] _ _ refl refl, of 2 ex_lib]
  by (simp add: slice_mem_def ex_block_def mem_write_def upt_rec be_val_def)

text \<open>C19: What a write method stores the read method of the same name returns, for every number of the
integer type in the method's name, negative ones included, and every position at which it fits in the
buffer.\<close>

theorem buffer_write_read:
  fixes h :: "'a slab_scheme"
  assumes "slab_ok h" "memslice_ok h m" "(wr, rd, w, lo, hi) \<in> set (integer_methods :: _ list)"
    and "lo \<le> k" "k \<le> hi" "1 \<le> i" "nat i - 1 + w \<le> ms_until m"
  shows "\<exists>h'. wr L [LBuffer m, lua_int k, lua_int i] h = Inr ([], h') \<and>
    rd L [LBuffer m, lua_int i] h' = Inr ([lua_int k], h')"
  by (rule integer_methods_write_read [OF assms])

theorem buffer_write_read_witness:
  "\<exists>h'. buffer_writeInt32BE ex_lib [LBuffer (ex_slice 5), lua_int (- 0x04FBDCBE), lua_int 1] (ex_block []) = Inr ([], h') \<and>
    buffer_readInt32BE ex_lib [LBuffer (ex_slice 5), lua_int 1] h' = Inr ([lua_int (- 0x04FBDCBE)], h')"
  by (rule buffer_write_read [OF ex_block_ok ex_slice_ok, where w = 4 and lo = "- 2147483648" and hi = 2147483647])
     (simp_all add: integer_methods_def)

text \<open>C20: Concatenating two live buffers gives a live buffer with the bytes of the first followed by
those of the second, in place or copied, unless the first one starts where the second one ends in the
same block.\<close>

theorem buffer_concat_bytes:
  assumes "(buffer_step L)\<^sup>*\<^sup>* (heap_start junk, []) (h, ls)" "m1 \<in> set ls" "m2 \<in> set ls"
    and "\<not> (ms_mb m1 = ms_mb m2 \<and> ms_slice m2 + ms_until m2 = ms_slice m1)"
    and "ms_until m1 + ms_until m2 \<le> 1048576"
  shows "\<exists>m h' s1 s2. buffer__concat L [LBuffer m1, LBuffer m2] h = Inr ([LBuffer m], h') \<and>
    buffers_ok h' (m # ls) \<and> slice_bytes h m1 = Inr s1 \<and> slice_bytes h m2 = Inr s2 \<and>
    slice_bytes h' m = Inr (s1 @ s2)"
proof -
  note inv = buffers_reachable [OF assms(1)]
  have "\<not> follows m1 m2" using assms(4) by (auto simp: follows_def)
  then obtain m h' where m: "buffer__concat L [LBuffer m1, LBuffer m2] h = Inr ([LBuffer m], h')"
      "buffers_ok h' (m # ls)" "buffer_bytes h' m = buffer_bytes h m1 @ buffer_bytes h m2"
    using concat_union [OF inv assms(2,3), of m1 m2] concat_apart [OF inv assms(2,3,5)] by blast
  then show ?thesis
    using slice_bytes_ok [OF buffers_memslice [OF inv assms(2)]] slice_bytes_ok [OF buffers_memslice [OF inv assms(3)]]
      slice_bytes_ok [OF buffers_memslice [OF m(2)], of m] by simp
qed

theorem buffer_concat_bytes_witness:
  "\<exists>(h :: lev_heap) m1 m h'. slice_bytes h m1 = Inr [1, 2, 3] \<and>
    buffer__concat ex_lib [LBuffer m1, LBuffer m1] h = Inr ([LBuffer m], h') \<and>
    slice_bytes h' m = Inr [1, 2, 3, 1, 2, 3]"
proof -
  obtain m h where r: "(buffer_step ex_lib)\<^sup>*\<^sup>* (heap_start (\<lambda>_ _. 0), []) (h, [m])" "slice_bytes h m = Inr [1, 2, 3]"
      "ms_until m = 3" by (rule ex_new)
  from buffer_concat_bytes [OF r(1), of m m] r(2,3) obtain m' h' where
    "buffer__concat ex_lib [LBuffer m, LBuffer m] h = Inr ([LBuffer m'], h')"
    "slice_bytes h' m' = Inr [1, 2, 3, 1, 2, 3]" by auto
  with r(2) show ?thesis by blast
qed

text \<open>C21: When the first operand starts where the second one ends, the "union" of the two slices has
their bytes in the order of memory, so the result is the second followed by the first.\<close>

theorem buffer_concat_swapped:
  assumes "(buffer_step L)\<^sup>*\<^sup>* (heap_start junk, []) (h, ls)" "m1 \<in> set ls" "m2 \<in> set ls"
    and "ms_mb m1 = ms_mb m2" "ms_slice m2 + ms_until m2 = ms_slice m1"
  shows "\<exists>m h' s1 s2. buffer__concat L [LBuffer m1, LBuffer m2] h = Inr ([LBuffer m], h') \<and>
    slice_bytes h m1 = Inr s1 \<and> slice_bytes h m2 = Inr s2 \<and> slice_bytes h' m = Inr (s2 @ s1)"
proof -
  note inv = buffers_reachable [OF assms(1)]
  have "follows m1 m2" using assms(4,5) by (auto simp: follows_def)
  then obtain m h' where m: "buffer__concat L [LBuffer m1, LBuffer m2] h = Inr ([LBuffer m], h')"
      "buffers_ok h' (m # ls)" "buffer_bytes h' m = buffer_bytes h m2 @ buffer_bytes h m1"
    using concat_union [OF inv assms(2,3), of m2 m1] by blast
  then show ?thesis
    using slice_bytes_ok [OF buffers_memslice [OF inv assms(2)]] slice_bytes_ok [OF buffers_memslice [OF inv assms(3)]]
      slice_bytes_ok [OF buffers_memslice [OF m(2)], of m] by simp
qed

lemma ex_cut:
  assumes "(buffer_step L)\<^sup>*\<^sup>* s (h, ls)" "buffers_ok h ls" "m \<in> set ls" "1 \<le> i" "1 \<le> j" "i - 1 + j \<le> ms_until m"
  obtains h' where "(buffer_step L)\<^sup>*\<^sup>* s (h', \<lparr>ms_mb = ms_mb m, ms_slice = ms_slice m + (i - 1), ms_until = j\<rparr> # ls)"
    "slice_mem h' = slice_mem h"
proof -
  note ok = buffers_okD [OF assms(2)]
  note size = memslice_size [OF ok(1) ok(5) [OF assms(3)]]
  have "buffer_slice L [LBuffer m, lua_int (int i), lua_int (int j)] h =
      Inr ([LBuffer \<lparr>ms_mb = ms_mb m, ms_slice = ms_slice m + (i - 1), ms_until = j\<rparr>],
       put_block (ms_mb m) (the (blocks h (ms_mb m))\<lparr>mb_refcount := refs h (ms_mb m) + 1\<rparr>) h)"
    by (subst buffer_slice_eq [OF ok(1) ok(5) [OF assms(3)]]) (use assms(4-6) size in \<open>auto simp: max_def Let_def\<close>)
  with assms(3,4-6) size have "buffer_step L (h, ls)
      (put_block (ms_mb m) (the (blocks h (ms_mb m))\<lparr>mb_refcount := refs h (ms_mb m) + 1\<rparr>) h,
       \<lparr>ms_mb = ms_mb m, ms_slice = ms_slice m + (i - 1), ms_until = j\<rparr> # ls)"
    by (intro cut [where i = "int i" and j = "int j"]) simp_all
  moreover have "slice_mem (put_block (ms_mb m) (the (blocks h (ms_mb m))\<lparr>mb_refcount := refs h (ms_mb m) + 1\<rparr>) h) = slice_mem h"
    using ok(4) [OF assms(3)] by (auto simp: slice_mem_def live_ok_def fun_eq_iff)
  ultimately show thesis using assms(1) that by (meson rtranclp.rtrancl_into_rtrancl)
qed

theorem buffer_concat_swapped_witness:
  "\<exists>(h :: lev_heap) m1 m2 m h'. slice_bytes h m1 = Inr [2, 3] \<and> slice_bytes h m2 = Inr [1] \<and>
    buffer__concat ex_lib [LBuffer m1, LBuffer m2] h = Inr ([LBuffer m], h') \<and> slice_bytes h' m = Inr [1, 2, 3]"
proof -
  obtain m h where r: "(buffer_step ex_lib)\<^sup>*\<^sup>* (heap_start (\<lambda>_ _. 0), []) (h, [m])" "buffers_ok h [m]"
      "slice_bytes h m = Inr [1, 2, 3]" "ms_until m = 3" by (rule ex_new)
  define m2 m1 where "m2 = \<lparr>ms_mb = ms_mb m, ms_slice = ms_slice m + (1 - 1), ms_until = 1\<rparr>"
    and "m1 = \<lparr>ms_mb = ms_mb m, ms_slice = ms_slice m + (2 - 1), ms_until = 2\<rparr>"
  obtain h2 where h2: "(buffer_step ex_lib)\<^sup>*\<^sup>* (heap_start (\<lambda>_ _. 0), []) (h2, [m2, m])" "slice_mem h2 = slice_mem h"
    by (rule ex_cut [OF r(1,2), of m 1 1]) (use r(4) in \<open>auto simp: m2_def\<close>)
  obtain h1 where h1: "(buffer_step ex_lib)\<^sup>*\<^sup>* (heap_start (\<lambda>_ _. 0), []) (h1, [m1, m2, m])" "slice_mem h1 = slice_mem h2"
    by (rule ex_cut [OF h2(1) buffers_reachable [OF h2(1)], of m 2 2]) (use r(4) in \<open>auto simp: m1_def\<close>)
  note inv = buffers_reachable [OF h1(1)]
  have b: "map (slice_mem h m) [0, 1, 2] = [1, 2, 3]"
    using r(3,4) slice_bytes_ok [OF buffers_memslice [OF r(2)], of m] by (simp add: upt_rec numeral_2_eq_2)
  have at: "slice_mem h m1 k = slice_mem h m (Suc k)" "slice_mem h m2 k = slice_mem h m k" for k
    by (cases "blocks h (ms_mb m)"; simp add: slice_mem_def m1_def m2_def)+
  have u: "ms_until m1 = 2" "ms_until m2 = 1" by (simp_all add: m1_def m2_def)
  have bytes: "slice_bytes h1 m1 = Inr [2, 3]" "slice_bytes h1 m2 = Inr [1]"
    using b by (simp_all add: slice_bytes_ok [OF buffers_memslice [OF inv]] h1(2) h2(2) at u upt_rec numeral_2_eq_2)
  from buffer_concat_swapped [OF h1(1), of m1 m2] obtain m' h' where
    "buffer__concat ex_lib [LBuffer m1, LBuffer m2] h1 = Inr ([LBuffer m'], h')" "slice_bytes h' m' = Inr [1, 2, 3]"
    using bytes by (auto simp: m1_def m2_def)
  with bytes show ?thesis by blast
qed

text \<open>C22: A string in front of a buffer is lost: \<open>str .. buf\<close> returns a copy of the buffer, because
the first operand is read from the stack index of the second.\<close>

theorem buffer_concat_loses_string:
  assumes "(buffer_step L)\<^sup>*\<^sup>* (heap_start junk, []) (h, ls)" "m \<in> set ls"
  shows "\<exists>m' h'. buffer__concat L [LString s, LBuffer m] h = Inr ([LBuffer m'], h') \<and>
    slice_bytes h' m' = slice_bytes h m"
proof -
  note inv = buffers_reachable [OF assms(1)]
  obtain m' h' where m': "buffer__concat L [LString s, LBuffer m] h = Inr ([LBuffer m'], h')"
      "buffers_ok h' (m' # ls)" "buffer_bytes h' m' = buffer_bytes h m"
    using concat_string_buffer [OF inv assms(2)] by blast
  then show ?thesis
    using slice_bytes_ok [OF buffers_memslice [OF inv assms(2)]] slice_bytes_ok [OF buffers_memslice [OF m'(2)], of m']
    by simp
qed

theorem buffer_concat_loses_string_witness:
  "\<exists>(h :: lev_heap) m m' h'. buffer__concat ex_lib [LString [7], LBuffer m] h = Inr ([LBuffer m'], h') \<and>
    slice_bytes h' m' = Inr [1, 2, 3]"
proof -
  obtain m h where r: "(buffer_step ex_lib)\<^sup>*\<^sup>* (heap_start (\<lambda>_ _. 0), []) (h, [m])" "slice_bytes h m = Inr [1, 2, 3]"
    by (rule ex_new)
  from buffer_concat_loses_string [OF r(1), of m "[7]"] r(2) show ?thesis by auto
qed

text \<open>C23: \<open>buf[i] = str\<close> puts the bytes of the string at \<open>i\<close>, keeps the others, and grows the buffer when
the string does not fit; a string that ends exactly where the buffer ends makes it one byte longer
too.\<close>

theorem buffer_assign_string:
  assumes "slab_ok h" "memslice_ok h m" "0 < ms_until m" "1 \<le> i" "nat i \<le> ms_until m + 1"
    and "nat i - 1 + length s < 1048576"
  shows "\<exists>m' h'. buffer__newindex L [LBuffer m, lua_int i, LString s] h = Inr (m', h') \<and>
    slab_ok h' \<and> memslice_ok h' m' \<and>
    map (slice_mem h' m') [nat i - 1..<nat i - 1 + length s] = s \<and>
    (\<forall>k < ms_until m. k < nat i - 1 \<or> nat i - 1 + length s \<le> k \<longrightarrow> slice_mem h' m' k = slice_mem h m k) \<and>
    ms_until m' = (if nat i - 1 + length s < ms_until m then ms_until m else nat i + length s)"
  by (rule newindex_string [OF assms])

theorem buffer_assign_string_witness:
  "\<exists>m' h'. buffer__newindex ex_lib [LBuffer (ex_slice 2), lua_int 1, LString [5, 6]] (ex_block [1, 2]) = Inr (m', h') \<and>
    ms_until m' = 3"
  using buffer_assign_string [OF ex_block_ok [of "[1, 2]"] ex_slice_ok [of 2 "[1, 2]"], of 1 "[5, 6]" ex_lib] by auto

text \<open>C24: Growing the last buffer of the shared block in place counts its whole new length as used once
more. When that passes the size of the block, the next call of \<open>Buffer.new\<close> writes behind the end of the
block.\<close>

theorem buffer_growth_overflow:
  assumes "buf_static_mb h = Some (ms_mb m)" "blocks h (ms_mb m) = Some b" "0 < mb_refcount b"
    and "ms_slice m + ms_until m = mb_nbytes b" "0 < ms_until m"
    and "ms_until m \<le> length s" "length s < ms_until m + (mb_size b - mb_nbytes b)"
    and "mb_nbytes b < mb_size b" "mb_size b < mb_nbytes b + length s" "mb_size b \<le> 1048576"
    and "1 \<le> n" "n \<le> 1048576" "nat n \<noteq> mb_size b"
  shows "\<exists>m' h'. buffer__newindex L [LBuffer m, lua_int 1, LString s] h = Inr (m', h') \<and>
    buffer_new L [lua_int n] h' = Inl (Undefined ''write past the MemBlock'')"
  by (rule grow_then_new [OF assms])

theorem buffer_growth_overflow_witness:
  "\<exists>h :: lev_heap. \<exists>m m' h'.
    buffer__newindex ex_lib [LBuffer m, lua_int 1, LString (replicate 1000 7)] h = Inr (m', h') \<and>
    buffer_new ex_lib [lua_int 10] h' = Inl (Undefined ''write past the MemBlock'')"
proof -
  define b where "b = \<lparr>mb_allocator = Mem_1k, mb_refcount = 2, mb_size = 1024, mb_nbytes = 600, mb_bytes = \<lambda>_. 0\<rparr>"
  define h where "h = empty_heap (\<lambda>_ _. 0)\<lparr>blocks := [1 \<mapsto> b], brk := 2, buf_static_mb := Some 1\<rparr>"
  show ?thesis
    by (intro exI [of _ h] exI [of _ "\<lparr>ms_mb = 1, ms_slice = 0, ms_until = 600\<rparr>"]
        buffer_growth_overflow [where b = b]) (simp_all add: h_def b_def)
qed

text \<open>C25: The index check of the one-byte methods lets the index behind the last byte pass, and the
check of the wider ones wraps around for a buffer shorter than the number: both read bytes that do not
belong to the buffer, or fall off the block.\<close>

theorem buffer_reads_past_end:
  assumes "blocks h (ms_mb m) = Some b" "ms_slice m + ms_until m < mb_size b" "mb_size b < 2 ^ 53 - 1"
    and "ms_until m < 4" "1 \<le> n" "n < 2 ^ 53" "mb_size b < ms_slice m + n + 3"
  shows "buffer_readInt8 L [LBuffer m, lua_int (int (ms_until m + 1))] h =
      Inr ([lua_int (to_signed 8 (int (unat (mb_bytes b (ms_slice m + ms_until m)))))], h) \<and>
    buffer_readUInt32BE L [LBuffer m, lua_int (int n)] h = Inl (Undefined ''read past the MemBlock'')"
proof
  have "arg_size L [LBuffer m, lua_int (int (ms_until m + 1))] 2 = Inr (ms_until m + 1)"
    using assms(2,3) by (subst arg_size_int [of _ _ "int (ms_until m + 1)"]) (simp_all del: of_nat_Suc of_nat_add)
  then have "buffer_getoffset L [LBuffer m, lua_int (int (ms_until m + 1))] 2 (ms_until m) 0 = Inr (ms_until m + 1)"
    by (simp add: buffer_getoffset_def del: of_nat_Suc of_nat_add)
  then show "buffer_readInt8 L [LBuffer m, lua_int (int (ms_until m + 1))] h =
      Inr ([lua_int (to_signed 8 (int (unat (mb_bytes b (ms_slice m + ms_until m)))))], h)"
    using assms(1,2) by (simp add: buffer_readInt8_def buffer_read_def block_read_def deref_def mem_read_def del: of_nat_Suc of_nat_add)
  have "arg_size L [LBuffer m, lua_int (int n)] 2 = Inr n"
    using assms(6) by (subst arg_size_int [of _ _ "int n"]) simp_all
  then have "buffer_getoffset L [LBuffer m, lua_int (int n)] 2 (ms_until m) 4 = Inr n"
    using assms(4-6) by (auto simp: buffer_getoffset_def sz_sub_def)
  then show "buffer_readUInt32BE L [LBuffer m, lua_int (int n)] h = Inl (Undefined ''read past the MemBlock'')"
    using assms(1,5,7) by (simp add: buffer_readUInt32BE_def buffer_read_def block_read_def deref_def)
qed

theorem buffer_reads_past_end_witness:
  "buffer_readInt8 ex_lib [LBuffer (ex_slice 3), lua_int 4] (ex_block [1, 2, 3, 255]) =
      Inr ([lua_int (- 1)], ex_block [1, 2, 3, 255]) \<and>
   buffer_readUInt32BE ex_lib [LBuffer (ex_slice 3), lua_int 1022] (ex_block [1, 2, 3, 255]) =
      Inl (Undefined ''read past the MemBlock'')"
  using buffer_reads_past_end [of "ex_block [1, 2, 3, 255]" "ex_slice 3"
      "\<lparr>mb_allocator = Mem_1k, mb_refcount = 1, mb_size = 1024, mb_nbytes = 4,
        mb_bytes = mem_write (\<lambda>_. 0) 0 [1, 2, 3, 255]\<rparr>" 1022 ex_lib]
  by (simp add: ex_block_def mem_write_def to_signed_def)

end
